(* ===== verification/Prelude.thy ===== *)
theory Prelude
  imports Main "HOL-Library.Word" "HOL-Library.Monad_Syntax"
begin

text \<open>
  The shared ground of the development: names for the machine types of the C
  sources, the memory primitives of the C library that the sources use on byte
  buffers (\<open>memcpy\<close>, \<open>memmove\<close>, \<open>realloc\<close>), and the generic lemmas on lists,
  options and arrays of equally sized cells that the component theories share.

  A buffer is a list. An access outside a buffer is undefined behaviour in C; the
  primitives return \<open>None\<close> there, so that a theorem which states that an operation
  returns \<open>Some\<close> also states that it never reads or writes out of bounds.
\<close>

type_synonym byte = "8 word"
type_synonym u16 = "16 word"
type_synonym u32 = "32 word"
type_synonym u64 = "64 word"

named_theorems mem_simps \<open>evaluation of the memory primitives inside their bounds\<close>

abbreviation INT16_MIN :: int where "INT16_MIN \<equiv> - (2 ^ 15)"
abbreviation INT16_MAX :: int where "INT16_MAX \<equiv> 2 ^ 15 - 1"
abbreviation INT32_MIN :: int where "INT32_MIN \<equiv> - (2 ^ 31)"
abbreviation INT32_MAX :: int where "INT32_MAX \<equiv> 2 ^ 31 - 1"
abbreviation INT64_MIN :: int where "INT64_MIN \<equiv> - (2 ^ 63)"
abbreviation INT64_MAX :: int where "INT64_MAX \<equiv> 2 ^ 63 - 1"
abbreviation UINT64_MAX :: nat where "UINT64_MAX \<equiv> 2 ^ 64 - 1"

section \<open>Memory primitives\<close>

definition mem_read :: "'a list \<Rightarrow> nat \<Rightarrow> nat \<Rightarrow> 'a list option" where
  "mem_read xs off n = (if off + n \<le> length xs then Some (take n (drop off xs)) else None)"

definition mem_write :: "'a list \<Rightarrow> nat \<Rightarrow> 'a list \<Rightarrow> 'a list option" where
  "mem_write xs off ys =
     (if off + length ys \<le> length xs
      then Some (take off xs @ ys @ drop (off + length ys) xs) else None)"

definition memmove :: "'a list \<Rightarrow> nat \<Rightarrow> nat \<Rightarrow> nat \<Rightarrow> 'a list option" where
  "memmove xs dst src n = do { ys \<leftarrow> mem_read xs src n; mem_write xs dst ys }"

text \<open>
  \<open>zrealloc\<close> keeps the common prefix; the bytes of a grown area are unspecified, so
  they are given by an arbitrary function \<open>junk\<close> of the model's caller.
\<close>

definition zrealloc :: "(nat \<Rightarrow> 'a) \<Rightarrow> nat \<Rightarrow> 'a list \<Rightarrow> 'a list" where
  "zrealloc junk n xs = take n xs @ map junk [length xs..<n]"

definition get_at :: "'a list \<Rightarrow> int \<Rightarrow> 'a option" where
  "get_at xs i = (if 0 \<le> i \<and> i < int (length xs) then Some (xs ! nat i) else None)"

definition set_at :: "'a list \<Rightarrow> int \<Rightarrow> 'a \<Rightarrow> 'a list option" where
  "set_at xs i v = (if 0 \<le> i \<and> i < int (length xs) then Some (xs[nat i := v]) else None)"

text \<open>A C string literal as the bytes it stands for (without the terminator).\<close>

abbreviation str :: "string \<Rightarrow> byte list" where
  "str s \<equiv> map of_char s"

lemma length_zrealloc [simp]: "length (zrealloc junk n xs) = n"
  by (auto simp: zrealloc_def)

lemma zrealloc_same: "zrealloc junk (length xs) xs = xs"
  by (simp add: zrealloc_def)

lemma zrealloc_shrink: "n \<le> length xs \<Longrightarrow> zrealloc junk n xs = take n xs"
  by (simp add: zrealloc_def)

lemma zrealloc_grow:
  "length xs \<le> n \<Longrightarrow> zrealloc junk n xs = xs @ map junk [length xs..<n]"
  by (simp add: zrealloc_def)

lemma length_mem_write: "mem_write xs off ys = Some zs \<Longrightarrow> length zs = length xs"
  by (auto simp: mem_write_def split: if_splits)

lemma length_mem_read: "mem_read xs off n = Some ys \<Longrightarrow> length ys = n"
  by (auto simp: mem_read_def split: if_splits)

lemma mem_read_eq_Some_iff:
  "mem_read xs off n = Some ys \<longleftrightarrow> off + n \<le> length xs \<and> ys = take n (drop off xs)"
  by (auto simp: mem_read_def)

lemma mem_read_append1:
  "off + n \<le> length xs \<Longrightarrow> mem_read (xs @ ys) off n = mem_read xs off n"
  by (auto simp: mem_read_def)

lemma mem_read_take:
  "off + n \<le> m \<Longrightarrow> m \<le> length xs \<Longrightarrow> mem_read (take m xs) off n = mem_read xs off n"
  by (auto simp: mem_read_def drop_take min_def)

lemma get_at_nat [simp]: "get_at xs (int i) = (if i < length xs then Some (xs ! i) else None)"
  by (simp add: get_at_def)

lemma set_at_nat [simp]: "set_at xs (int i) v = (if i < length xs then Some (xs[i := v]) else None)"
  by (simp add: set_at_def)

lemma set_at_pred [simp]:
  "0 < i \<Longrightarrow> set_at xs (int i - 1) v = (if i - 1 < length xs then Some (xs[i - 1 := v]) else None)"
  using set_at_nat [of xs "i - 1" v] by (simp add: of_nat_diff)

section \<open>Arrays of equally sized cells\<close>

text \<open>
  A typed C array over a byte buffer is the concatenation of its cells. These lemmas
  turn the byte offsets \<open>i * k\<close> of such an array into indices of cells.
\<close>

definition cells :: "nat \<Rightarrow> 'a list list \<Rightarrow> bool" where
  "cells k cs \<longleftrightarrow> (\<forall>c \<in> set cs. length c = k)"

lemma cells_simps [simp]:
  "cells k []"
  "cells k (c # cs) \<longleftrightarrow> length c = k \<and> cells k cs"
  "cells k (cs @ ds) \<longleftrightarrow> cells k cs \<and> cells k ds"
  by (auto simp: cells_def)

lemma cells_take [simp]: "cells k cs \<Longrightarrow> cells k (take i cs)"
  by (auto simp: cells_def dest: in_set_takeD)

lemma cells_drop [simp]: "cells k cs \<Longrightarrow> cells k (drop i cs)"
  by (auto simp: cells_def dest: in_set_dropD)

lemma cells_nth [simp]: "cells k cs \<Longrightarrow> i < length cs \<Longrightarrow> length (cs ! i) = k"
  by (auto simp: cells_def)

lemma cells_map: "(\<And>x. x \<in> set xs \<Longrightarrow> length (f x) = k) \<Longrightarrow> cells k (map f xs)"
  by (auto simp: cells_def)

lemma length_concat_cells: "cells k cs \<Longrightarrow> length (concat cs) = length cs * k"
  by (induction cs) auto

lemma take_concat_cells: "cells k cs \<Longrightarrow> take (i * k) (concat cs) = concat (take i cs)"
proof (induction cs arbitrary: i)
  case (Cons c cs)
  then show ?case by (cases i) auto
qed simp

lemma drop_concat_cells: "cells k cs \<Longrightarrow> drop (i * k) (concat cs) = concat (drop i cs)"
proof (induction cs arbitrary: i)
  case (Cons c cs)
  then show ?case by (cases i) auto
qed simp

lemma mem_read_cells:
  assumes "cells k cs" and "i + n \<le> length cs"
  shows "mem_read (concat cs) (i * k) (n * k) = Some (concat (take n (drop i cs)))"
proof -
  have "i * k + n * k \<le> length (concat cs)"
    using assms by (simp add: length_concat_cells add_mult_distrib [symmetric])
  then show ?thesis
    using assms by (simp add: mem_read_def drop_concat_cells take_concat_cells)
qed

lemma mem_read_cell:
  assumes "cells k cs" and "i < length cs"
  shows "mem_read (concat cs) (i * k) k = Some (cs ! i)"
  using mem_read_cells [of k cs i 1] assms by (simp add: take_Suc_conv_app_nth take_Suc hd_drop_conv_nth)

lemma mem_write_cells:
  assumes "cells k cs" and "cells k ds" and "i + length ds \<le> length cs"
  shows "mem_write (concat cs) (i * k) (concat ds)
       = Some (concat (take i cs @ ds @ drop (i + length ds) cs))"
proof -
  have len: "length (concat ds) = length ds * k"
    using assms(2) by (rule length_concat_cells)
  have "i * k + length (concat ds) \<le> length (concat cs)"
    using assms by (simp add: length_concat_cells add_mult_distrib [symmetric])
  moreover have "drop (i * k + length (concat ds)) (concat cs) = concat (drop (i + length ds) cs)"
    using drop_concat_cells [OF assms(1), of "i + length ds"] by (simp add: len add_mult_distrib)
  ultimately show ?thesis
    using assms(1) by (simp add: mem_write_def take_concat_cells)
qed

lemma mem_write_cell:
  assumes "cells k cs" and "length c = k" and "i < length cs"
  shows "mem_write (concat cs) (i * k) c = Some (concat (cs[i := c]))"
  using mem_write_cells [of k cs "[c]" i] assms by (simp add: upd_conv_take_nth_drop)

lemma cells_update [simp]: "cells k cs \<Longrightarrow> length c = k \<Longrightarrow> cells k (cs[i := c])"
  using set_update_subset_insert [of cs i c] by (auto simp: cells_def)

text \<open>Every buffer whose size is a multiple of \<open>k\<close> is an array of cells.\<close>

fun chunks :: "nat \<Rightarrow> nat \<Rightarrow> 'a list \<Rightarrow> 'a list list" where
  "chunks k 0 xs = []"
| "chunks k (Suc n) xs = take k xs # chunks k n (drop k xs)"

lemma length_chunks [simp]: "length (chunks k n xs) = n"
  by (induction n arbitrary: xs) auto

lemma cells_chunks: "length xs = n * k \<Longrightarrow> cells k (chunks k n xs)"
  by (induction n arbitrary: xs) auto

lemma concat_chunks: "length xs = n * k \<Longrightarrow> concat (chunks k n xs) = xs"
  by (induction n arbitrary: xs) auto

lemma chunks_concat: "cells k cs \<Longrightarrow> chunks k (length cs) (concat cs) = cs"
  by (induction cs) auto

section \<open>Words\<close>

lemma unat_byte_less: "unat (b :: byte) < 256"
  by (rule order_less_le_trans [OF unsigned_less]) simp

lemma unat_ucast_byte64 [simp]: "unat (ucast (b :: byte) :: u64) = unat b"
proof -
  have "unat b < 2 ^ 64" using unat_byte_less [of b] by simp
  then show ?thesis by (simp add: unsigned_ucast_eq take_bit_nat_eq_self)
qed

lemma unat_drop_div: "unat (drop_bit n w) = unat w div 2 ^ n"
  unfolding unat_drop_bit_eq by (rule drop_bit_eq_div)

lemma unat_take_mod: "unat (take_bit n w) = unat w mod 2 ^ n"
  unfolding unsigned_take_bit_eq by (rule take_bit_eq_mod)

lemma unat_mask: "n \<le> LENGTH('a) \<Longrightarrow> unat (mask n :: 'a::len word) = 2 ^ n - 1"
  unfolding unat_eq_nat_uint uint_mask_eq
  by (simp add: min_def mask_eq_exp_minus_1 nat_diff_distrib nat_power_eq)

section \<open>Lists and options\<close>

lemma option_bind_SomeE:
  assumes "Option.bind x f = Some y"
  obtains a where "x = Some a" and "f a = Some y"
  using assms by (cases x) auto

lemma nth_map_upt0 [simp]: "i < n \<Longrightarrow> map f [0..<n] ! i = f i"
  by simp

end
