(* ===== verification/Adlist.thy ===== *)
theory Adlist
  imports Prelude
begin

text \<open>
  \<open>adlist.c\<close>: doubly linked lists. The nodes live on an explicit heap, a partial map
  from addresses to nodes; NULL is \<open>None\<close>. Reading or writing through NULL or through a
  freed address is \<open>None\<close> in the option monad. The addresses \<open>zmalloc\<close> returns come from
  an allocator that is a parameter: it returns an address that is not in use (and never
  NULL: \<open>zmalloc\<close> aborts the process instead). The callbacks \<open>dup\<close> and \<open>match\<close> are fields
  of the list as in the source; \<open>free\<close> releases the value a node points to, which is
  outside the node heap, and has no field.
\<close>

section \<open>Operations\<close>

type_synonym addr = nat
type_synonym ptr = "addr option"

record 'v listNode =
  ln_prev :: ptr
  ln_next :: ptr
  ln_value :: 'v

type_synonym 'v node_heap = "addr \<rightharpoonup> 'v listNode"

record 'v adlist =
  l_head :: ptr
  l_tail :: ptr
  l_dup :: "('v \<Rightarrow> 'v option) option"
  l_match :: "('v \<Rightarrow> 'v \<Rightarrow> bool) option"
  l_len :: nat

datatype list_direction = AL_START_HEAD | AL_START_TAIL

record listIter =
  li_next :: ptr
  li_direction :: list_direction

text \<open>Reading and updating the node a pointer points to.\<close>

definition node_at :: "'v node_heap \<Rightarrow> ptr \<Rightarrow> 'v listNode option" where
  "node_at h p = do { a \<leftarrow> p; h a }"

definition node_upd :: "'v node_heap \<Rightarrow> ptr \<Rightarrow> ('v listNode \<Rightarrow> 'v listNode) \<Rightarrow> 'v node_heap option" where
  "node_upd h p f = do { a \<leftarrow> p; n \<leftarrow> h a; Some (h(a \<mapsto> f n)) }"

definition listCreate :: "'v adlist" where
  "listCreate = \<lparr>l_head = None, l_tail = None, l_dup = None, l_match = None, l_len = 0\<rparr>"

definition listAddNodeHead ::
  "('v node_heap \<Rightarrow> addr) \<Rightarrow> 'v node_heap \<Rightarrow> 'v adlist \<Rightarrow> 'v \<Rightarrow> ('v node_heap \<times> 'v adlist) option" where
  "listAddNodeHead zmalloc h l v = (
     let node = zmalloc h in
     if l_len l = 0 then
       Some (h(node \<mapsto> \<lparr>ln_prev = None, ln_next = None, ln_value = v\<rparr>),
             l\<lparr>l_head := Some node, l_tail := Some node, l_len := l_len l + 1\<rparr>)
     else do {
       let h = h(node \<mapsto> \<lparr>ln_prev = None, ln_next = l_head l, ln_value = v\<rparr>);
       h \<leftarrow> node_upd h (l_head l) (ln_prev_update (\<lambda>_. Some node));
       Some (h, l\<lparr>l_head := Some node, l_len := l_len l + 1\<rparr>)
     })"

definition listAddNodeTail ::
  "('v node_heap \<Rightarrow> addr) \<Rightarrow> 'v node_heap \<Rightarrow> 'v adlist \<Rightarrow> 'v \<Rightarrow> ('v node_heap \<times> 'v adlist) option" where
  "listAddNodeTail zmalloc h l v = (
     let node = zmalloc h in
     if l_len l = 0 then
       Some (h(node \<mapsto> \<lparr>ln_prev = None, ln_next = None, ln_value = v\<rparr>),
             l\<lparr>l_head := Some node, l_tail := Some node, l_len := l_len l + 1\<rparr>)
     else do {
       let h = h(node \<mapsto> \<lparr>ln_prev = l_tail l, ln_next = None, ln_value = v\<rparr>);
       h \<leftarrow> node_upd h (l_tail l) (ln_next_update (\<lambda>_. Some node));
       Some (h, l\<lparr>l_tail := Some node, l_len := l_len l + 1\<rparr>)
     })"

definition listInsertNode ::
  "('v node_heap \<Rightarrow> addr) \<Rightarrow> 'v node_heap \<Rightarrow> 'v adlist \<Rightarrow> ptr \<Rightarrow> 'v \<Rightarrow> bool \<Rightarrow> ('v node_heap \<times> 'v adlist) option" where
  "listInsertNode zmalloc h l old_node v after = do {
     let node = zmalloc h;
     old \<leftarrow> node_at h old_node;
     let (n, l) =
       (if after then
          (\<lparr>ln_prev = old_node, ln_next = ln_next old, ln_value = v\<rparr>,
           if l_tail l = old_node then l\<lparr>l_tail := Some node\<rparr> else l)
        else
          (\<lparr>ln_prev = ln_prev old, ln_next = old_node, ln_value = v\<rparr>,
           if l_head l = old_node then l\<lparr>l_head := Some node\<rparr> else l));
     let h = h(node \<mapsto> n);
     h \<leftarrow> (if ln_prev n \<noteq> None then node_upd h (ln_prev n) (ln_next_update (\<lambda>_. Some node)) else Some h);
     h \<leftarrow> (if ln_next n \<noteq> None then node_upd h (ln_next n) (ln_prev_update (\<lambda>_. Some node)) else Some h);
     Some (h, l\<lparr>l_len := l_len l + 1\<rparr>)
   }"

definition listDelNode :: "'v node_heap \<Rightarrow> 'v adlist \<Rightarrow> ptr \<Rightarrow> ('v node_heap \<times> 'v adlist) option" where
  "listDelNode h l node = do {
     a \<leftarrow> node;
     n \<leftarrow> h a;
     (h, l) \<leftarrow> (if ln_prev n \<noteq> None
       then map_option (\<lambda>h. (h, l)) (node_upd h (ln_prev n) (ln_next_update (\<lambda>_. ln_next n)))
       else Some (h, l\<lparr>l_head := ln_next n\<rparr>));
     (h, l) \<leftarrow> (if ln_next n \<noteq> None
       then map_option (\<lambda>h. (h, l)) (node_upd h (ln_next n) (ln_prev_update (\<lambda>_. ln_prev n)))
       else Some (h, l\<lparr>l_tail := ln_prev n\<rparr>));
     Some (h(a := None), l\<lparr>l_len := l_len l - 1\<rparr>)
   }"

fun listRelease_loop :: "nat \<Rightarrow> 'v node_heap \<Rightarrow> ptr \<Rightarrow> 'v node_heap option" where
  "listRelease_loop 0 h current = Some h"
| "listRelease_loop (Suc len) h current = do {
     a \<leftarrow> current;
     n \<leftarrow> h a;
     listRelease_loop len (h(a := None)) (ln_next n)
   }"

definition listRelease :: "'v node_heap \<Rightarrow> 'v adlist \<Rightarrow> 'v node_heap option" where
  "listRelease h l = listRelease_loop (l_len l) h (l_head l)"

definition listGetIterator :: "'v adlist \<Rightarrow> list_direction \<Rightarrow> listIter" where
  "listGetIterator l direction =
     \<lparr>li_next = (if direction = AL_START_HEAD then l_head l else l_tail l), li_direction = direction\<rparr>"

definition listRewind :: "'v adlist \<Rightarrow> listIter" where
  "listRewind l = \<lparr>li_next = l_head l, li_direction = AL_START_HEAD\<rparr>"

definition listRewindTail :: "'v adlist \<Rightarrow> listIter" where
  "listRewindTail l = \<lparr>li_next = l_tail l, li_direction = AL_START_TAIL\<rparr>"

definition listNext :: "'v node_heap \<Rightarrow> listIter \<Rightarrow> (listIter \<times> ptr) option" where
  "listNext h iter =
     (case li_next iter of
        None \<Rightarrow> Some (iter, None)
      | Some a \<Rightarrow> do {
          n \<leftarrow> h a;
          Some (iter\<lparr>li_next := (if li_direction iter = AL_START_HEAD then ln_next n else ln_prev n)\<rparr>, Some a)
        })"

text \<open>\<open>while((node = listNext(&iter)) != NULL)\<close> over the nodes of a list.\<close>

partial_function (option) listSearchKey_loop ::
  "'v adlist \<Rightarrow> 'v node_heap \<Rightarrow> 'v \<Rightarrow> listIter \<Rightarrow> ptr option" where
  "listSearchKey_loop l h key iter = do {
     (iter, node) \<leftarrow> listNext h iter;
     case node of
       None \<Rightarrow> Some None
     | Some a \<Rightarrow> do {
         n \<leftarrow> h a;
         if (case l_match l of Some match \<Rightarrow> match (ln_value n) key | None \<Rightarrow> key = ln_value n)
         then Some node else listSearchKey_loop l h key iter
       }
   }"

definition listSearchKey :: "'v node_heap \<Rightarrow> 'v adlist \<Rightarrow> 'v \<Rightarrow> ptr option" where
  "listSearchKey h l key = listSearchKey_loop l h key (listRewind l)"

text \<open>The result is the copy, or NULL when the \<open>dup\<close> method failed.\<close>

partial_function (option) listDup_loop ::
  "('v node_heap \<Rightarrow> addr) \<Rightarrow> 'v node_heap \<Rightarrow> 'v adlist \<Rightarrow> listIter \<Rightarrow>
   ('v node_heap \<times> 'v adlist option) option" where
  "listDup_loop zmalloc h copy iter = do {
     (iter, node) \<leftarrow> listNext h iter;
     case node of
       None \<Rightarrow> Some (h, Some copy)
     | Some a \<Rightarrow> do {
         n \<leftarrow> h a;
         case (case l_dup copy of Some dup \<Rightarrow> dup (ln_value n) | None \<Rightarrow> Some (ln_value n)) of
           None \<Rightarrow> do { h \<leftarrow> listRelease h copy; Some (h, None) }
         | Some v \<Rightarrow> do {
             (h, copy) \<leftarrow> listAddNodeTail zmalloc h copy v;
             listDup_loop zmalloc h copy iter
           }
       }
   }"

definition listDup :: "('v node_heap \<Rightarrow> addr) \<Rightarrow> 'v node_heap \<Rightarrow> 'v adlist \<Rightarrow>
    ('v node_heap \<times> 'v adlist option) option" where
  "listDup zmalloc h orig =
     listDup_loop zmalloc h (listCreate\<lparr>l_dup := l_dup orig, l_match := l_match orig\<rparr>) (listRewind orig)"

text \<open>
  \<open>while(index-- && n) n = n->next\<close> and its mirror image. The negation of the least
  \<open>long\<close> overflows.
\<close>

fun listIndex_loop :: "('v listNode \<Rightarrow> ptr) \<Rightarrow> 'v node_heap \<Rightarrow> nat \<Rightarrow> ptr \<Rightarrow> ptr option" where
  "listIndex_loop step h 0 n = Some n"
| "listIndex_loop step h (Suc index) n =
     (case n of None \<Rightarrow> Some None | Some a \<Rightarrow> do { x \<leftarrow> h a; listIndex_loop step h index (step x) })"

definition listIndex :: "'v node_heap \<Rightarrow> 'v adlist \<Rightarrow> int \<Rightarrow> ptr option" where
  "listIndex h l index =
     (if index = INT64_MIN then None
      else if index < 0 then listIndex_loop ln_prev h (nat (- index - 1)) (l_tail l)
      else listIndex_loop ln_next h (nat index) (l_head l))"

definition listRotate :: "'v node_heap \<Rightarrow> 'v adlist \<Rightarrow> ('v node_heap \<times> 'v adlist) option" where
  "listRotate h l =
     (if l_len l \<le> 1 then Some (h, l)
      else do {
        let tail = l_tail l;
        t \<leftarrow> node_at h tail;
        let l = l\<lparr>l_tail := ln_prev t\<rparr>;
        h \<leftarrow> node_upd h (l_tail l) (ln_next_update (\<lambda>_. None));
        h \<leftarrow> node_upd h (l_head l) (ln_prev_update (\<lambda>_. tail));
        h \<leftarrow> node_upd h tail (ln_prev_update (\<lambda>_. None));
        h \<leftarrow> node_upd h tail (ln_next_update (\<lambda>_. l_head l));
        Some (h, l\<lparr>l_head := tail\<rparr>)
      })"

section \<open>Lists on the heap\<close>

text \<open>
  A segment of nodes, given as the list of their addresses and values, between the
  node before it and the node after it.
\<close>

definition firstp :: "(addr \<times> 'v) list \<Rightarrow> ptr \<Rightarrow> ptr" where
  "firstp xs n = (case xs of [] \<Rightarrow> n | x # _ \<Rightarrow> Some (fst x))"

definition lastp :: "ptr \<Rightarrow> (addr \<times> 'v) list \<Rightarrow> ptr" where
  "lastp p xs = (if xs = [] then p else Some (fst (last xs)))"

fun dseg :: "'v node_heap \<Rightarrow> ptr \<Rightarrow> (addr \<times> 'v) list \<Rightarrow> ptr \<Rightarrow> bool" where
  "dseg h p [] n \<longleftrightarrow> True"
| "dseg h p ((a, v) # xs) n \<longleftrightarrow>
     h a = Some \<lparr>ln_prev = p, ln_next = firstp xs n, ln_value = v\<rparr> \<and> dseg h (Some a) xs n"

definition list_at :: "'v node_heap \<Rightarrow> 'v adlist \<Rightarrow> (addr \<times> 'v) list \<Rightarrow> bool" where
  "list_at h l xs \<longleftrightarrow> distinct (map fst xs) \<and> dseg h None xs None
     \<and> l_head l = firstp xs None \<and> l_tail l = lastp None xs \<and> l_len l = length xs"

lemma firstp_simps [simp]: "firstp [] n = n" "firstp (x # xs) n = Some (fst x)"
  by (simp_all add: firstp_def)

lemma firstp_append [simp]: "firstp (xs @ ys) n = firstp xs (firstp ys n)"
  by (cases xs) (simp_all add: firstp_def)

lemma lastp_simps [simp]: "lastp p [] = p" "lastp p (x # xs) = lastp (Some (fst x)) xs"
  by (simp_all add: lastp_def)

lemma lastp_append [simp]: "lastp p (xs @ ys) = lastp (lastp p xs) ys"
  by (simp add: lastp_def)

lemma dseg_append [simp]:
  "dseg h p (xs @ ys) n \<longleftrightarrow> dseg h p xs (firstp ys n) \<and> dseg h (lastp p xs) ys n"
proof (induction xs arbitrary: p)
  case (Cons x xs)
  then show ?case by (cases x) simp
qed simp

lemma dseg_frame: "\<lbrakk>\<And>a. a \<in> fst ` set xs \<Longrightarrow> h' a = h a\<rbrakk> \<Longrightarrow> dseg h' p xs n \<longleftrightarrow> dseg h p xs n"
  by (induction xs arbitrary: p) (auto simp: image_iff)

lemma dseg_upd_other [simp]: "a \<notin> fst ` set xs \<Longrightarrow> dseg (h(a := x)) p xs n \<longleftrightarrow> dseg h p xs n"
  by (rule dseg_frame) auto

lemma dseg_dom: "dseg h p xs n \<Longrightarrow> a \<in> fst ` set xs \<Longrightarrow> h a \<noteq> None"
proof (induction xs arbitrary: p)
  case (Cons x xs)
  then show ?case by (cases x) (auto simp del: not_None_eq)
qed simp

text \<open>
  Relinking the node before a position and the node after it, if there is one: only a
  node of the segment changes.
\<close>

lemma dseg_relink_next:
  assumes "dseg h None ys n" and "distinct (map fst ys)"
  obtains h' where
    "(if lastp None ys \<noteq> None then node_upd h (lastp None ys) (ln_next_update (\<lambda>_. n')) else Some h) = Some h'"
    "dseg h' None ys n'" "\<And>a. a \<notin> fst ` set ys \<Longrightarrow> h' a = h a" "dom h' = dom h"
proof (cases ys rule: rev_cases)
  case Nil
  show ?thesis by (rule that [of h]) (simp_all add: Nil)
next
  case (snoc zs z)
  obtain a v where z: "z = (a, v)" by (cases z)
  have *: "dseg h None zs (Some a)" "a \<notin> fst ` set zs"
      "h a = Some \<lparr>ln_prev = lastp None zs, ln_next = n, ln_value = v\<rparr>"
    using assms snoc z by auto
  define h' where "h' = h(a \<mapsto> \<lparr>ln_prev = lastp None zs, ln_next = n', ln_value = v\<rparr>)"
  show ?thesis
  proof (rule that [of h'])
    show "(if lastp None ys \<noteq> None then node_upd h (lastp None ys) (ln_next_update (\<lambda>_. n')) else Some h) = Some h'"
      using *(3) by (simp add: snoc z node_upd_def h'_def)
    show "dseg h' None ys n'" using *(1,2) by (simp add: snoc z h'_def)
    show "h' b = h b" if "b \<notin> fst ` set ys" for b using that by (auto simp: snoc z h'_def)
    show "dom h' = dom h" using *(3) by (auto simp: h'_def)
  qed
qed

lemma dseg_relink_prev:
  assumes "dseg h p zs None" and "distinct (map fst zs)"
  obtains h' where
    "(if firstp zs None \<noteq> None then node_upd h (firstp zs None) (ln_prev_update (\<lambda>_. p')) else Some h) = Some h'"
    "dseg h' p' zs None" "\<And>a. a \<notin> fst ` set zs \<Longrightarrow> h' a = h a" "dom h' = dom h"
proof (cases zs)
  case Nil
  show ?thesis by (rule that [of h]) (simp_all add: Nil)
next
  case (Cons z ys)
  obtain a v where z: "z = (a, v)" by (cases z)
  have *: "dseg h (Some a) ys None" "a \<notin> fst ` set ys"
      "h a = Some \<lparr>ln_prev = p, ln_next = firstp ys None, ln_value = v\<rparr>"
    using assms Cons z by auto
  define h' where "h' = h(a \<mapsto> \<lparr>ln_prev = p', ln_next = firstp ys None, ln_value = v\<rparr>)"
  show ?thesis
  proof (rule that [of h'])
    show "(if firstp zs None \<noteq> None then node_upd h (firstp zs None) (ln_prev_update (\<lambda>_. p')) else Some h) = Some h'"
      using *(3) by (simp add: Cons z node_upd_def h'_def)
    show "dseg h' p' zs None" using *(1,2) by (simp add: Cons z h'_def)
    show "h' b = h b" if "b \<notin> fst ` set zs" for b using that by (auto simp: Cons z h'_def)
    show "dom h' = dom h" using *(3) by (auto simp: h'_def)
  qed
qed

text \<open>
  What an operation does to a list: it turns the nodes \<open>xs\<close> into \<open>xs'\<close>, leaves every other
  cell of the heap alone, allocates and frees exactly the difference, and keeps the callbacks.
\<close>

abbreviation addrs :: "(addr \<times> 'v) list \<Rightarrow> addr set" where
  "addrs xs \<equiv> fst ` set xs"

definition list_effect ::
  "'v node_heap \<Rightarrow> 'v adlist \<Rightarrow> (addr \<times> 'v) list \<Rightarrow> 'v node_heap \<Rightarrow> 'v adlist \<Rightarrow> (addr \<times> 'v) list \<Rightarrow> bool" where
  "list_effect h l xs h' l' xs' \<longleftrightarrow> list_at h' l' xs'
     \<and> (\<forall>a. a \<notin> addrs xs \<and> a \<notin> addrs xs' \<longrightarrow> h' a = h a)
     \<and> dom h' = dom h - addrs xs \<union> addrs xs' \<and> l_dup l' = l_dup l \<and> l_match l' = l_match l"

lemma list_effectI:
  assumes "dseg h' None xs' None" "distinct (map fst xs')" "l_head l' = firstp xs' None"
    "l_tail l' = lastp None xs'" "l_len l' = length xs'"
    "\<And>a. a \<notin> addrs xs \<Longrightarrow> a \<notin> addrs xs' \<Longrightarrow> h' a = h a"
    "dom h' = dom h - addrs xs \<union> addrs xs'" "l_dup l' = l_dup l" "l_match l' = l_match l"
  shows "list_effect h l xs h' l' xs'"
  using assms by (simp add: list_effect_def list_at_def)

lemma list_at_dom: "list_at h l xs \<Longrightarrow> addrs xs \<subseteq> dom h"
  using dseg_dom by (fastforce simp: list_at_def)

lemma list_at_fresh: "list_at h l xs \<Longrightarrow> h a = None \<Longrightarrow> a \<notin> addrs xs"
  using list_at_dom by blast

lemma listAddNodeHead_at:
  assumes at: "list_at h l xs" and fresh: "h (zmalloc h) = None"
  obtains h' l' where "listAddNodeHead zmalloc h l v = Some (h', l')"
    "list_effect h l xs h' l' ((zmalloc h, v) # xs)"
proof -
  let ?a = "zmalloc h"
  let ?h = "h(?a \<mapsto> \<lparr>ln_prev = None, ln_next = l_head l, ln_value = v\<rparr>)"
  have a: "?a \<notin> addrs xs" using list_at_fresh [OF at fresh] .
  have d: "distinct (map fst xs)" "dseg ?h None xs None" and l: "l_head l = firstp xs None"
      "l_tail l = lastp None xs" "l_len l = length xs"
    using at a by (auto simp: list_at_def)
  obtain h' where h': "(if firstp xs None \<noteq> None then node_upd ?h (firstp xs None) (ln_prev_update (\<lambda>_. Some ?a)) else Some ?h) = Some h'"
      "dseg h' (Some ?a) xs None" "\<And>b. b \<notin> addrs xs \<Longrightarrow> h' b = ?h b" "dom h' = dom ?h"
    using dseg_relink_prev [OF d(2,1), of "Some ?a"] by blast
  define l' where "l' = l\<lparr>l_head := Some ?a, l_tail := (if xs = [] then Some ?a else l_tail l), l_len := l_len l + 1\<rparr>"
  have "listAddNodeHead zmalloc h l v = Some (h', l')"
    using h'(1) l by (cases xs) (simp_all add: listAddNodeHead_def Let_def l'_def)
  moreover have "list_effect h l xs h' l' ((?a, v) # xs)"
    using h'(2) a d(1) l h'(3) [of ?a] h'(3,4) list_at_dom [OF at]
    by (auto simp: list_effect_def list_at_def l'_def lastp_def)
  ultimately show thesis by (rule that)
qed

lemma listAddNodeTail_at:
  assumes at: "list_at h l xs" and fresh: "h (zmalloc h) = None"
  obtains h' l' where "listAddNodeTail zmalloc h l v = Some (h', l')"
    "list_effect h l xs h' l' (xs @ [(zmalloc h, v)])"
proof -
  let ?a = "zmalloc h"
  let ?h = "h(?a \<mapsto> \<lparr>ln_prev = l_tail l, ln_next = None, ln_value = v\<rparr>)"
  have a: "?a \<notin> addrs xs" using list_at_fresh [OF at fresh] .
  have d: "distinct (map fst xs)" "dseg ?h None xs None" and l: "l_head l = firstp xs None"
      "l_tail l = lastp None xs" "l_len l = length xs"
    using at a by (auto simp: list_at_def)
  obtain h' where h': "(if lastp None xs \<noteq> None then node_upd ?h (lastp None xs) (ln_next_update (\<lambda>_. Some ?a)) else Some ?h) = Some h'"
      "dseg h' None xs (Some ?a)" "\<And>b. b \<notin> addrs xs \<Longrightarrow> h' b = ?h b" "dom h' = dom ?h"
    using dseg_relink_next [OF d(2,1), of "Some ?a"] by blast
  define l' where "l' = l\<lparr>l_head := (if xs = [] then Some ?a else l_head l), l_tail := Some ?a, l_len := l_len l + 1\<rparr>"
  have "listAddNodeTail zmalloc h l v = Some (h', l')"
    using h'(1) l by (cases xs) (simp_all add: listAddNodeTail_def Let_def l'_def lastp_def)
  moreover have "list_effect h l xs h' l' (xs @ [(?a, v)])"
    using h'(2) a d(1) l h'(3) [of ?a] h'(3,4) list_at_dom [OF at]
    by (cases xs) (auto simp: list_effect_def list_at_def l'_def)
  ultimately show thesis by (rule that)
qed

lemma link_between:
  fixes h :: "'v node_heap" and v :: 'v
  assumes at: "list_at h l (us @ vs)" and fresh: "h a = None"
  defines "h0 \<equiv> h(a \<mapsto> \<lparr>ln_prev = lastp None us, ln_next = firstp vs None, ln_value = v\<rparr>)"
  obtains h1 h2 where
    "(if lastp None us \<noteq> None then node_upd h0 (lastp None us) (ln_next_update (\<lambda>_. Some a)) else Some h0) = Some h1"
    "(if firstp vs None \<noteq> None then node_upd h1 (firstp vs None) (ln_prev_update (\<lambda>_. Some a)) else Some h1) = Some h2"
    "dseg h2 None (us @ (a, v) # vs) None"
    "\<And>b. b \<notin> addrs us \<Longrightarrow> b \<notin> addrs vs \<Longrightarrow> b \<noteq> a \<Longrightarrow> h2 b = h b" "dom h2 = insert a (dom h)"
proof -
  have a: "a \<notin> addrs us" "a \<notin> addrs vs" using list_at_fresh [OF at fresh] by auto
  have us: "dseg h0 None us (firstp vs None)" "distinct (map fst us)"
    and vs: "dseg h0 (lastp None us) vs None" "distinct (map fst vs)"
    and disj: "addrs us \<inter> addrs vs = {}"
    using at a by (auto simp: list_at_def h0_def)
  obtain h1 where h1: "(if lastp None us \<noteq> None then node_upd h0 (lastp None us) (ln_next_update (\<lambda>_. Some a)) else Some h0) = Some h1"
      "dseg h1 None us (Some a)" "\<And>b. b \<notin> addrs us \<Longrightarrow> h1 b = h0 b" "dom h1 = dom h0"
    using dseg_relink_next [OF us, of "Some a"] by blast
  have "dseg h1 (lastp None us) vs None"
    using vs(1) dseg_frame [of vs h1 h0] h1(3) disj by blast
  then obtain h2 where h2: "(if firstp vs None \<noteq> None then node_upd h1 (firstp vs None) (ln_prev_update (\<lambda>_. Some a)) else Some h1) = Some h2"
      "dseg h2 (Some a) vs None" "\<And>b. b \<notin> addrs vs \<Longrightarrow> h2 b = h1 b" "dom h2 = dom h1"
    using dseg_relink_prev [OF _ vs(2), of h1 _ "Some a"] by blast
  have "dseg h2 None us (Some a)"
    using h1(2) dseg_frame [of us h2 h1] h2(3) disj by blast
  moreover have "h2 a = h0 a" using h1(3) [OF a(1)] h2(3) [OF a(2)] by simp
  ultimately have "dseg h2 None (us @ (a, v) # vs) None" using h2(2) by (simp add: h0_def)
  moreover have "h2 b = h b" if "b \<notin> addrs us" "b \<notin> addrs vs" "b \<noteq> a" for b
    using that h1(3) h2(3) by (simp add: h0_def)
  moreover have "dom h2 = insert a (dom h)" using h1(4) h2(4) by (simp add: h0_def)
  ultimately show thesis using that [OF h1(1) h2(1)] by blast
qed

lemma listInsertNode_at:
  assumes at: "list_at h l (ys @ (b, w) # zs)" and fresh: "h (zmalloc h) = None"
  obtains h' l' where "listInsertNode zmalloc h l (Some b) v after = Some (h', l')"
    "list_effect h l (ys @ (b, w) # zs) h' l'
       (if after then ys @ (b, w) # (zmalloc h, v) # zs else ys @ (zmalloc h, v) # (b, w) # zs)"
proof -
  let ?a = "zmalloc h" and ?xs = "ys @ (b, w) # zs"
  define us where "us = (if after then ys @ [(b, w)] else ys)"
  define vs where "vs = (if after then zs else (b, w) # zs)"
  have xs: "?xs = us @ vs" by (simp add: us_def vs_def)
  have a: "?a \<notin> addrs ?xs" using list_at_fresh [OF at fresh] .
  have old: "h b = Some \<lparr>ln_prev = lastp None ys, ln_next = firstp zs None, ln_value = w\<rparr>"
    and l: "l_head l = firstp ?xs None" "l_tail l = lastp None ?xs" "l_len l = length ?xs"
    and d: "distinct (map fst ?xs)"
    using at by (auto simp: list_at_def)
  define h0 where "h0 = h(?a \<mapsto> \<lparr>ln_prev = lastp None us, ln_next = firstp vs None, ln_value = v\<rparr>)"
  obtain h1 h2 where h:
    "(if lastp None us \<noteq> None then node_upd h0 (lastp None us) (ln_next_update (\<lambda>_. Some ?a)) else Some h0) = Some h1"
    "(if firstp vs None \<noteq> None then node_upd h1 (firstp vs None) (ln_prev_update (\<lambda>_. Some ?a)) else Some h1) = Some h2"
    "dseg h2 None (us @ (?a, v) # vs) None"
    "\<And>c. c \<notin> addrs us \<Longrightarrow> c \<notin> addrs vs \<Longrightarrow> c \<noteq> ?a \<Longrightarrow> h2 c = h c" "dom h2 = insert ?a (dom h)"
    using link_between [OF at [unfolded xs] fresh, of v] h0_def by blast
  have tl: "l_tail l = Some b \<longleftrightarrow> zs = []"
    using d l(2) by (cases zs rule: rev_cases) auto
  have hd: "l_head l = Some b \<longleftrightarrow> ys = []"
    using d l(1) by (cases ys) auto
  define l' where "l' = (if after then (if zs = [] then l\<lparr>l_tail := Some ?a\<rparr> else l)
    else (if ys = [] then l\<lparr>l_head := Some ?a\<rparr> else l))\<lparr>l_len := l_len l + 1\<rparr>"
  have "listInsertNode zmalloc h l (Some b) v after = Some (h2, l')"
  proof (cases after)
    case True
    then show ?thesis using h(1,2) old tl
      by (cases zs) (simp_all add: listInsertNode_def node_at_def h0_def us_def vs_def l'_def)
  next
    case False
    then show ?thesis using h(1,2) old hd
      by (cases ys rule: rev_cases) (simp_all add: listInsertNode_def node_at_def h0_def us_def vs_def l'_def)
  qed
  moreover have "list_effect h l ?xs h2 l' (us @ (?a, v) # vs)"
  proof (rule list_effectI)
    show "distinct (map fst (us @ (?a, v) # vs))" using a d by (auto simp: xs)
    show "l_head l' = firstp (us @ (?a, v) # vs) None"
      using l(1) by (cases ys) (simp_all add: us_def vs_def l'_def)
    show "l_tail l' = lastp None (us @ (?a, v) # vs)"
      using l(2) by (cases zs rule: rev_cases) (simp_all add: us_def vs_def l'_def)
    show "dom h2 = dom h - addrs ?xs \<union> addrs (us @ (?a, v) # vs)"
      using h(5) list_at_dom [OF at] by (auto simp: xs)
  qed (use h(3,4) l(3) in \<open>auto simp: xs us_def vs_def l'_def image_Un\<close>)
  moreover have "us @ (?a, v) # vs =
      (if after then ys @ (b, w) # (?a, v) # zs else ys @ (?a, v) # (b, w) # zs)"
    by (simp add: us_def vs_def)
  ultimately show thesis using that [of h2 l'] by argo
qed

lemma listDelNode_at:
  assumes at: "list_at h l (ys @ (b, w) # zs)"
  obtains h' l' where "listDelNode h l (Some b) = Some (h', l')"
    "list_effect h l (ys @ (b, w) # zs) h' l' (ys @ zs)"
proof -
  let ?xs = "ys @ (b, w) # zs"
  have b: "b \<notin> addrs ys" "b \<notin> addrs zs" and disj: "addrs ys \<inter> addrs zs = {}"
    and n: "h b = Some \<lparr>ln_prev = lastp None ys, ln_next = firstp zs None, ln_value = w\<rparr>"
    and ys: "dseg h None ys (Some b)" "distinct (map fst ys)"
    and zs: "dseg h (Some b) zs None" "distinct (map fst zs)"
    and l: "l_head l = firstp ?xs None" "l_tail l = lastp None ?xs" "l_len l = length ?xs"
    using at by (auto simp: list_at_def)
  obtain h1 where h1: "(if lastp None ys \<noteq> None then node_upd h (lastp None ys) (ln_next_update (\<lambda>_. firstp zs None)) else Some h) = Some h1"
      "dseg h1 None ys (firstp zs None)" "\<And>c. c \<notin> addrs ys \<Longrightarrow> h1 c = h c" "dom h1 = dom h"
    using dseg_relink_next [OF ys, of "firstp zs None"] by blast
  have "dseg h1 (Some b) zs None" using zs(1) dseg_frame [of zs h1 h] h1(3) disj by blast
  then obtain h2 where h2: "(if firstp zs None \<noteq> None then node_upd h1 (firstp zs None) (ln_prev_update (\<lambda>_. lastp None ys)) else Some h1) = Some h2"
      "dseg h2 (lastp None ys) zs None" "\<And>c. c \<notin> addrs zs \<Longrightarrow> h2 c = h1 c" "dom h2 = dom h1"
    using dseg_relink_prev [OF _ zs(2), of h1 _ "lastp None ys"] by blast
  have "dseg h2 None ys (firstp zs None)" using h1(2) dseg_frame [of ys h2 h1] h2(3) disj by blast
  then have seg: "dseg (h2(b := None)) None (ys @ zs) None" using h2(2) b by simp
  define l1 where "l1 = (if ys = [] then l\<lparr>l_head := firstp zs None\<rparr> else l)"
  define l' where "l' = (if zs = [] then l1\<lparr>l_tail := lastp None ys\<rparr> else l1)\<lparr>l_len := l_len l - 1\<rparr>"
  have "listDelNode h l (Some b) = Some (h2(b := None), l')"
    using n h1(1) h2(1)
    by (cases ys rule: rev_cases; cases zs) (simp_all add: listDelNode_def l1_def l'_def)
  moreover have "list_effect h l ?xs (h2(b := None)) l' (ys @ zs)"
  proof (rule list_effectI [OF seg])
    show "distinct (map fst (ys @ zs))" using ys(2) zs(2) disj by auto
    show "l_head l' = firstp (ys @ zs) None" using l(1) by (cases ys) (simp_all add: l1_def l'_def)
    show "l_tail l' = lastp None (ys @ zs)"
      using l(2) by (cases zs rule: rev_cases) (simp_all add: l1_def l'_def)
    show "dom (h2(b := None)) = dom h - addrs ?xs \<union> addrs (ys @ zs)"
      using h1(4) h2(4) b list_at_dom [OF at] by auto
  qed (use h1(3) h2(3) l(3) in \<open>auto simp: l1_def l'_def image_Un\<close>)
  ultimately show thesis by (rule that)
qed

lemma listRotate_at:
  assumes at: "list_at h l (ys @ [(t, w)])"
  obtains h' l' where "listRotate h l = Some (h', l')"
    "list_effect h l (ys @ [(t, w)]) h' l' ((t, w) # ys)"
proof (cases ys rule: rev_cases)
  case Nil
  have "listRotate h l = Some (h, l)" using at by (simp add: listRotate_def list_at_def Nil)
  moreover have "list_effect h l [(t, w)] h l [(t, w)]"
    using at list_at_dom [OF at] by (auto simp: list_effect_def Nil)
  ultimately show thesis by (intro that [of h l]) (simp_all add: Nil)
next
  case (snoc us y)
  have b: "t \<notin> addrs ys" and n: "h t = Some \<lparr>ln_prev = lastp None ys, ln_next = None, ln_value = w\<rparr>"
    and ys: "dseg h None ys (Some t)" "distinct (map fst ys)"
    and l: "l_head l = firstp ys (Some t)" "l_tail l = Some t" "l_len l = Suc (length ys)"
    using at by (auto simp: list_at_def)
  have ys_ne: "ys \<noteq> []" using snoc by simp
  have ne: "firstp ys m = firstp ys None" "lastp None ys \<noteq> None" "firstp ys None \<noteq> None"
      "lastp m ys = lastp None ys" for m
    using ys_ne by (auto simp: firstp_def lastp_def split: list.split)
  obtain h1 where h1: "node_upd h (lastp None ys) (ln_next_update (\<lambda>_. None)) = Some h1"
      "dseg h1 None ys None" "\<And>c. c \<notin> addrs ys \<Longrightarrow> h1 c = h c" "dom h1 = dom h"
    using dseg_relink_next [OF ys, of None] ne by auto
  obtain h2 where h2: "node_upd h1 (firstp ys None) (ln_prev_update (\<lambda>_. Some t)) = Some h2"
      "dseg h2 (Some t) ys None" "\<And>c. c \<notin> addrs ys \<Longrightarrow> h2 c = h1 c" "dom h2 = dom h1"
    using dseg_relink_prev [OF h1(2) ys(2), of "Some t"] ne by auto
  have h2t: "h2 t = h t" using h1(3) h2(3) b by simp
  define h3 where "h3 = h2(t \<mapsto> \<lparr>ln_prev = None, ln_next = firstp ys None, ln_value = w\<rparr>)"
  define l' where "l' = l\<lparr>l_tail := lastp None ys, l_head := Some t\<rparr>"
  have "listRotate h l = Some (h3, l')"
    using n h1(1) h2(1) h2t l ne snoc
    by (simp add: listRotate_def node_at_def node_upd_def [of _ "Some t"] h3_def l'_def Let_def)
  moreover have "list_effect h l (ys @ [(t, w)]) h3 l' ((t, w) # ys)"
  proof (rule list_effectI)
    show "l_tail l' = lastp None ((t, w) # ys)" using ne(4) [of "Some t"] by (simp add: l'_def)
    show "dom h3 = dom h - addrs (ys @ [(t, w)]) \<union> addrs ((t, w) # ys)"
      using h1(4) h2(4) list_at_dom [OF at] by (auto simp: h3_def)
  qed (use h2(2) h1(3) h2(3) b ys(2) l(3) ne in \<open>auto simp: h3_def l'_def\<close>)
  ultimately show thesis by (rule that)
qed

section \<open>Walking a list\<close>

lemma listRelease_loop_seg:
  assumes "dseg h p xs None" and "distinct (map fst xs)"
  shows "listRelease_loop (length xs) h (firstp xs None) = Some (h |` (- addrs xs))"
  using assms
proof (induction xs arbitrary: h p)
  case (Cons x xs)
  obtain a v where x: "x = (a, v)" by (cases x)
  have seg: "dseg (h(a := None)) (Some a) xs None" "distinct (map fst xs)" using Cons.prems x by simp_all
  have "listRelease_loop (length xs) (h(a := None)) (firstp xs None) = Some (h(a := None) |` (- addrs xs))"
    by (rule Cons.IH [OF seg])
  moreover have "h(a := None) |` (- addrs xs) = h |` (- addrs (x # xs))"
    by (auto simp: x restrict_map_def fun_eq_iff)
  ultimately show ?case using Cons.prems by (simp add: x)
qed (simp add: restrict_map_def fun_eq_iff)

lemma listRelease_at: "list_at h l xs \<Longrightarrow> listRelease h l = Some (h |` (- addrs xs))"
  using listRelease_loop_seg by (fastforce simp: list_at_def listRelease_def)

definition list_matches :: "'v adlist \<Rightarrow> 'v \<Rightarrow> 'v \<Rightarrow> bool" where
  "list_matches l key v = (case l_match l of Some match \<Rightarrow> match v key | None \<Rightarrow> key = v)"

lemma listSearchKey_loop_seg:
  assumes "dseg h p xs None"
  shows "listSearchKey_loop l h key \<lparr>li_next = firstp xs None, li_direction = AL_START_HEAD\<rparr>
    = Some (map_option fst (List.find (\<lambda>x. list_matches l key (snd x)) xs))"
  using assms
proof (induction xs arbitrary: p)
  case Nil
  show ?case by (subst listSearchKey_loop.simps) (simp add: listNext_def)
next
  case (Cons x xs)
  obtain a v where x: "x = (a, v)" by (cases x)
  show ?case
    by (subst listSearchKey_loop.simps)
       (use Cons x in \<open>auto simp: listNext_def list_matches_def split: option.split\<close>)
qed

lemma listSearchKey_at:
  "list_at h l xs \<Longrightarrow> listSearchKey h l key = Some (map_option fst (List.find (\<lambda>x. list_matches l key (snd x)) xs))"
  unfolding listSearchKey_def listRewind_def list_at_def by (metis listSearchKey_loop_seg)

lemma listIndex_loop_next:
  assumes "dseg h p xs None"
  shows "listIndex_loop ln_next h i (firstp xs None) = Some (if i < length xs then Some (fst (xs ! i)) else None)"
  using assms
proof (induction xs arbitrary: p i)
  case Nil
  show ?case by (cases i) auto
next
  case (Cons x xs)
  then show ?case by (cases x; cases i) auto
qed

lemma listIndex_loop_prev:
  assumes "dseg h None xs n"
  shows "listIndex_loop ln_prev h i (lastp None xs) = Some (if i < length xs then Some (fst (rev xs ! i)) else None)"
  using assms
proof (induction xs arbitrary: n i rule: rev_induct)
  case Nil
  show ?case by (cases i) auto
next
  case (snoc x xs)
  then show ?case by (cases x; cases i) auto
qed

text \<open>The position an index of \<open>listIndex\<close> denotes.\<close>

definition list_position :: "'a list \<Rightarrow> int \<Rightarrow> nat option" where
  "list_position xs i =
     (if 0 \<le> i \<and> i < int (length xs) then Some (nat i)
      else if i < 0 \<and> 0 \<le> int (length xs) + i then Some (nat (int (length xs) + i)) else None)"

lemma list_position_less: "list_position xs i = Some k \<Longrightarrow> k < length xs"
  by (auto simp: list_position_def split: if_splits)

lemma list_position_map [simp]: "list_position (map f xs) i = list_position xs i"
  by (simp add: list_position_def)

lemma listIndex_at:
  assumes "list_at h l xs" and "INT64_MIN < i"
  shows "listIndex h l i = Some (map_option (\<lambda>k. fst (xs ! k)) (list_position xs i))"
proof (cases "i < 0")
  case True
  have "listIndex_loop ln_prev h (nat (- i - 1)) (lastp None xs)
      = Some (if nat (- i - 1) < length xs then Some (fst (rev xs ! nat (- i - 1))) else None)"
    using assms listIndex_loop_prev by (fastforce simp: list_at_def)
  moreover have "rev xs ! nat (- i - 1) = xs ! nat (int (length xs) + i)" if "nat (- i - 1) < length xs"
  proof -
    have "length xs - Suc (nat (- i - 1)) = nat (int (length xs) + i)" using that True by linarith
    then show ?thesis using that by (simp add: rev_nth)
  qed
  ultimately show ?thesis using True assms by (auto simp: listIndex_def list_position_def list_at_def)
next
  case False
  then show ?thesis using assms listIndex_loop_next [of h None xs "nat i"]
    by (auto simp: listIndex_def list_position_def list_at_def)
qed

text \<open>The copy loop with the rest \<open>zs\<close> of the original still to copy, \<open>ys\<close> already copied.\<close>

definition list_dup1 :: "('v \<Rightarrow> 'v option) option \<Rightarrow> 'v \<Rightarrow> 'v option" where
  "list_dup1 d v = (case d of Some dup \<Rightarrow> dup v | None \<Rightarrow> Some v)"

primrec dup_all :: "('v \<Rightarrow> 'v option) option \<Rightarrow> 'v list \<Rightarrow> 'v list option" where
  "dup_all d [] = Some []"
| "dup_all d (v # vs) = do { w \<leftarrow> list_dup1 d v; ws \<leftarrow> dup_all d vs; Some (w # ws) }"

definition fresh_alloc :: "('v node_heap \<Rightarrow> addr) \<Rightarrow> bool" where
  "fresh_alloc zmalloc \<longleftrightarrow> (\<forall>h. finite (dom h) \<longrightarrow> h (zmalloc h) = None)"

lemma list_effect_outside:
  "list_effect h l xs h' l' xs' \<Longrightarrow> a \<notin> addrs xs \<Longrightarrow> a \<notin> addrs xs' \<Longrightarrow> h' a = h a"
  by (simp add: list_effect_def)

lemma listDup_loop_seg:
  assumes "fresh_alloc zmalloc" "finite (dom h)" "dseg h p zs None" "list_at h copy ys"
    "addrs zs \<subseteq> dom h0" "addrs ys \<inter> dom h0 = {}" "\<And>a. a \<notin> addrs ys \<Longrightarrow> h a = h0 a"
  shows "\<exists>h' copy' cs. listDup_loop zmalloc h copy \<lparr>li_next = firstp zs None, li_direction = AL_START_HEAD\<rparr>
      = Some (case dup_all (l_dup copy) (map snd zs) of None \<Rightarrow> (h0, None) | Some _ \<Rightarrow> (h', Some copy'))
    \<and> (\<forall>vs. dup_all (l_dup copy) (map snd zs) = Some vs \<longrightarrow>
         list_at h' copy' (ys @ cs) \<and> map snd cs = vs \<and> addrs (ys @ cs) \<inter> dom h0 = {}
         \<and> (\<forall>a. a \<notin> addrs (ys @ cs) \<longrightarrow> h' a = h0 a) \<and> l_dup copy' = l_dup copy \<and> l_match copy' = l_match copy)"
  using assms(2-)
proof (induction zs arbitrary: h p copy ys)
  case Nil
  have "listDup_loop zmalloc h copy \<lparr>li_next = firstp [] None, li_direction = AL_START_HEAD\<rparr> = Some (h, Some copy)"
    by (subst listDup_loop.simps) (simp add: listNext_def)
  then show ?case using Nil by (intro exI [of _ h] exI [of _ copy] exI [of _ "[]"]) simp
next
  case (Cons z zs)
  obtain a v where z: "z = (a, v)" by (cases z)
  let ?it = "\<lparr>li_next = firstp zs None, li_direction = AL_START_HEAD\<rparr>"
  let ?d = "l_dup copy"
  have ha: "h a = Some \<lparr>ln_prev = p, ln_next = firstp zs None, ln_value = v\<rparr>"
    using Cons.prems z by simp
  have unf: "listDup_loop zmalloc h copy \<lparr>li_next = firstp (z # zs) None, li_direction = AL_START_HEAD\<rparr>
    = (case list_dup1 ?d v of None \<Rightarrow> do { h \<leftarrow> listRelease h copy; Some (h, None) }
       | Some w \<Rightarrow> do { (h, copy) \<leftarrow> listAddNodeTail zmalloc h copy w; listDup_loop zmalloc h copy ?it })"
    by (subst listDup_loop.simps) (cases ?d; simp add: z listNext_def ha list_dup1_def)
  show ?case
  proof (cases "list_dup1 ?d v")
    case None
    have "h |` (- addrs ys) = h0"
    proof
      fix b show "(h |` (- addrs ys)) b = h0 b"
        using Cons.prems(5,6) by (cases "b \<in> addrs ys") (simp_all add: restrict_map_def disjoint_iff domIff)
    qed
    then show ?thesis using unf listRelease_at [OF Cons.prems(3)] None by (simp add: z)
  next
    case (Some w)
    have fr: "h (zmalloc h) = None" using assms(1) Cons.prems(1) by (simp add: fresh_alloc_def)
    obtain h1 c1 where t: "listAddNodeTail zmalloc h copy w = Some (h1, c1)"
      and e: "list_effect h copy ys h1 c1 (ys @ [(zmalloc h, w)])"
      using listAddNodeTail_at [where zmalloc = zmalloc, OF Cons.prems(3) fr] by blast
    have c1: "l_dup c1 = ?d" "l_match c1 = l_match copy" "list_at h1 c1 (ys @ [(zmalloc h, w)])"
      using e by (simp_all add: list_effect_def)
    have new: "zmalloc h \<notin> dom h0"
      using fr Cons.prems(6) list_at_fresh [OF Cons.prems(3) fr] by (metis domIff)
    have dom1: "finite (dom h1)"
      using e Cons.prems(1) by (simp add: list_effect_def)
    have out: "h1 b = h0 b" if "b \<notin> addrs (ys @ [(zmalloc h, w)])" for b
      using that list_effect_outside [OF e] Cons.prems(6) by auto
    have seg: "dseg h1 (Some a) zs None"
    proof -
      have "h1 b = h b" if "b \<in> addrs zs" for b
      proof -
        have "b \<in> dom h0" using that Cons.prems(4) by auto
        then have "b \<notin> addrs ys" "b \<noteq> zmalloc h" using Cons.prems(5) new by blast+
        then show ?thesis by (intro list_effect_outside [OF e]) simp_all
      qed
      then show ?thesis using Cons.prems(2) z dseg_frame [of zs h1 h] by simp
    qed
    have sub: "addrs zs \<subseteq> dom h0" "addrs (ys @ [(zmalloc h, w)]) \<inter> dom h0 = {}"
      using Cons.prems(4,5) new by auto
    obtain h' copy' cs where IH: "listDup_loop zmalloc h1 c1 ?it
      = Some (case dup_all ?d (map snd zs) of None \<Rightarrow> (h0, None) | Some _ \<Rightarrow> (h', Some copy'))"
      "\<forall>vs. dup_all ?d (map snd zs) = Some vs \<longrightarrow>
         list_at h' copy' ((ys @ [(zmalloc h, w)]) @ cs) \<and> map snd cs = vs \<and> addrs ((ys @ [(zmalloc h, w)]) @ cs) \<inter> dom h0 = {}
         \<and> (\<forall>a. a \<notin> addrs ((ys @ [(zmalloc h, w)]) @ cs) \<longrightarrow> h' a = h0 a) \<and> l_dup copy' = ?d \<and> l_match copy' = l_match copy"
      using Cons.IH [OF dom1 seg c1(3) sub out] c1(1,2) by auto
    show ?thesis
      by (rule exI [of _ h'], rule exI [of _ copy'], rule exI [of _ "(zmalloc h, w) # cs"])
         (use unf t Some IH z in \<open>auto split: option.split\<close>)
  qed
qed

lemma listDup_at:
  assumes "fresh_alloc zmalloc" and fin: "finite (dom h)" and at: "list_at h l xs"
  shows "\<exists>h' copy cs. listDup zmalloc h l
      = Some (case dup_all (l_dup l) (map snd xs) of None \<Rightarrow> (h, None) | Some _ \<Rightarrow> (h', Some copy))
    \<and> (\<forall>vs. dup_all (l_dup l) (map snd xs) = Some vs \<longrightarrow>
         list_at h' copy cs \<and> map snd cs = vs \<and> addrs cs \<inter> dom h = {} \<and> (\<forall>a. a \<notin> addrs cs \<longrightarrow> h' a = h a)
         \<and> l_dup copy = l_dup l \<and> l_match copy = l_match l)"
proof -
  let ?c = "listCreate\<lparr>l_dup := l_dup l, l_match := l_match l\<rparr>"
  have c: "list_at h ?c []" by (simp add: list_at_def listCreate_def)
  have x: "dseg h None xs None" "l_head l = firstp xs None" using at by (simp_all add: list_at_def)
  show ?thesis
    using listDup_loop_seg [OF assms(1) fin x(1) c list_at_dom [OF at]] x(2)
    by (simp add: listDup_def listRewind_def)
qed

section \<open>Iterators\<close>

text \<open>The values \<open>while ((node = listNext(iter)) != NULL)\<close> visits.\<close>

partial_function (option) list_visit :: "'v node_heap \<Rightarrow> listIter \<Rightarrow> 'v list option" where
  "list_visit h iter = do {
     (iter, node) \<leftarrow> listNext h iter;
     case node of
       None \<Rightarrow> Some []
     | Some a \<Rightarrow> do { n \<leftarrow> h a; vs \<leftarrow> list_visit h iter; Some (ln_value n # vs) }
   }"

lemma list_visit_head:
  assumes "dseg h p xs None"
  shows "list_visit h \<lparr>li_next = firstp xs None, li_direction = AL_START_HEAD\<rparr> = Some (map snd xs)"
  using assms
proof (induction xs arbitrary: p)
  case Nil
  show ?case by (subst list_visit.simps) (simp add: listNext_def)
next
  case (Cons x xs)
  obtain a v where x: "x = (a, v)" by (cases x)
  show ?case using Cons.prems Cons.IH [of "Some a"]
    by (subst list_visit.simps) (simp add: x listNext_def)
qed

lemma list_visit_tail:
  assumes "dseg h None xs n"
  shows "list_visit h \<lparr>li_next = lastp None xs, li_direction = AL_START_TAIL\<rparr> = Some (rev (map snd xs))"
  using assms
proof (induction xs arbitrary: n rule: rev_induct)
  case Nil
  show ?case by (subst list_visit.simps) (simp add: listNext_def)
next
  case (snoc x xs)
  obtain a v where x: "x = (a, v)" by (cases x)
  show ?case using snoc.prems snoc.IH [of "Some a"]
    by (subst list_visit.simps) (simp add: x listNext_def)
qed

lemma list_visit_at:
  assumes "list_at h l xs"
  shows "list_visit h (listGetIterator l AL_START_HEAD) = Some (map snd xs)"
    and "list_visit h (listGetIterator l AL_START_TAIL) = Some (rev (map snd xs))"
    and "list_visit h (listRewind l) = Some (map snd xs)"
    and "list_visit h (listRewindTail l) = Some (rev (map snd xs))"
  using assms list_visit_head [of h None xs] list_visit_tail [of h xs None]
  by (auto simp: list_at_def listGetIterator_def listRewind_def listRewindTail_def)

section \<open>Histories\<close>

text \<open>
  A client that keeps positions as indices: it looks the node up with \<open>listIndex\<close> and
  inserts, deletes or reads there. The abstract list does the same to a list of values.
\<close>

datatype 'v list_event =
  AddHead 'v | AddTail 'v | InsertAt int 'v bool | DelAt int | GetAt int | SearchFor 'v | RotateTail

fun list_event_ok :: "'v list_event \<Rightarrow> bool" where
  "list_event_ok (InsertAt i _ _) \<longleftrightarrow> INT64_MIN < i"
| "list_event_ok (DelAt i) \<longleftrightarrow> INT64_MIN < i"
| "list_event_ok (GetAt i) \<longleftrightarrow> INT64_MIN < i"
| "list_event_ok _ \<longleftrightarrow> True"

fun list_event_run :: "('v node_heap \<Rightarrow> addr) \<Rightarrow> 'v list_event \<Rightarrow> 'v node_heap \<Rightarrow> 'v adlist \<Rightarrow>
    (('v node_heap \<times> 'v adlist) \<times> 'v option) option" where
  "list_event_run zm (AddHead v) h l = map_option (\<lambda>s. (s, None)) (listAddNodeHead zm h l v)"
| "list_event_run zm (AddTail v) h l = map_option (\<lambda>s. (s, None)) (listAddNodeTail zm h l v)"
| "list_event_run zm (InsertAt i v after) h l = do {
     node \<leftarrow> listIndex h l i;
     if node = None then Some ((h, l), None)
     else map_option (\<lambda>s. (s, None)) (listInsertNode zm h l node v after) }"
| "list_event_run zm (DelAt i) h l = do {
     node \<leftarrow> listIndex h l i;
     if node = None then Some ((h, l), None) else map_option (\<lambda>s. (s, None)) (listDelNode h l node) }"
| "list_event_run zm (GetAt i) h l = do {
     node \<leftarrow> listIndex h l i;
     if node = None then Some ((h, l), None) else do { n \<leftarrow> node_at h node; Some ((h, l), Some (ln_value n)) } }"
| "list_event_run zm (SearchFor v) h l = do {
     node \<leftarrow> listSearchKey h l v;
     if node = None then Some ((h, l), None) else do { n \<leftarrow> node_at h node; Some ((h, l), Some (ln_value n)) } }"
| "list_event_run zm RotateTail h l = map_option (\<lambda>s. (s, None)) (listRotate h l)"

fun list_history :: "('v node_heap \<Rightarrow> addr) \<Rightarrow> 'v list_event list \<Rightarrow> 'v node_heap \<Rightarrow> 'v adlist \<Rightarrow>
    (('v node_heap \<times> 'v adlist) \<times> 'v option list) option" where
  "list_history zm [] h l = Some ((h, l), [])"
| "list_history zm (e # es) h l = do {
     ((h, l), r) \<leftarrow> list_event_run zm e h l;
     (s, rs) \<leftarrow> list_history zm es h l;
     Some (s, r # rs) }"

fun list_event_spec :: "('v \<Rightarrow> 'v \<Rightarrow> bool) \<Rightarrow> 'v list_event \<Rightarrow> 'v list \<Rightarrow> 'v list \<times> 'v option" where
  "list_event_spec eq (AddHead v) vs = (v # vs, None)"
| "list_event_spec eq (AddTail v) vs = (vs @ [v], None)"
| "list_event_spec eq (InsertAt i v after) vs =
     (case list_position vs i of None \<Rightarrow> (vs, None)
      | Some k \<Rightarrow> (if after then take (Suc k) vs @ v # drop (Suc k) vs else take k vs @ v # drop k vs, None))"
| "list_event_spec eq (DelAt i) vs =
     (case list_position vs i of None \<Rightarrow> (vs, None) | Some k \<Rightarrow> (take k vs @ drop (Suc k) vs, None))"
| "list_event_spec eq (GetAt i) vs = (vs, map_option (nth vs) (list_position vs i))"
| "list_event_spec eq (SearchFor v) vs = (vs, List.find (eq v) vs)"
| "list_event_spec eq RotateTail vs = (if vs = [] then [] else last vs # butlast vs, None)"

fun list_history_spec :: "('v \<Rightarrow> 'v \<Rightarrow> bool) \<Rightarrow> 'v list_event list \<Rightarrow> 'v list \<Rightarrow> 'v list \<times> 'v option list" where
  "list_history_spec eq [] vs = (vs, [])"
| "list_history_spec eq (e # es) vs =
     (let (vs, r) = list_event_spec eq e vs; (vs, rs) = list_history_spec eq es vs in (vs, r # rs))"

text \<open>One event turns the nodes \<open>xs\<close> into nodes \<open>xs'\<close> whose values the specification gives.\<close>

definition list_step ::
  "('v node_heap \<Rightarrow> addr) \<Rightarrow> 'v list_event \<Rightarrow> 'v node_heap \<Rightarrow> 'v adlist \<Rightarrow> (addr \<times> 'v) list \<Rightarrow> bool" where
  "list_step zm e h l xs \<longleftrightarrow> (\<exists>h' l' xs' r. list_event_run zm e h l = Some ((h', l'), r)
     \<and> list_effect h l xs h' l' xs' \<and> (\<forall>a \<in> addrs xs'. a \<in> addrs xs \<or> h a = None)
     \<and> list_event_spec (list_matches l) e (map snd xs) = (map snd xs', r))"

lemma list_stepI:
  assumes "list_event_run zm e h l = Some ((h', l'), r)" "list_effect h l xs h' l' xs'"
    "\<forall>a \<in> addrs xs'. a \<in> addrs xs \<or> h a = None"
    "list_event_spec (list_matches l) e (map snd xs) = (map snd xs', r)"
  shows "list_step zm e h l xs"
  using assms unfolding list_step_def by blast

lemma list_effect_refl: "list_at h l xs \<Longrightarrow> list_effect h l xs h l xs"
  using list_at_dom by (fastforce simp: list_effect_def)

lemma list_at_node:
  assumes "list_at h l xs" "k < length xs"
  shows "\<exists>p n. h (fst (xs ! k)) = Some \<lparr>ln_prev = p, ln_next = n, ln_value = snd (xs ! k)\<rparr>"
proof -
  obtain a v where x: "xs ! k = (a, v)" by (cases "xs ! k")
  have "xs = take k xs @ (a, v) # drop (Suc k) xs" using id_take_nth_drop [OF assms(2)] x by simp
  then have "dseg h None (take k xs @ (a, v) # drop (Suc k) xs) None" using assms(1) by (simp add: list_at_def)
  then show ?thesis using x by simp
qed

lemma list_step_read:
  assumes at: "list_at h l xs" and "i = map_option (\<lambda>k. fst (xs ! k)) p" "\<forall>k. p = Some k \<longrightarrow> k < length xs"
    and "list_event_run zm e h l = (if i = None then Some ((h, l), None)
      else do { n \<leftarrow> node_at h i; Some ((h, l), Some (ln_value n)) })"
    and "list_event_spec (list_matches l) e (map snd xs) = (map snd xs, map_option (\<lambda>k. snd (xs ! k)) p)"
  shows "list_step zm e h l xs"
proof (rule list_stepI [OF _ list_effect_refl [OF at]])
  show "list_event_run zm e h l = Some ((h, l), map_option (\<lambda>k. snd (xs ! k)) p)"
  proof (cases p)
    case (Some k)
    then obtain q n where "h (fst (xs ! k)) = Some \<lparr>ln_prev = q, ln_next = n, ln_value = snd (xs ! k)\<rparr>"
      using list_at_node [OF at] assms(3) by blast
    then show ?thesis using assms(2,4) Some by (simp add: node_at_def)
  qed (use assms(2,4) in simp)
qed (use assms(5) in auto)

lemma find_nth: "List.find P xs = map_option (nth xs) (List.find (\<lambda>k. P (xs ! k)) [0..<length xs])"
proof (induction xs)
  case (Cons x xs)
  have "[0..<length (x # xs)] = 0 # map Suc [0..<length xs]" by (simp add: upt_conv_Cons map_Suc_upt del: upt_Suc)
  moreover have "List.find (\<lambda>k. P ((x # xs) ! k)) (map Suc ks) = map_option Suc (List.find (\<lambda>k. P (xs ! k)) ks)" for ks
    by (induction ks) auto
  ultimately show ?case using Cons by (simp add: option.map_comp comp_def)
qed simp

lemma find_map_snd: "List.find P (map snd xs) = map_option snd (List.find (\<lambda>x. P (snd x)) xs)"
  by (induction xs) auto

lemma list_event_step:
  assumes "fresh_alloc zm" "finite (dom h)" and at: "list_at h l xs" and "list_event_ok e"
  shows "list_step zm e h l xs"
proof -
  have fr: "h (zm h) = None" using assms by (simp add: fresh_alloc_def)
  have split: "\<exists>ys b w zs. xs = ys @ (b, w) # zs \<and> length ys = k" if "list_position xs i = Some k" for i k
    using id_take_nth_drop [OF list_position_less [OF that]] list_position_less [OF that]
    by (intro exI [of _ "take k xs"] exI [of _ "fst (xs ! k)"] exI [of _ "snd (xs ! k)"] exI [of _ "drop (Suc k) xs"]) simp
  show ?thesis
  proof (cases e)
    case (AddHead v)
    obtain h' l' where run: "listAddNodeHead zm h l v = Some (h', l')" and eff: "list_effect h l xs h' l' ((zm h, v) # xs)"
      using listAddNodeHead_at [where zmalloc = zm, OF at fr] by blast
    show ?thesis by (rule list_stepI [OF _ eff]) (use run fr AddHead in simp_all)
  next
    case (AddTail v)
    obtain h' l' where run: "listAddNodeTail zm h l v = Some (h', l')" and eff: "list_effect h l xs h' l' (xs @ [(zm h, v)])"
      using listAddNodeTail_at [where zmalloc = zm, OF at fr] by blast
    show ?thesis by (rule list_stepI [OF _ eff]) (use run fr AddTail in simp_all)
  next
    case (InsertAt i v after)
    have idx: "listIndex h l i = Some (map_option (\<lambda>k. fst (xs ! k)) (list_position xs i))"
      using listIndex_at [OF at] assms(4) InsertAt by simp
    show ?thesis
    proof (cases "list_position xs i")
      case None
      then show ?thesis using idx InsertAt by (intro list_stepI [OF _ list_effect_refl [OF at]]) auto
    next
      case (Some k)
      then obtain ys b w zs where xs: "xs = ys @ (b, w) # zs" "length ys = k" using split by blast
      have pos: "list_position (map snd ys @ w # map snd zs) i = Some k"
        using Some list_position_map [of snd xs i] by (simp add: xs(1))
      let ?xs' = "if after then ys @ (b, w) # (zm h, v) # zs else ys @ (zm h, v) # (b, w) # zs"
      obtain h' l' where run: "listInsertNode zm h l (Some b) v after = Some (h', l')"
        and eff: "list_effect h l xs h' l' ?xs'"
        using listInsertNode_at [where zmalloc = zm, OF at [unfolded xs(1)] fr] unfolding xs(1) by metis
      have "addrs ?xs' = insert (zm h) (addrs xs)" by (auto simp: xs(1))
      then show ?thesis
        by (intro list_stepI [OF _ eff]) (use idx run fr InsertAt Some pos xs in \<open>auto simp: nth_append\<close>)
    qed
  next
    case (DelAt i)
    have idx: "listIndex h l i = Some (map_option (\<lambda>k. fst (xs ! k)) (list_position xs i))"
      using listIndex_at [OF at] assms(4) DelAt by simp
    show ?thesis
    proof (cases "list_position xs i")
      case None
      then show ?thesis using idx DelAt by (intro list_stepI [OF _ list_effect_refl [OF at]]) auto
    next
      case (Some k)
      then obtain ys b w zs where xs: "xs = ys @ (b, w) # zs" "length ys = k" using split by blast
      have pos: "list_position (map snd ys @ w # map snd zs) i = Some k"
        using Some list_position_map [of snd xs i] by (simp add: xs(1))
      obtain h' l' where run: "listDelNode h l (Some b) = Some (h', l')"
        and eff: "list_effect h l xs h' l' (ys @ zs)"
        using listDelNode_at [OF at [unfolded xs(1)]] unfolding xs(1) by metis
      have "addrs (ys @ zs) \<subseteq> addrs xs" by (auto simp: xs(1))
      then show ?thesis
        by (intro list_stepI [OF _ eff]) (use idx run DelAt Some pos xs in \<open>auto simp: nth_append\<close>)
    qed
  next
    case (GetAt i)
    have "listIndex h l i = Some (map_option (\<lambda>k. fst (xs ! k)) (list_position xs i))"
      using listIndex_at [OF at] assms(4) GetAt by simp
    moreover have "map_option (nth (map snd xs)) (list_position xs i) = map_option (\<lambda>k. snd (xs ! k)) (list_position xs i)"
      by (cases "list_position xs i") (auto dest: list_position_less)
    moreover have "\<forall>k. list_position xs i = Some k \<longrightarrow> k < length xs" using list_position_less by blast
    ultimately show ?thesis
      by (intro list_step_read [OF at refl, of "list_position xs i"]) (use GetAt in simp_all)
  next
    case (SearchFor v)
    let ?f = "List.find (\<lambda>k. list_matches l v (snd (xs ! k))) [0..<length xs]"
    have "listSearchKey h l v = Some (map_option (\<lambda>k. fst (xs ! k)) ?f)"
      using listSearchKey_at [OF at, of v] find_nth [of "\<lambda>x. list_matches l v (snd x)" xs]
      by (simp add: option.map_comp comp_def)
    moreover have "List.find (list_matches l v) (map snd xs) = map_option (\<lambda>k. snd (xs ! k)) ?f"
      using find_nth [of "\<lambda>x. list_matches l v (snd x)" xs] by (simp add: find_map_snd option.map_comp comp_def)
    moreover have "k < length xs" if "?f = Some k" for k
      using that by (auto simp: find_Some_iff)
    ultimately show ?thesis
      by (intro list_step_read [OF at refl, of ?f]) (use SearchFor in auto)
  next
    case RotateTail
    show ?thesis
    proof (cases xs rule: rev_cases)
      case Nil
      then have "listRotate h l = Some (h, l)" using at by (simp add: listRotate_def list_at_def)
      then show ?thesis
        using RotateTail Nil by (intro list_stepI [OF _ list_effect_refl [OF at]]) auto
    next
      case (snoc ys y)
      obtain t w where y: "y = (t, w)" by (cases y)
      obtain h' l' where run: "listRotate h l = Some (h', l')"
        and eff: "list_effect h l xs h' l' ((t, w) # ys)"
        using listRotate_at [OF at [unfolded snoc y]] unfolding snoc y by metis
      show ?thesis by (rule list_stepI [OF _ eff]) (use run RotateTail snoc y in simp_all)
    qed
  qed
qed

text \<open>
  The invariant of a history that started on the heap \<open>h0\<close>: the nodes of the list are the
  only cells in use besides those of \<open>h0\<close>, which are as they were.
\<close>

definition list_owned :: "'v node_heap \<Rightarrow> 'v node_heap \<Rightarrow> 'v adlist \<Rightarrow> (addr \<times> 'v) list \<Rightarrow> bool" where
  "list_owned h0 h l xs \<longleftrightarrow> list_at h l xs \<and> addrs xs \<inter> dom h0 = {}
     \<and> dom h = dom h0 \<union> addrs xs \<and> (\<forall>a \<in> dom h0. h a = h0 a)"

lemma list_owned_step:
  assumes "list_owned h0 h l xs" "list_effect h l xs h' l' xs'" "\<forall>a \<in> addrs xs'. a \<in> addrs xs \<or> h a = None"
  shows "list_owned h0 h' l' xs'"
proof -
  note own = assms(1) [unfolded list_owned_def] and eff = assms(2) [unfolded list_effect_def]
  have "a \<notin> addrs xs'" if "a \<in> dom h0" for a
    using that own assms(3) by (metis Un_iff disjoint_iff domIff)
  then have *: "addrs xs' \<inter> dom h0 = {}" by blast
  moreover have "dom h' = dom h0 \<union> addrs xs'"
  proof -
    have "dom h = dom h0 \<union> addrs xs" "addrs xs \<inter> dom h0 = {}" "dom h' = dom h - addrs xs \<union> addrs xs'"
      using own eff by simp_all
    then show ?thesis by (simp add: Un_Diff Diff_triv Int_commute)
  qed
  moreover have "h' a = h0 a" if "a \<in> dom h0" for a
    using that own eff * by (metis disjoint_iff)
  ultimately show ?thesis using eff by (simp add: list_owned_def)
qed

lemma list_history_refines:
  assumes "fresh_alloc zm" "finite (dom h0)" "\<forall>e \<in> set es. list_event_ok e" "list_owned h0 h l xs"
  shows "\<exists>h' l' xs' rs. list_history zm es h l = Some ((h', l'), rs) \<and> list_owned h0 h' l' xs'
    \<and> list_history_spec (list_matches l) es (map snd xs) = (map snd xs', rs)
    \<and> l_match l' = l_match l \<and> l_dup l' = l_dup l"
  using assms(3,4)
proof (induction es arbitrary: h l xs)
  case (Cons e es)
  have fin: "finite (dom h)" using Cons.prems(2) assms(2) by (simp add: list_owned_def)
  have at: "list_at h l xs" using Cons.prems(2) by (simp add: list_owned_def)
  obtain h1 l1 xs1 r where run: "list_event_run zm e h l = Some ((h1, l1), r)"
    and eff: "list_effect h l xs h1 l1 xs1" "\<forall>a \<in> addrs xs1. a \<in> addrs xs \<or> h a = None"
    and spec: "list_event_spec (list_matches l) e (map snd xs) = (map snd xs1, r)"
    using list_event_step [OF assms(1) fin at, of e] Cons.prems(1) unfolding list_step_def by auto
  have l1: "l_match l1 = l_match l" "l_dup l1 = l_dup l" using eff(1) by (simp_all add: list_effect_def)
  then have m: "list_matches l1 = list_matches l" by (simp add: list_matches_def fun_eq_iff)
  obtain h' l' xs' rs where "list_history zm es h1 l1 = Some ((h', l'), rs)" "list_owned h0 h' l' xs'"
    "list_history_spec (list_matches l) es (map snd xs1) = (map snd xs', rs)"
    "l_match l' = l_match l" "l_dup l' = l_dup l"
    using Cons.IH [OF _ list_owned_step [OF Cons.prems(2) eff]] Cons.prems(1) m l1 by auto
  then show ?case using run spec by auto
qed auto

text \<open>
  C17. Linked lists refine mathematical lists. Take any heap, any allocator that returns
  unused addresses and any history of insertions at both ends, insertions before and
  after a position, deletions, rotations, lookups by index and searches on a new list.
  The history never touches a freed or NULL node, gives the answers of the same
  operations on a list of values, and ends in a doubly linked list of exactly those
  values: iterators visit them in order, from the head and from the tail. No cell of the
  initial heap changes, no node leaks, and releasing the list restores the initial heap.
\<close>

theorem adlist_refines_list:
  assumes "fresh_alloc zm" "finite (dom h0)" "\<forall>e \<in> set es. list_event_ok e"
  shows "\<exists>h l rs vs. list_history zm es h0 (listCreate\<lparr>l_match := m\<rparr>) = Some ((h, l), rs)
    \<and> list_history_spec (list_matches (listCreate\<lparr>l_match := m\<rparr>)) es [] = (vs, rs)
    \<and> l_len l = length vs \<and> card (dom h - dom h0) = length vs \<and> (\<forall>a \<in> dom h0. h a = h0 a)
    \<and> list_visit h (listGetIterator l AL_START_HEAD) = Some vs
    \<and> list_visit h (listGetIterator l AL_START_TAIL) = Some (rev vs)
    \<and> listRelease h l = Some h0"
proof -
  have "list_owned h0 h0 (listCreate\<lparr>l_match := m\<rparr>) []"
    by (simp add: list_owned_def list_at_def listCreate_def)
  from list_history_refines [OF assms this] obtain h l xs rs where
    h: "list_history zm es h0 (listCreate\<lparr>l_match := m\<rparr>) = Some ((h, l), rs)" and own: "list_owned h0 h l xs"
    and spec: "list_history_spec (list_matches (listCreate\<lparr>l_match := m\<rparr>)) es [] = (map snd xs, rs)" by auto
  have at: "list_at h l xs" and dom: "dom h - dom h0 = addrs xs" "\<forall>a \<in> dom h0. h a = h0 a"
    using own by (auto simp: list_owned_def)
  have "card (addrs xs) = length xs" using at distinct_card [of "map fst xs"] by (simp add: list_at_def)
  moreover have "h |` (- addrs xs) = h0"
  proof
    fix a show "(h |` (- addrs xs)) a = h0 a"
      using own by (cases "a \<in> dom h0") (auto simp: list_owned_def restrict_map_def domIff)
  qed
  ultimately show ?thesis
    using h spec dom list_visit_at(1,2) [OF at] listRelease_at [OF at] at
    by (intro exI [of _ h] exI [of _ l] exI [of _ rs] exI [of _ "map snd xs"]) (simp add: list_at_def)
qed

lemma fresh_alloc_Least: "fresh_alloc (\<lambda>h. LEAST a. h a = None)"
  unfolding fresh_alloc_def
proof (intro allI impI)
  fix h :: "'v node_heap" assume "finite (dom h)"
  then obtain a where "h a = None" using ex_new_if_finite [OF infinite_UNIV_nat] by (metis domIff)
  then show "h (LEAST a. h a = None) = None" by (rule LeastI)
qed

theorem adlist_refines_list_witness:
  "\<exists>h l. list_history (\<lambda>h. LEAST a. h a = None)
      [AddTail 5, AddTail 7, InsertAt 0 6 True, DelAt (- 1), RotateTail, GetAt 0, SearchFor 5]
      Map.empty (listCreate\<lparr>l_match := None\<rparr>)
    = Some ((h, l), [None, None, None, None, None, Some (6 :: nat), Some 5])
    \<and> l_len l = 2 \<and> list_visit h (listGetIterator l AL_START_TAIL) = Some [5, 6]
    \<and> listRelease h l = Some Map.empty"
  using adlist_refines_list [OF fresh_alloc_Least, of Map.empty
      "[AddTail 5, AddTail 7, InsertAt 0 6 True, DelAt (- 1), RotateTail, GetAt 0, SearchFor (5 :: nat)]" None]
  by (auto simp: list_position_def list_matches_def listCreate_def numeral_2_eq_2)

end
