(* ===== verification/Backlog.thy ===== *)
theory Backlog
  imports Prelude
begin

text \<open>
  The replication backlog of \<open>replication.c\<close>: a circular buffer with the newest bytes of the
  replication stream, from which a replica that reconnects is sent what it missed. The
  sizes and the index are natural numbers, the replication offsets integers; a stream of
  \<open>2^63\<close> bytes is out of reach and overflow of the offsets is not modelled. \<open>junk\<close> is the
  content of fresh memory. A failed assertion, an access outside the buffer and a loop that
  makes no progress are \<open>None\<close>.
\<close>

section \<open>State and operations\<close>

record backlog =
  repl_backlog :: "byte list option"
  repl_backlog_size :: nat
  repl_backlog_histlen :: nat
  repl_backlog_idx :: nat
  repl_backlog_off :: int
  master_repl_offset :: int

definition CONFIG_REPL_BACKLOG_MIN_SIZE :: int where
  "CONFIG_REPL_BACKLOG_MIN_SIZE = 1024 * 16"

definition createReplicationBacklog :: "(nat \<Rightarrow> byte) \<Rightarrow> backlog \<Rightarrow> backlog option" where
  "createReplicationBacklog junk s =
     (if repl_backlog s \<noteq> None then None
      else let off = master_repl_offset s + 1
           in Some (s\<lparr>repl_backlog := Some (map junk [0..<repl_backlog_size s]), repl_backlog_histlen := 0,
                repl_backlog_idx := 0, master_repl_offset := off, repl_backlog_off := off + 1\<rparr>))"

definition resizeReplicationBacklog :: "(nat \<Rightarrow> byte) \<Rightarrow> int \<Rightarrow> backlog \<Rightarrow> backlog" where
  "resizeReplicationBacklog junk newsize s = (
     let newsize = (if newsize < CONFIG_REPL_BACKLOG_MIN_SIZE then CONFIG_REPL_BACKLOG_MIN_SIZE else newsize)
     in if int (repl_backlog_size s) = newsize then s
        else let s = s\<lparr>repl_backlog_size := nat newsize\<rparr>
             in if repl_backlog s \<noteq> None then
                  s\<lparr>repl_backlog := Some (map junk [0..<repl_backlog_size s]), repl_backlog_histlen := 0,
                    repl_backlog_idx := 0, repl_backlog_off := master_repl_offset s + 1\<rparr>
                else s)"

definition freeReplicationBacklog :: "nat \<Rightarrow> backlog \<Rightarrow> backlog option" where
  "freeReplicationBacklog slaves s = (if slaves \<noteq> 0 then None else Some (s\<lparr>repl_backlog := None\<rparr>))"

function feed_loop :: "nat \<Rightarrow> byte list \<Rightarrow> nat \<Rightarrow> nat \<Rightarrow> byte list \<Rightarrow> (byte list \<times> nat \<times> nat) option" where
  "feed_loop bsize buf idx histlen p =
     (if p = [] then Some (buf, idx, histlen)
      else if bsize \<le> idx then None
      else let thislen = (if bsize - idx > length p then length p else bsize - idx)
           in case mem_write buf idx (take thislen p) of
                None \<Rightarrow> None
              | Some buf \<Rightarrow>
                  feed_loop bsize buf (if idx + thislen = bsize then 0 else idx + thislen) (histlen + thislen) (drop thislen p))"
  by auto
termination by (relation "measure (\<lambda>(bsize, buf, idx, histlen, p). length p)") (auto simp: not_le)

declare feed_loop.simps [simp del]

definition feedReplicationBacklog :: "byte list \<Rightarrow> backlog \<Rightarrow> backlog option" where
  "feedReplicationBacklog p s = do {
     let s = s\<lparr>master_repl_offset := master_repl_offset s + int (length p)\<rparr>;
     buf \<leftarrow> repl_backlog s;
     (buf, idx, histlen) \<leftarrow> feed_loop (repl_backlog_size s) buf (repl_backlog_idx s) (repl_backlog_histlen s) p;
     let histlen = (if histlen > repl_backlog_size s then repl_backlog_size s else histlen);
     Some (s\<lparr>repl_backlog := Some buf, repl_backlog_idx := idx, repl_backlog_histlen := histlen,
       repl_backlog_off := master_repl_offset s - int histlen + 1\<rparr>) }"

text \<open>The remainder of C, with the sign of the dividend.\<close>

definition c_rem :: "int \<Rightarrow> int \<Rightarrow> int" where
  "c_rem a b = sgn a * (\<bar>a\<bar> mod \<bar>b\<bar>)"

function reply_loop :: "int \<Rightarrow> byte list \<Rightarrow> int \<Rightarrow> int \<Rightarrow> byte list option" where
  "reply_loop bsize buf j len =
     (if len = 0 then Some []
      else if len < 0 \<or> j < 0 \<or> bsize \<le> j then None
      else let thislen = (if bsize - j < len then bsize - j else len)
           in case mem_read buf (nat j) (nat thislen) of
                None \<Rightarrow> None
              | Some out \<Rightarrow> map_option ((@) out) (reply_loop bsize buf 0 (len - thislen)))"
  by auto
termination by (relation "measure (\<lambda>(bsize, buf, j, len). nat len)") auto

declare reply_loop.simps [simp del]

definition addReplyReplicationBacklog :: "int \<Rightarrow> backlog \<Rightarrow> (byte list \<times> int) option" where
  "addReplyReplicationBacklog offset s =
     (if repl_backlog_histlen s = 0 then Some ([], 0)
      else do {
        buf \<leftarrow> repl_backlog s;
        let bsize = int (repl_backlog_size s);
        let skip = offset - repl_backlog_off s;
        let j = c_rem (int (repl_backlog_idx s) + (bsize - int (repl_backlog_histlen s))) bsize;
        let j = c_rem (j + skip) bsize;
        let len = int (repl_backlog_histlen s) - skip;
        out \<leftarrow> reply_loop bsize buf j len;
        Some (out, len)
      })"

section \<open>The buffer holds the newest bytes\<close>

definition ring :: "nat \<Rightarrow> byte list \<Rightarrow> byte list \<Rightarrow> bool" where
  "ring n buf st \<longleftrightarrow> length buf = n \<and> (\<forall>i < length st. length st \<le> i + n \<longrightarrow> buf ! (i mod n) = st ! i)"

lemma mod_offset:
  fixes t n k :: nat
  assumes "t mod n + k < n"
  shows "(t + k) mod n = t mod n + k"
proof -
  have "(t + k) mod n = (t mod n + k) mod n" by (simp add: mod_add_left_eq)
  then show ?thesis using assms by simp
qed

lemma mod_wrap:
  fixes t n k :: nat
  assumes "0 < n" "k \<le> n - t mod n"
  shows "(t + k) mod n = (if t mod n + k = n then 0 else t mod n + k)"
proof -
  have "(t + k) mod n = (t mod n + k) mod n" by (simp add: mod_add_left_eq)
  moreover have "t mod n + k \<le> n" using assms mod_less_divisor [of n t] by linarith
  ultimately show ?thesis by auto
qed

lemma mod_outside:
  fixes i t n k :: nat
  assumes "i < t" "t + k \<le> i + n" "0 < n" "t mod n + k \<le> n"
  shows "i mod n < t mod n \<or> t mod n + k \<le> i mod n"
proof (rule ccontr)
  assume "\<not> ?thesis"
  then obtain j where j: "i mod n = t mod n + j" "j < k" by (metis le_Suc_ex nat_add_left_cancel_less not_le)
  then have "i mod n = (t + j) mod n" using assms(4) by (simp add: mod_offset)
  then have "n dvd (t + j) - i"
    using assms(1) by (metis dvd_minus_mod mod_eq_dvd_iff_nat le_add1 less_imp_le order_trans)
  moreover have "0 < t + j - i" "t + j - i < n" using assms(1,2) j(2) by linarith+
  ultimately show False using nat_dvd_not_less by blast
qed

lemma ring_write:
  assumes ring: "ring n buf st" and n: "0 < n" and c: "length c \<le> n - length st mod n"
  shows "\<exists>buf'. mem_write buf (length st mod n) c = Some buf' \<and> ring n buf' (st @ c)"
proof -
  let ?o = "length st mod n"
  have fit: "?o + length c \<le> n" using c mod_less_divisor [OF n, of "length st"] by linarith
  have len: "length buf = n" using ring by (simp add: ring_def)
  define buf' where "buf' = take ?o buf @ c @ drop (?o + length c) buf"
  have "buf' ! (i mod n) = (st @ c) ! i" if i: "i < length (st @ c)" "length (st @ c) \<le> i + n" for i
  proof (cases "i < length st")
    case True
    have "i mod n < ?o \<or> ?o + length c \<le> i mod n"
      by (rule mod_outside) (use True i fit n in auto)
    moreover have "buf ! (i mod n) = st ! i" using ring True i by (simp add: ring_def)
    moreover have "i mod n < n" using n by simp
    ultimately show ?thesis
      using True fit len by (auto simp: buf'_def nth_append)
  next
    case False
    then obtain j where j: "i = length st + j" "j < length c" using i(1) by (metis le_Suc_ex length_append nat_add_left_cancel_less not_le)
    have "i mod n = ?o + j" unfolding j(1) by (rule mod_offset) (use j(2) fit in linarith)
    then show ?thesis using j fit len by (simp add: buf'_def nth_append)
  qed
  moreover have "mem_write buf ?o c = Some buf'"
    using fit len by (simp add: mem_write_def buf'_def)
  moreover have "length buf' = n" using fit len by (simp add: buf'_def)
  ultimately show ?thesis by (auto simp: ring_def)
qed

lemma feed_loop_ring:
  assumes "0 < n"
  shows "ring n buf st \<Longrightarrow> \<exists>buf'. feed_loop n buf (length st mod n) h p =
      Some (buf', length (st @ p) mod n, h + length p) \<and> ring n buf' (st @ p)"
proof (induction "length p" arbitrary: buf st h p rule: less_induct)
  case less
  show ?case
  proof (cases "p = []")
    case True
    then show ?thesis using less.prems by (simp add: feed_loop.simps)
  next
    case False
    let ?o = "length st mod n"
    define k where "k = (if n - ?o > length p then length p else n - ?o)"
    have o: "?o < n" using assms by simp
    then have k: "0 < k" "k \<le> length p" "k \<le> n - ?o" using False by (auto simp: k_def)
    have "length (take k p) \<le> n - ?o" using k by simp
    from ring_write [OF less.prems assms this] obtain buf1 where
      w: "mem_write buf ?o (take k p) = Some buf1" "ring n buf1 (st @ take k p)" by blast
    have idx: "(if ?o + k = n then 0 else ?o + k) = length (st @ take k p) mod n"
      using mod_wrap [OF assms k(3)] k(2) by simp
    have "length (drop k p) < length p" using k False by simp
    from less.hyps [OF this w(2), of "h + k"] obtain buf2 where
      r: "feed_loop n buf1 (length (st @ take k p) mod n) (h + k) (drop k p) =
          Some (buf2, length (st @ p) mod n, h + k + length (drop k p))" "ring n buf2 (st @ p)"
      by (auto simp: append_assoc)
    have "feed_loop n buf ?o h p = Some (buf2, length (st @ p) mod n, h + k + length (drop k p))"
      using False o by (subst feed_loop.simps) (simp only: k_def [symmetric] Let_def w(1) option.case idx r(1) if_False simp_thms, simp)
    then show ?thesis using r(2) k(2) by auto
  qed
qed

lemma ring_read:
  assumes "ring n buf st" "0 < n" "length st \<le> a + n" "a + k \<le> length st" "a mod n + k \<le> n"
  shows "mem_read buf (a mod n) k = Some (take k (drop a st))"
proof -
  have "take k (drop (a mod n) buf) = take k (drop a st)"
  proof (rule nth_equalityI)
    show "length (take k (drop (a mod n) buf)) = length (take k (drop a st))"
      using assms by (simp add: ring_def)
    fix i assume "i < length (take k (drop (a mod n) buf))"
    then have i: "i < k" by simp
    have "(a + i) mod n = a mod n + i" by (rule mod_offset) (use i assms(5) in linarith)
    moreover have "buf ! ((a + i) mod n) = st ! (a + i)"
      using assms(1,3,4) i by (simp add: ring_def)
    ultimately show "take k (drop (a mod n) buf) ! i = take k (drop a st) ! i"
      using i assms by (simp add: ring_def)
  qed
  then show ?thesis using assms by (simp add: mem_read_def ring_def)
qed

lemma reply_loop_ring:
  assumes "ring n buf st" "0 < n"
  shows "a \<le> length st \<Longrightarrow> length st \<le> a + n \<Longrightarrow>
    reply_loop (int n) buf (int (a mod n)) (int (length st - a)) = Some (drop a st)"
proof (induction "length st - a" arbitrary: a rule: less_induct)
  case less
  show ?case
  proof (cases "a = length st")
    case True
    then show ?thesis by (simp add: reply_loop.simps)
  next
    case False
    then have pos: "0 < length st - a" using less.prems by simp
    have j: "a mod n < n" using assms(2) by simp
    define k where "k = min (n - a mod n) (length st - a)"
    have k: "0 < k" "a + k \<le> length st" "a mod n + k \<le> n" using pos j by (auto simp: k_def)
    have thislen: "(if int n - int (a mod n) < int (length st - a) then int n - int (a mod n) else int (length st - a)) = int k"
      using j by (auto simp: k_def)
    have read: "mem_read buf (nat (int (a mod n))) (nat (int k)) = Some (take k (drop a st))"
      using ring_read [OF assms less.prems(2) k(2,3)] by simp
    have rest: "reply_loop (int n) buf 0 (int (length st - a) - int k) = Some (drop (a + k) st)"
    proof (cases "a + k = length st")
      case True
      then have "int (length st - a) - int k = 0" using k by simp
      then show ?thesis using True by (simp add: reply_loop.simps)
    next
      case False
      then have "k = n - a mod n" using k by (auto simp: k_def)
      then have zero: "(a + k) mod n = 0" using mod_wrap [OF assms(2), of k a] j by simp
      have "length st - (a + k) < length st - a" using k pos by simp
      from less.hyps [OF this] have "reply_loop (int n) buf (int ((a + k) mod n)) (int (length st - (a + k))) = Some (drop (a + k) st)"
        using k less.prems by simp
      moreover have "int (length st - (a + k)) = int (length st - a) - int k" using k by simp
      ultimately show ?thesis unfolding zero by simp
    qed
    have "reply_loop (int n) buf (int (a mod n)) (int (length st - a)) =
        map_option ((@) (take k (drop a st))) (reply_loop (int n) buf 0 (int (length st - a) - int k))"
      using pos j by (subst reply_loop.simps) (simp only: thislen Let_def read option.case, simp)
    also have "\<dots> = Some (drop a st)"
      unfolding rest using append_take_drop_id [of k "drop a st"] by (simp add: add.commute)
    finally show ?thesis .
  qed
qed

section \<open>Partial resynchronisation\<close>

fun feed_run :: "byte list list \<Rightarrow> backlog \<Rightarrow> backlog option" where
  "feed_run [] s = Some s"
| "feed_run (p # ps) s = do { s \<leftarrow> feedReplicationBacklog p s; feed_run ps s }"

definition backlog_inv :: "int \<Rightarrow> byte list \<Rightarrow> backlog \<Rightarrow> bool" where
  "backlog_inv base st s \<longleftrightarrow> 0 < repl_backlog_size s
     \<and> (\<exists>buf. repl_backlog s = Some buf \<and> ring (repl_backlog_size s) buf st)
     \<and> repl_backlog_idx s = length st mod repl_backlog_size s
     \<and> repl_backlog_histlen s = min (length st) (repl_backlog_size s)
     \<and> master_repl_offset s = base + int (length st)
     \<and> repl_backlog_off s = base + int (length st - repl_backlog_histlen s) + 1"

lemma feed_inv:
  assumes "backlog_inv base st s"
  shows "\<exists>s'. feedReplicationBacklog p s = Some s' \<and> backlog_inv base (st @ p) s'
    \<and> repl_backlog_size s' = repl_backlog_size s"
proof -
  obtain buf where buf: "repl_backlog s = Some buf" "ring (repl_backlog_size s) buf st"
    and n: "0 < repl_backlog_size s" using assms by (auto simp: backlog_inv_def)
  from feed_loop_ring [OF n buf(2), of "repl_backlog_histlen s" p] obtain buf' where
    "feed_loop (repl_backlog_size s) buf (repl_backlog_idx s) (repl_backlog_histlen s) p =
       Some (buf', length (st @ p) mod repl_backlog_size s, repl_backlog_histlen s + length p)"
    "ring (repl_backlog_size s) buf' (st @ p)"
    using assms by (auto simp: backlog_inv_def)
  then show ?thesis
    using assms buf(1) by (auto simp: feedReplicationBacklog_def backlog_inv_def Let_def min_def of_nat_diff)
qed

lemma feed_run_inv:
  "backlog_inv base st s \<Longrightarrow> \<exists>s'. feed_run ps s = Some s' \<and> backlog_inv base (st @ concat ps) s'
    \<and> repl_backlog_size s' = repl_backlog_size s"
proof (induction ps arbitrary: st s)
  case (Cons p ps)
  obtain t where t: "feedReplicationBacklog p s = Some t" "backlog_inv base (st @ p) t"
      "repl_backlog_size t = repl_backlog_size s"
    using feed_inv [OF Cons.prems] by blast
  show ?case using Cons.IH [OF t(2)] t(1,3) by simp
qed simp

lemma c_rem_nat: "c_rem (int a) (int n) = int (a mod n)"
  by (cases "a = 0") (simp_all add: c_rem_def zmod_int)

lemma reply_inv:
  assumes inv: "backlog_inv base st s"
    and off: "repl_backlog_off s \<le> offset" "offset \<le> repl_backlog_off s + int (repl_backlog_histlen s)"
  shows "addReplyReplicationBacklog offset s =
    Some (drop (nat (offset - base - 1)) st, base + int (length st) + 1 - offset)"
proof (cases "st = []")
  case True
  then show ?thesis using assms by (simp add: addReplyReplicationBacklog_def backlog_inv_def)
next
  case False
  let ?n = "repl_backlog_size s" and ?h = "repl_backlog_histlen s"
  obtain buf where buf: "repl_backlog s = Some buf" "ring ?n buf st" and n: "0 < ?n"
    using inv by (auto simp: backlog_inv_def)
  have h: "?h = min (length st) ?n" "0 < ?h" using inv False n by (auto simp: backlog_inv_def)
  define skip where "skip = nat (offset - repl_backlog_off s)"
  have skip: "int skip = offset - repl_backlog_off s" "skip \<le> ?h" using off by (auto simp: skip_def)
  define a where "a = length st - ?h + skip"
  have a: "a \<le> length st" "length st \<le> a + ?n" "nat (offset - base - 1) = a" "int (length st - a) = int ?h - int skip"
    using h skip inv by (auto simp: a_def backlog_inv_def min_def)
  have "int (repl_backlog_idx s) + (int ?n - int ?h) = int (length st mod ?n + (?n - ?h))"
    using inv h by (simp add: backlog_inv_def of_nat_diff)
  moreover have "(length st mod ?n + (?n - ?h)) mod ?n = (length st - ?h) mod ?n"
  proof -
    have "(length st mod ?n + (?n - ?h)) mod ?n = (length st + (?n - ?h)) mod ?n" by (simp add: mod_add_left_eq)
    also have "length st + (?n - ?h) = (length st - ?h) + ?n" using h by simp
    finally show ?thesis by simp
  qed
  ultimately have j: "c_rem (int (repl_backlog_idx s) + (int ?n - int ?h)) (int ?n) = int ((length st - ?h) mod ?n)"
    by (simp only: c_rem_nat)
  have j2: "c_rem (int ((length st - ?h) mod ?n) + int skip) (int ?n) = int (a mod ?n)"
  proof -
    have "((length st - ?h) mod ?n + skip) mod ?n = a mod ?n" by (simp add: a_def mod_add_left_eq)
    then show ?thesis using c_rem_nat [of "(length st - ?h) mod ?n + skip" ?n] by simp
  qed
  have "reply_loop (int ?n) buf (int (a mod ?n)) (int ?h - int skip) = Some (drop a st)"
    using reply_loop_ring [OF buf(2) n a(1,2)] a(4) by simp
  moreover have "int ?h - int skip = base + int (length st) + 1 - offset"
    using a(4) skip(1) inv h by (auto simp: backlog_inv_def min_def)
  ultimately show ?thesis
    using h(2) buf(1) unfolding addReplyReplicationBacklog_def a(3) Let_def j skip(1) [symmetric] j2 by simp
qed

text \<open>
  C35. After the backlog is created and any sequence of writes, a replica that asks for an
  offset within the backlog is sent exactly the bytes of the replication stream from this
  offset to the end, and the backlog covers the newest bytes up to its size. The offsets are
  those a partial resynchronisation accepts; the first byte of the stream has the number
  \<open>master_repl_offset + 2\<close> of the state before.
\<close>

theorem backlog_psync_exact:
  assumes "repl_backlog s = None" "0 < repl_backlog_size s" "st = concat ps" "base = master_repl_offset s + 1"
  shows "\<exists>s0 s'. createReplicationBacklog junk s = Some s0 \<and> feed_run ps s0 = Some s'
    \<and> repl_backlog_histlen s' = min (length st) (repl_backlog_size s)
    \<and> repl_backlog_off s' + int (repl_backlog_histlen s') = base + int (length st) + 1
    \<and> (\<forall>offset. repl_backlog_off s' \<le> offset \<and> offset \<le> repl_backlog_off s' + int (repl_backlog_histlen s') \<longrightarrow>
        addReplyReplicationBacklog offset s' =
          Some (drop (nat (offset - base - 1)) st, base + int (length st) + 1 - offset))"
proof -
  obtain s0 where s0: "createReplicationBacklog junk s = Some s0" "backlog_inv base [] s0"
      "repl_backlog_size s0 = repl_backlog_size s"
    using assms by (simp add: createReplicationBacklog_def backlog_inv_def ring_def)
  from feed_run_inv [OF s0(2), of ps] obtain s' where
    s': "feed_run ps s0 = Some s'" "backlog_inv base st s'" "repl_backlog_size s' = repl_backlog_size s"
    using assms(3) s0(3) by auto
  have "repl_backlog_histlen s' = min (length st) (repl_backlog_size s)"
    using s'(2,3) by (simp add: backlog_inv_def)
  moreover have "repl_backlog_off s' + int (repl_backlog_histlen s') = base + int (length st) + 1"
    using s'(2) by (auto simp: backlog_inv_def min_def)
  ultimately show ?thesis using s0(1) s'(1) reply_inv [OF s'(2)] by blast
qed

theorem backlog_psync_exact_witness:
  "\<exists>s0 s'. createReplicationBacklog (\<lambda>_. 0)
       \<lparr>repl_backlog = None, repl_backlog_size = 4, repl_backlog_histlen = 0, repl_backlog_idx = 0,
        repl_backlog_off = 0, master_repl_offset = 9\<rparr> = Some s0
     \<and> feed_run [[1, 2, 3], [4, 5, 6]] s0 = Some s' \<and> addReplyReplicationBacklog 14 s' = Some ([4, 5, 6], 3)"
proof -
  let ?s = "\<lparr>repl_backlog = None, repl_backlog_size = 4, repl_backlog_histlen = 0, repl_backlog_idx = 0,
        repl_backlog_off = 0, master_repl_offset = 9\<rparr> :: backlog"
  obtain s0 s' where s: "createReplicationBacklog (\<lambda>_. 0) ?s = Some s0" "feed_run [[1, 2, 3], [4, 5, 6]] s0 = Some s'"
    "repl_backlog_histlen s' = 4" "repl_backlog_off s' + int (repl_backlog_histlen s') = 17"
    and reply: "\<And>offset. repl_backlog_off s' \<le> offset \<Longrightarrow> offset \<le> repl_backlog_off s' + int (repl_backlog_histlen s') \<Longrightarrow>
        addReplyReplicationBacklog offset s' = Some (drop (nat (offset - 11)) [1, 2, 3, 4, 5, 6], 17 - offset)"
    using backlog_psync_exact [of ?s "[1, 2, 3, 4, 5, 6]" "[[1, 2, 3], [4, 5, 6]]" 10 "\<lambda>_. 0"] by auto
  have "addReplyReplicationBacklog 14 s' = Some ([4, 5, 6], 3)"
    using reply [of 14] s(3,4) by simp
  then show ?thesis using s(1,2) by blast
qed



end
