(* ===== verification/Rand.thy ===== *)
theory Rand
  imports Main
begin

text \<open>
  \<open>rand.c\<close>: the pseudo random generator of scripts, which must give the same numbers on every
  platform. The state is three digits of 16 bits in 32-bit variables. The arithmetic of C is
  written out on integers: \<open>LOW\<close> and \<open>HIGH\<close> take 16 bits, the product in \<open>MUL\<close> is converted
  to \<open>int32_t\<close>, and unsigned sums are taken modulo \<open>2^32\<close>. The multiplier and the increment
  are never changed and are constants.
\<close>

section \<open>Operations\<close>

definition MASK :: int where "MASK = 2 ^ 15 + 2 ^ 15 - 1"

definition LOW :: "int \<Rightarrow> int" where "LOW v = v mod 2 ^ 16"

definition HIGH :: "int \<Rightarrow> int" where "HIGH v = LOW (v div 2 ^ 16)"

definition to_int32 :: "int \<Rightarrow> int" where "to_int32 v = (v + 2 ^ 31) mod 2 ^ 32 - 2 ^ 31"

definition MUL :: "int \<Rightarrow> int \<Rightarrow> int \<times> int" where
  "MUL u v = (let l = to_int32 (u * v) in (LOW l, HIGH l))"

definition CARRY :: "int \<Rightarrow> int \<Rightarrow> int" where
  "CARRY u v = (if to_int32 u + v > MASK then 1 else 0)"

definition ADDEQU :: "int \<Rightarrow> int \<Rightarrow> int \<times> int" where
  "ADDEQU u v = (LOW ((u + v) mod 2 ^ 32), CARRY u v)"

definition A0 :: int where "A0 = 0xE66D"
definition A1 :: int where "A1 = 0xDEEC"
definition A2 :: int where "A2 = 0x5"
definition CINC :: int where "CINC = 0xB"

record rand48 =
  rx0 :: int
  rx1 :: int
  rx2 :: int

definition redisSrand48 :: "int \<Rightarrow> rand48" where
  "redisSrand48 seedval = \<lparr>rx0 = 0x330E, rx1 = LOW seedval, rx2 = HIGH seedval\<rparr>"

definition rand_next :: "rand48 \<Rightarrow> rand48" where
  "rand_next s = (
     let (p0, p1) = MUL A0 (rx0 s);
         (p0, carry0) = ADDEQU p0 CINC;
         (p1, carry1) = ADDEQU p1 carry0;
         (q0, q1) = MUL A0 (rx1 s);
         (p1, carry0) = ADDEQU p1 q0;
         (r0, r1) = MUL A1 (rx0 s)
     in \<lparr>rx0 = LOW p0, rx1 = LOW ((p1 + r0) mod 2 ^ 32),
         rx2 = LOW ((carry0 + carry1 + CARRY p1 r0 + q1 + r1 + A0 * rx2 s + A1 * rx1 s + A2 * rx0 s) mod 2 ^ 32)\<rparr>)"

definition redisLrand48 :: "rand48 \<Rightarrow> int \<times> rand48" where
  "redisLrand48 s = (
     let s = rand_next s
     in (to_int32 ((rx2 s * 2 ^ 15 + rx1 s div 2) mod 2 ^ 32), s))"

section \<open>Correctness\<close>

definition digit16 :: "int \<Rightarrow> bool" where "digit16 v \<longleftrightarrow> 0 \<le> v \<and> v < 65536"

definition rand_ok :: "rand48 \<Rightarrow> bool" where
  "rand_ok s \<longleftrightarrow> digit16 (rx0 s) \<and> digit16 (rx1 s) \<and> digit16 (rx2 s)"

definition rand_val :: "rand48 \<Rightarrow> int" where
  "rand_val s = rx0 s + 2 ^ 16 * rx1 s + 2 ^ 32 * rx2 s"

lemma rand_val_num: "rand_val s = rx0 s + 65536 * rx1 s + 4294967296 * rx2 s"
  by (simp add: rand_val_def)

lemma LOW_digit [simp]: "digit16 (LOW v)" "digit16 (HIGH v)"
  by (simp_all add: digit16_def LOW_def HIGH_def)

lemma LOW_id: "digit16 v \<Longrightarrow> LOW v = v"
  by (simp add: digit16_def LOW_def)

lemma LOW_mod32: "LOW (v mod 2 ^ 32) = LOW v"
  unfolding LOW_def by (rule mod_mod_cancel) simp

lemma split_int32:
  assumes "0 \<le> w" "w < 4294967296"
  shows "LOW (to_int32 w) + 65536 * HIGH (to_int32 w) = w"
proof -
  have high: "HIGH w = w div 65536"
  proof -
    have "w div 65536 < 65536" using assms by linarith
    then show ?thesis using assms by (simp add: HIGH_def LOW_def)
  qed
  have "LOW (w - 4294967296) = LOW w"
    using mod_mult_self2 [of w 65536 "- 65536"] by (simp add: LOW_def)
  moreover have "HIGH (w - 4294967296) = HIGH w"
    using div_mult_self2 [of 65536 w "- 65536"] by (simp add: HIGH_def LOW_def)
  moreover have "to_int32 w = w \<or> to_int32 w = w - 4294967296"
  proof (cases "w < 2147483648")
    case True
    then show ?thesis using assms by (simp add: to_int32_def)
  next
    case False
    have "(w + 2147483648) mod 4294967296 = (w - 2147483648 + 4294967296) mod 4294967296" by (simp add: add.commute)
    also have "\<dots> = (w - 2147483648) mod 4294967296" by (rule mod_add_self2)
    also have "\<dots> = w - 2147483648"
      by (rule mod_pos_pos_trivial) (use False assms in simp_all)
    finally show ?thesis by (simp add: to_int32_def)
  qed
  ultimately have "LOW (to_int32 w) + 65536 * HIGH (to_int32 w) = LOW w + 65536 * HIGH w" by auto
  then show ?thesis by (simp add: high LOW_def)
qed

lemma MUL_split:
  assumes "digit16 u" "digit16 v" "MUL u v = (l, h)"
  shows "digit16 l \<and> digit16 h \<and> u * v = l + 65536 * h"
proof -
  have "u * v \<le> 65535 * 65535" using assms(1,2) by (intro mult_mono) (auto simp: digit16_def)
  moreover have "0 \<le> u * v" using assms(1,2) by (simp add: digit16_def)
  ultimately have "LOW (to_int32 (u * v)) + 65536 * HIGH (to_int32 (u * v)) = u * v"
    by (intro split_int32) simp_all
  then show ?thesis using assms(3) by (auto simp: MUL_def Let_def)
qed

lemma ADDEQU_split:
  assumes "digit16 u" "digit16 v" "ADDEQU u v = (l, c)"
  shows "digit16 l \<and> digit16 c \<and> (c = 0 \<or> c = 1) \<and> u + v = l + 65536 * c"
proof -
  have u: "to_int32 u = u" using assms(1) by (simp add: to_int32_def digit16_def)
  show ?thesis
  proof (cases "65535 < u + v")
    case True
    have "(u + v - 65536) mod 65536 = u + v - 65536"
      by (rule mod_pos_pos_trivial) (use True assms(1,2) in \<open>simp_all add: digit16_def\<close>)
    then have "(u + v) mod 65536 = u + v - 65536" by simp
    then show ?thesis
      using True assms by (auto simp: ADDEQU_def CARRY_def MASK_def LOW_def digit16_def u)
  next
    case False
    then show ?thesis
      using assms by (auto simp: ADDEQU_def CARRY_def MASK_def LOW_def digit16_def u)
  qed
qed

lemma CARRY_split:
  assumes "digit16 u" "digit16 v"
  shows "u + v = LOW ((u + v) mod 2 ^ 32) + 65536 * CARRY u v"
  using ADDEQU_split [OF assms] by (simp add: ADDEQU_def)

lemma rand_next_lcg:
  assumes "rand_ok s"
  shows "rand_ok (rand_next s) \<and> rand_val (rand_next s) = (0x5DEECE66D * rand_val s + 11) mod 2 ^ 48"
proof -
  obtain p0 p1 where p: "MUL A0 (rx0 s) = (p0, p1)" by fastforce
  obtain p0' c0 where p0': "ADDEQU p0 CINC = (p0', c0)" by fastforce
  obtain p1' c1 where p1': "ADDEQU p1 c0 = (p1', c1)" by fastforce
  obtain q0 q1 where q: "MUL A0 (rx1 s) = (q0, q1)" by fastforce
  obtain p1'' c0' where p1'': "ADDEQU p1' q0 = (p1'', c0')" by fastforce
  obtain r0 r1 where r: "MUL A1 (rx0 s) = (r0, r1)" by fastforce
  have cs: "digit16 A0" "digit16 A1" "digit16 CINC" by (simp_all add: digit16_def A0_def A1_def CINC_def)
  have x: "digit16 (rx0 s)" "digit16 (rx1 s)" "digit16 (rx2 s)" using assms by (simp_all add: rand_ok_def)
  have P: "digit16 p0" "digit16 p1" "A0 * rx0 s = p0 + 65536 * p1" using MUL_split [OF cs(1) x(1) p] by blast+
  have P0: "digit16 p0'" "digit16 c0" "p0 + CINC = p0' + 65536 * c0" using ADDEQU_split [OF P(1) cs(3) p0'] by blast+
  have P1: "digit16 p1'" "p1 + c0 = p1' + 65536 * c1" using ADDEQU_split [OF P(2) P0(2) p1'] by blast+
  have Q: "digit16 q0" "A0 * rx1 s = q0 + 65536 * q1" using MUL_split [OF cs(1) x(2) q] by blast+
  have P2: "digit16 p1''" "p1' + q0 = p1'' + 65536 * c0'" using ADDEQU_split [OF P1(1) Q(1) p1''] by blast+
  have R: "digit16 r0" "A1 * rx0 s = r0 + 65536 * r1" using MUL_split [OF cs(2) x(1) r] by blast+
  define y1 where "y1 = LOW ((p1'' + r0) mod 2 ^ 32)"
  define k where "k = CARRY p1'' r0"
  have K: "p1'' + r0 = y1 + 65536 * k" unfolding y1_def k_def by (rule CARRY_split [OF P2(1) R(1)])
  define S where "S = c0' + c1 + k + q1 + r1 + A0 * rx2 s + A1 * rx1 s + A2 * rx0 s"
  have s': "rand_next s = \<lparr>rx0 = p0', rx1 = y1, rx2 = LOW S\<rparr>"
    by (simp add: rand_next_def p p0' p1' q p1'' r Let_def LOW_id [OF P0(1)] LOW_mod32 [simplified] S_def k_def y1_def)
  define T where "T = A1 * rx2 s + A2 * rx1 s + 65536 * (A2 * rx2 s)"
  have ok: "rand_ok (rand_next s)" by (simp add: rand_ok_def s' P0(1) y1_def)
  have "0x5DEECE66D * rand_val s + 11 = p0' + 65536 * y1 + 4294967296 * S + 281474976710656 * T"
    using P(3) P0(3) P1(2) Q(2) P2(2) R(2) K
    unfolding S_def T_def rand_val_num A0_def A1_def A2_def CINC_def by algebra
  also have "4294967296 * S = 4294967296 * LOW S + 281474976710656 * (S div 65536)"
  proof -
    have "LOW S = S mod 65536" by (simp add: LOW_def)
    then show ?thesis using mult_div_mod_eq [of 65536 S] by linarith
  qed
  finally have "0x5DEECE66D * rand_val s + 11 = rand_val (rand_next s) + 2 ^ 48 * (S div 65536 + T)"
    by (simp add: rand_val_num s')
  moreover have "0 \<le> rand_val (rand_next s)" "rand_val (rand_next s) < 2 ^ 48"
    using ok unfolding rand_ok_def digit16_def rand_val_num by simp_all
  ultimately show ?thesis using ok by (metis mod_mult_self2 mod_pos_pos_trivial)
qed

lemma rand_val_high:
  assumes "digit16 (rx0 s)"
  shows "rand_val s div 2 ^ 17 = rx2 s * 2 ^ 15 + rx1 s div 2"
proof -
  define h where "h = rx1 s div 2"
  define b where "b = rx1 s mod 2"
  have b: "0 \<le> b" "b \<le> 1" by (simp_all add: b_def)
  have "rx1 s = 2 * h + b" by (simp add: h_def b_def)
  then have "rand_val s = (rx0 s + 65536 * b) + (rx2 s * 32768 + h) * 131072"
    by (simp add: rand_val_num)
  moreover have "(rx0 s + 65536 * b) div 131072 = 0"
    by (rule div_pos_pos_trivial) (use assms b in \<open>simp_all add: digit16_def\<close>)
  ultimately show ?thesis by (simp add: h_def)
qed

text \<open>
  C37. \<open>next\<close>, which computes with digits of 16 bits and carries, is one step of the linear
  congruential generator modulo \<open>2^48\<close> with the multiplier 0x5DEECE66D and the increment 11,
  and \<open>redisLrand48\<close> returns the upper 31 bits of the new state.
\<close>

theorem rand_is_lrand48:
  assumes "rand_ok s"
  shows "rand_ok (snd (redisLrand48 s))
    \<and> rand_val (snd (redisLrand48 s)) = (0x5DEECE66D * rand_val s + 11) mod 2 ^ 48
    \<and> fst (redisLrand48 s) = rand_val (snd (redisLrand48 s)) div 2 ^ 17"
proof -
  let ?t = "rand_next s"
  have t: "digit16 (rx0 ?t)" "digit16 (rx1 ?t)" "digit16 (rx2 ?t)"
    using rand_next_lcg [OF assms] by (simp_all add: rand_ok_def)
  have "rx2 ?t * 2 ^ 15 + rx1 ?t div 2 < 2 ^ 31" "0 \<le> rx2 ?t * 2 ^ 15 + rx1 ?t div 2"
    using t unfolding digit16_def by (simp_all, linarith)
  then have "to_int32 ((rx2 ?t * 2 ^ 15 + rx1 ?t div 2) mod 2 ^ 32) = rx2 ?t * 2 ^ 15 + rx1 ?t div 2"
    by (simp add: to_int32_def)
  moreover have "rand_val ?t div 2 ^ 17 = rx2 ?t * 2 ^ 15 + rx1 ?t div 2"
    by (rule rand_val_high [OF t(1)])
  ultimately show ?thesis
    using rand_next_lcg [OF assms] by (simp add: redisLrand48_def Let_def)
qed

theorem rand_is_lrand48_witness:
  "rand_ok (redisSrand48 0) \<and> rand_val (redisSrand48 0) = 13070
   \<and> rand_val (snd (redisLrand48 (redisSrand48 0))) = (0x5DEECE66D * 13070 + 11) mod 2 ^ 48"
proof -
  have ok: "rand_ok (redisSrand48 0)" by (simp add: rand_ok_def redisSrand48_def digit16_def LOW_def HIGH_def)
  have val: "rand_val (redisSrand48 0) = 13070" by (simp add: rand_val_def redisSrand48_def LOW_def HIGH_def)
  show ?thesis using rand_is_lrand48 [OF ok] ok val by simp
qed

end
