(* ===== verification/Glob.thy ===== *)
theory Glob
  imports Prelude
begin

text \<open>
  \<open>util.c\<close>: glob-style pattern matching (\<open>stringmatchlen\<close>, used by KEYS, SCAN, CONFIG GET
  and PSUBSCRIBE). The model keeps the two pointers as offsets into the buffers they point
  into and the two remaining lengths as integers, exactly as the code moves them. Reading
  outside a buffer, or moving a pointer further than one past its end, is \<open>None\<close>. The
  reference is a parser into tokens and a declarative matcher of tokens.
\<close>

section \<open>The matcher\<close>

abbreviation chr :: "char \<Rightarrow> byte" where "chr c \<equiv> of_char c"

text \<open>
  \<open>tolower\<close> in the C locale, on the \<open>int\<close> a signed \<open>char\<close> is promoted to.
\<close>

definition tolower :: "int \<Rightarrow> int" where
  "tolower c = (if 65 \<le> c \<and> c \<le> 90 then c + 32 else c)"

definition char_eq :: "bool \<Rightarrow> byte \<Rightarrow> byte \<Rightarrow> bool" where
  "char_eq nocase a b \<longleftrightarrow> (if nocase then tolower (sint a) = tolower (sint b) else a = b)"

definition in_range :: "bool \<Rightarrow> byte \<Rightarrow> byte \<Rightarrow> byte \<Rightarrow> bool" where
  "in_range nocase a b ch = (
     let start = sint a; end' = sint b; c = sint ch;
         (start, end') = (if start > end' then (end', start) else (start, end'));
         (start, end', c) = (if nocase then (tolower start, tolower end', tolower c) else (start, end', c))
     in c \<ge> start \<and> c \<le> end')"

text \<open>\<open>while (pattern[1] == '*')\<close>, and \<open>while (*pattern == '*')\<close> with \<open>d = 0\<close>.\<close>

function skip_stars :: "nat \<Rightarrow> byte list \<Rightarrow> nat \<Rightarrow> int \<Rightarrow> (nat \<times> int) option" where
  "skip_stars d P po pl =
     (if length P \<le> po + d then None
      else if P ! (po + d) = chr CHR ''*'' then skip_stars d P (po + 1) (pl - 1)
      else Some (po, pl))"
  by auto
termination by (relation "measure (\<lambda>(d, P, po, pl). length P - po)") auto

declare skip_stars.simps [simp del]

text \<open>
  The loop over a character class, entered behind \<open>[\<close> or \<open>[^\<close>. The result is the pattern
  position at the closing bracket (or at the last character when there is none) and whether
  the current character of the string matched.
\<close>

function class_loop ::
  "bool \<Rightarrow> byte list \<Rightarrow> nat \<Rightarrow> int \<Rightarrow> byte list \<Rightarrow> nat \<Rightarrow> bool \<Rightarrow> (nat \<times> int \<times> bool) option" where
  "class_loop nocase P po pl S so match =
     (if length P \<le> po then None
      else if P ! po = chr CHR 0x5C then
        (if length P \<le> po + 1 \<or> length S \<le> so then None
         else class_loop nocase P (po + 2) (pl - 2) S so (match \<or> P ! (po + 1) = S ! so))
      else if P ! po = chr CHR '']'' then Some (po, pl, match)
      else if pl = 0 then Some (po - 1, pl + 1, match)
      else if length P \<le> po + 1 \<or> length S \<le> so then None
      else if P ! (po + 1) = chr CHR ''-'' \<and> pl \<ge> 3 then
        (if length P \<le> po + 2 then None
         else class_loop nocase P (po + 3) (pl - 3) S so (match \<or> in_range nocase (P ! po) (P ! (po + 2)) (S ! so)))
      else class_loop nocase P (po + 1) (pl - 1) S so (match \<or> char_eq nocase (P ! po) (S ! so)))"
  by auto
termination by (relation "measure (\<lambda>(nc, P, po, pl, S, so, m). length P - po)") auto

declare class_loop.simps [simp del]

text \<open>
  One turn of the outer loop: the switch and the code behind it. It ends the match, meets
  a star (the pattern is then at the last of the stars), or goes on.
\<close>

datatype match_step = Done bool | Star nat int | Next nat int nat int

definition advance :: "byte list \<Rightarrow> nat \<Rightarrow> int \<Rightarrow> nat \<Rightarrow> int \<Rightarrow> match_step option" where
  "advance P po pl so sl =
     (if sl = 0 then do { (po, pl) \<leftarrow> skip_stars 0 P (po + 1) (pl - 1); Some (Done (pl = 0)) }
      else Some (Next (po + 1) (pl - 1) so sl))"

definition match_literal :: "bool \<Rightarrow> byte list \<Rightarrow> nat \<Rightarrow> int \<Rightarrow> byte list \<Rightarrow> nat \<Rightarrow> int \<Rightarrow> match_step option" where
  "match_literal nocase P po pl S so sl = do {
     p \<leftarrow> get_at P (int po);
     c \<leftarrow> get_at S (int so);
     if char_eq nocase p c then advance P po pl (so + 1) (sl - 1) else Some (Done False) }"

definition match_turn :: "bool \<Rightarrow> byte list \<Rightarrow> nat \<Rightarrow> int \<Rightarrow> byte list \<Rightarrow> nat \<Rightarrow> int \<Rightarrow> match_step option" where
  "match_turn nocase P po pl S so sl = do {
     p \<leftarrow> get_at P (int po);
     if p = chr CHR ''*'' then do {
       (po, pl) \<leftarrow> skip_stars 1 P po pl;
       Some (if pl = 1 then Done True else Star po pl)
     }
     else if p = chr CHR ''?'' then
       (if sl = 0 then Some (Done False) else advance P po pl (so + 1) (sl - 1))
     else if p = chr CHR ''['' then do {
       c \<leftarrow> get_at P (int (po + 1));
       let neg = (c = chr CHR ''^'');
       let po = (if neg then po + 2 else po + 1);
       let pl = (if neg then pl - 2 else pl - 1);
       (po, pl, match) \<leftarrow> class_loop nocase P po pl S so False;
       if match \<noteq> neg then advance P po pl (so + 1) (sl - 1) else Some (Done False)
     }
     else if p = chr CHR 0x5C \<and> pl \<ge> 2 then match_literal nocase P (po + 1) (pl - 1) S so sl
     else match_literal nocase P po pl S so sl }"

lemma skip_stars_le: "skip_stars d P po pl = Some (po', pl') \<Longrightarrow> po \<le> po' \<and> po' + d < length P"
proof (induction d P po pl rule: skip_stars.induct)
  case (1 d P po pl)
  show ?case using "1.prems" by (subst (asm) skip_stars.simps) (use "1.IH" in \<open>auto split: if_splits\<close>)
qed

lemma class_loop_le: "class_loop nocase P po pl S so m = Some (po', pl', m') \<Longrightarrow> po \<le> Suc po' \<and> po' < length P"
proof (induction "length P - po" arbitrary: po pl m rule: less_induct)
  case less
  show ?case using less.prems
    by (subst (asm) class_loop.simps) (auto split: if_splits dest!: less.hyps [rotated])
qed

lemma advance_gt: "advance P po pl so sl = Some (Next po' pl' so' sl') \<Longrightarrow> po' = po + 1"
  by (auto simp: advance_def split: if_splits option.splits elim!: option_bind_SomeE)

lemma match_turn_Next:
  assumes "match_turn nocase P po pl S so sl = Some (Next po' pl' so' sl')"
  shows "po < po' \<and> po < length P"
proof -
  have lit: "q < po'" if "match_literal nocase P q ql S so sl = Some (Next po' pl' so' sl')" for q ql
    using that advance_gt by (fastforce simp: match_literal_def split: if_splits elim!: option_bind_SomeE)
  show ?thesis
    using assms
    by (auto simp: match_turn_def get_at_def Let_def split: if_splits elim!: option_bind_SomeE
          dest!: advance_gt class_loop_le dest: lit)
qed

lemma match_turn_Star:
  assumes "match_turn nocase P po pl S so sl = Some (Star po' pl')"
  shows "po \<le> po' \<and> po < length P"
proof -
  have adv: "advance P q ql so' sl' \<noteq> Some (Star po' pl')" for q ql so' sl'
    by (auto simp: advance_def elim!: option_bind_SomeE split: prod.splits)
  have lit: "match_literal nocase P q ql S so sl \<noteq> Some (Star po' pl')" for q ql
    using adv by (auto simp: match_literal_def elim!: option_bind_SomeE split: if_splits)
  show ?thesis
    using assms adv lit
    by (auto simp: match_turn_def get_at_def Let_def split: if_splits elim!: option_bind_SomeE dest!: skip_stars_le)
qed

text \<open>
  \<open>stringmatchlen\<close> and the loop that tries the rest of the pattern behind a star at every
  position of the string.
\<close>

function (sequential) stringmatchlen :: "bool \<Rightarrow> byte list \<Rightarrow> nat \<Rightarrow> int \<Rightarrow> byte list \<Rightarrow> nat \<Rightarrow> int \<Rightarrow> bool option"
  and star_loop :: "bool \<Rightarrow> byte list \<Rightarrow> nat \<Rightarrow> int \<Rightarrow> byte list \<Rightarrow> nat \<Rightarrow> int \<Rightarrow> bool option" where
  "stringmatchlen nocase P po pl S so sl =
     (if length P < po \<or> length S < so then None
      else if pl = 0 then Some (sl = 0)
      else case match_turn nocase P po pl S so sl of
        None \<Rightarrow> None
      | Some (Done r) \<Rightarrow> Some r
      | Some (Star po' pl') \<Rightarrow> star_loop nocase P po' pl' S so sl
      | Some (Next po' pl' so' sl') \<Rightarrow> stringmatchlen nocase P po' pl' S so' sl')"
| "star_loop nocase P po pl S so sl =
     (if length P < po + 1 \<or> length S < so then None
      else if sl = 0 then Some False
      else case stringmatchlen nocase P (po + 1) (pl - 1) S so sl of
        None \<Rightarrow> None
      | Some True \<Rightarrow> Some True
      | Some False \<Rightarrow> star_loop nocase P po pl S (so + 1) (sl - 1))"
  by pat_completeness auto
termination
  by (relation "inv_image (measure id <*lex*> measure id)
       (case_sum (\<lambda>(nc, P, po, pl, S, so, sl). (2 * (length P + 1 - po) + 1, 0))
                 (\<lambda>(nc, P, po, pl, S, so, sl). (2 * (length P + 1 - po), length S + 1 - so)))")
     (auto dest: match_turn_Next match_turn_Star)

declare stringmatchlen.simps [simp del] star_loop.simps [simp del]

text \<open>
  The callers pass NUL-terminated buffers: sds strings with their lengths, or C strings
  through \<open>stringmatch\<close>, whose length \<open>strlen\<close> finds.
\<close>

definition sds_match :: "bool \<Rightarrow> byte list \<Rightarrow> byte list \<Rightarrow> bool option" where
  "sds_match nocase p s = stringmatchlen nocase (p @ [0]) 0 (int (length p)) (s @ [0]) 0 (int (length s))"

definition strlen :: "byte list \<Rightarrow> nat option" where
  "strlen s = (if 0 \<in> set s then Some (length (takeWhile (\<lambda>b. b \<noteq> 0) s)) else None)"

definition stringmatch :: "byte list \<Rightarrow> byte list \<Rightarrow> bool \<Rightarrow> bool option" where
  "stringmatch pattern s nocase = do {
     pl \<leftarrow> strlen pattern;
     sl \<leftarrow> strlen s;
     stringmatchlen nocase pattern 0 (int pl) s 0 (int sl) }"

section \<open>Properties\<close>

lemma skip_stars_none: "po < length P \<Longrightarrow> P ! po \<noteq> chr CHR ''*'' \<Longrightarrow> skip_stars 0 P po pl = Some (po, pl)"
  by (subst skip_stars.simps) simp

definition plain :: "byte list \<Rightarrow> bool" where
  "plain p \<longleftrightarrow> set p \<inter> {0, chr CHR ''*'', chr CHR ''?'', chr CHR ''['', chr CHR 0x5C} = {}"

lemma plain_turn:
  assumes "plain p" "i < length p" "i \<le> length s"
  shows "match_turn False (p @ [0]) i (int (length p) - int i) (s @ [0]) i (int (length s) - int i) =
    Some (if i < length s \<and> p ! i = s ! i then
            if Suc i < length s then Next (Suc i) (int (length p) - int (Suc i)) (Suc i) (int (length s) - int (Suc i))
            else Done (Suc i = length p)
          else Done False)"
proof -
  have np: "p ! j \<notin> {0, chr CHR ''*'', chr CHR ''?'', chr CHR ''['', chr CHR 0x5C}" if "j < length p" for j
    using assms(1) nth_mem [OF that] by (auto simp: plain_def)
  have next_plain: "skip_stars 0 (p @ [0]) (Suc i) pl = Some (Suc i, pl)" for pl
    by (rule skip_stars_none) (use assms np [of "Suc i"] in \<open>auto simp: nth_append\<close>)
  show ?thesis
    using assms np [OF assms(2)] next_plain
    by (auto simp: match_turn_def match_literal_def get_at_def advance_def char_eq_def nth_append)
qed

lemma plain_match:
  assumes "plain p"
  shows "i \<le> length p \<Longrightarrow> i \<le> length s \<Longrightarrow> (i = 0 \<or> i < length s) \<Longrightarrow>
    stringmatchlen False (p @ [0]) i (int (length p) - int i) (s @ [0]) i (int (length s) - int i)
      = Some (drop i p = drop i s)"
proof (induction "length p - i" arbitrary: i)
  case 0
  then have "i = length p" by simp
  then show ?case using 0 by (subst stringmatchlen.simps) auto
next
  case (Suc n)
  then have i: "i < length p" by simp
  have p: "drop i p = p ! i # drop (Suc i) p" using i by (simp add: Cons_nth_drop_Suc)
  show ?case
  proof (cases "i < length s")
    case True
    have s: "drop i s = s ! i # drop (Suc i) s" using True by (simp add: Cons_nth_drop_Suc)
    have IH: "Suc i < length s \<Longrightarrow>
        stringmatchlen False (p @ [0]) (Suc i) (int (length p) - int (Suc i)) (s @ [0]) (Suc i) (int (length s) - int (Suc i))
          = Some (drop (Suc i) p = drop (Suc i) s)"
      using Suc i by (intro Suc.hyps(1)) auto
    show ?thesis
      unfolding stringmatchlen.simps [of _ "p @ [0]" i] plain_turn [OF assms i Suc.prems(2)]
      using i True IH by (auto simp: p s not_less le_Suc_eq)
  next
    case False
    then show ?thesis
      unfolding stringmatchlen.simps [of _ "p @ [0]" i] plain_turn [OF assms i Suc.prems(2)]
      using i Suc.prems(2) by (auto simp: p)
  qed
qed




end
