(* ===== verification/Pubsub.thy ===== *)
theory Pubsub
  imports Glob "HOL-Library.List_Lexorder"
begin

text \<open>
  \<open>pubsub.c\<close>: subscriptions to channels and patterns, and publishing. Every client has a set
  of channels (the keys of its dictionary) and a list of patterns; the server has, for every
  channel with subscribers, the list of its clients, and one list of all the pairs of a client
  and a pattern. The order in which a dictionary iterator returns its keys is an argument of
  the operations that iterate. The bytes a client is sent are the list of the replies. A
  failed assertion, a NULL dereference and a read outside a buffer are \<open>None\<close>. Reference
  counts are not part of the model.
\<close>

section \<open>State\<close>

datatype preply = PMulti nat | PBulk "byte list" | PNullBulk | PInt nat | PError "byte list"

record pclient =
  pc_channels :: "byte list set"
  pc_patterns :: "byte list list"
  pc_pubsub :: bool
  pc_replies :: "preply list"

record pserver =
  ps_client :: "nat \<Rightarrow> pclient"
  ps_channels :: "byte list \<rightharpoonup> nat list"
  ps_patterns :: "(nat \<times> byte list) list"
  ps_cluster :: bool
  ps_cluster_sent :: "(byte list \<times> byte list) list"
  ps_forced :: "nat list"

definition upd_pclient :: "nat \<Rightarrow> (pclient \<Rightarrow> pclient) \<Rightarrow> pserver \<Rightarrow> pserver" where
  "upd_pclient c f s = s\<lparr>ps_client := (ps_client s)(c := f (ps_client s c))\<rparr>"

definition addReplies :: "nat \<Rightarrow> preply list \<Rightarrow> pserver \<Rightarrow> pserver" where
  "addReplies c rs = upd_pclient c (\<lambda>x. x\<lparr>pc_replies := pc_replies x @ rs\<rparr>)"

definition clientSubscriptionsCount :: "nat \<Rightarrow> pserver \<Rightarrow> nat" where
  "clientSubscriptionsCount c s = card (pc_channels (ps_client s c)) + length (pc_patterns (ps_client s c))"

section \<open>Subscriptions\<close>

definition pubsubSubscribeChannel :: "nat \<Rightarrow> byte list \<Rightarrow> pserver \<Rightarrow> bool \<times> pserver" where
  "pubsubSubscribeChannel c channel s = (
     let new = channel \<notin> pc_channels (ps_client s c);
         s = (if new then
                let s = upd_pclient c (\<lambda>x. x\<lparr>pc_channels := insert channel (pc_channels x)\<rparr>) s;
                    clients = (case ps_channels s channel of None \<Rightarrow> [] | Some l \<Rightarrow> l)
                in s\<lparr>ps_channels := (ps_channels s)(channel \<mapsto> clients @ [c])\<rparr>
              else s)
     in (new, addReplies c [PMulti 3, PBulk (str ''subscribe''), PBulk channel, PInt (clientSubscriptionsCount c s)] s))"

definition pubsubUnsubscribeChannel :: "nat \<Rightarrow> byte list \<Rightarrow> bool \<Rightarrow> pserver \<Rightarrow> (bool \<times> pserver) option" where
  "pubsubUnsubscribeChannel c channel notify s = do {
     let found = (channel \<in> pc_channels (ps_client s c));
     s \<leftarrow> (if found then do {
              let s = upd_pclient c (\<lambda>x. x\<lparr>pc_channels := pc_channels x - {channel}\<rparr>) s;
              clients \<leftarrow> ps_channels s channel;
              if c \<notin> set clients then None
              else do {
                let clients = remove1 c clients;
                Some (s\<lparr>ps_channels := (ps_channels s)(channel := (if clients = [] then None else Some clients))\<rparr>)
              }
            } else Some s);
     Some (found, if notify then
        addReplies c [PMulti 3, PBulk (str ''unsubscribe''), PBulk channel, PInt (clientSubscriptionsCount c s)] s
      else s) }"

definition pubsubSubscribePattern :: "nat \<Rightarrow> byte list \<Rightarrow> pserver \<Rightarrow> bool \<times> pserver" where
  "pubsubSubscribePattern c pattern s = (
     let new = pattern \<notin> set (pc_patterns (ps_client s c));
         s = (if new then
                let s = upd_pclient c (\<lambda>x. x\<lparr>pc_patterns := pc_patterns x @ [pattern]\<rparr>) s
                in s\<lparr>ps_patterns := ps_patterns s @ [(c, pattern)]\<rparr>
              else s)
     in (new, addReplies c [PMulti 3, PBulk (str ''psubscribe''), PBulk pattern, PInt (clientSubscriptionsCount c s)] s))"

definition pubsubUnsubscribePattern :: "nat \<Rightarrow> byte list \<Rightarrow> bool \<Rightarrow> pserver \<Rightarrow> (bool \<times> pserver) option" where
  "pubsubUnsubscribePattern c pattern notify s = do {
     let found = (pattern \<in> set (pc_patterns (ps_client s c)));
     s \<leftarrow> (if found then do {
              let s = upd_pclient c (\<lambda>x. x\<lparr>pc_patterns := remove1 pattern (pc_patterns x)\<rparr>) s;
              if (c, pattern) \<notin> set (ps_patterns s) then None
              else Some (s\<lparr>ps_patterns := remove1 (c, pattern) (ps_patterns s)\<rparr>)
            } else Some s);
     Some (found, if notify then
        addReplies c [PMulti 3, PBulk (str ''punsubscribe''), PBulk pattern, PInt (clientSubscriptionsCount c s)] s
      else s) }"

fun unsubscribe_loop :: "nat \<Rightarrow> bool \<Rightarrow> byte list list \<Rightarrow> nat \<Rightarrow> pserver \<Rightarrow> (nat \<times> pserver) option" where
  "unsubscribe_loop c notify [] count s = Some (count, s)"
| "unsubscribe_loop c notify (channel # chans) count s = do {
     (r, s) \<leftarrow> pubsubUnsubscribeChannel c channel notify s;
     unsubscribe_loop c notify chans (count + of_bool r) s }"

fun punsubscribe_loop :: "nat \<Rightarrow> bool \<Rightarrow> byte list list \<Rightarrow> nat \<Rightarrow> pserver \<Rightarrow> (nat \<times> pserver) option" where
  "punsubscribe_loop c notify [] count s = Some (count, s)"
| "punsubscribe_loop c notify (pattern # pats) count s = do {
     (r, s) \<leftarrow> pubsubUnsubscribePattern c pattern notify s;
     punsubscribe_loop c notify pats (count + of_bool r) s }"

definition pubsubUnsubscribeAllChannels :: "byte list list \<Rightarrow> nat \<Rightarrow> bool \<Rightarrow> pserver \<Rightarrow> (nat \<times> pserver) option" where
  "pubsubUnsubscribeAllChannels order c notify s = do {
     (count, s) \<leftarrow> unsubscribe_loop c notify order 0 s;
     Some (count, if notify \<and> count = 0 then
        addReplies c [PMulti 3, PBulk (str ''unsubscribe''), PNullBulk, PInt (clientSubscriptionsCount c s)] s
      else s) }"

definition pubsubUnsubscribeAllPatterns :: "nat \<Rightarrow> bool \<Rightarrow> pserver \<Rightarrow> (nat \<times> pserver) option" where
  "pubsubUnsubscribeAllPatterns c notify s = do {
     (count, s) \<leftarrow> punsubscribe_loop c notify (pc_patterns (ps_client s c)) 0 s;
     Some (count, if notify \<and> count = 0 then
        addReplies c [PMulti 3, PBulk (str ''punsubscribe''), PNullBulk, PInt (clientSubscriptionsCount c s)] s
      else s) }"

section \<open>Publishing\<close>

definition message_replies :: "byte list \<Rightarrow> byte list \<Rightarrow> preply list" where
  "message_replies channel message = [PMulti 3, PBulk (str ''message''), PBulk channel, PBulk message]"

definition pmessage_replies :: "byte list \<Rightarrow> byte list \<Rightarrow> byte list \<Rightarrow> preply list" where
  "pmessage_replies channel message pattern =
     [PMulti 4, PBulk (str ''pmessage''), PBulk pattern, PBulk channel, PBulk message]"

fun publish_patterns ::
  "byte list \<Rightarrow> byte list \<Rightarrow> (nat \<times> byte list) list \<Rightarrow> nat \<Rightarrow> pserver \<Rightarrow> (nat \<times> pserver) option" where
  "publish_patterns channel message [] receivers s = Some (receivers, s)"
| "publish_patterns channel message ((c, pat) # pats) receivers s = do {
     m \<leftarrow> sds_match False pat channel;
     if m then publish_patterns channel message pats (receivers + 1) (addReplies c (pmessage_replies channel message pat) s)
     else publish_patterns channel message pats receivers s }"

definition pubsubPublishMessage :: "byte list \<Rightarrow> byte list \<Rightarrow> pserver \<Rightarrow> (nat \<times> pserver) option" where
  "pubsubPublishMessage channel message s = (
     let clients = (case ps_channels s channel of None \<Rightarrow> [] | Some l \<Rightarrow> l);
         s = fold (\<lambda>c. addReplies c (message_replies channel message)) clients s
     in publish_patterns channel message (ps_patterns s) (length clients) s)"

section \<open>Commands\<close>

definition subscribeCommand :: "nat \<Rightarrow> byte list list \<Rightarrow> pserver \<Rightarrow> pserver" where
  "subscribeCommand c args s =
     upd_pclient c (\<lambda>x. x\<lparr>pc_pubsub := True\<rparr>) (fold (\<lambda>ch s. snd (pubsubSubscribeChannel c ch s)) args s)"

definition psubscribeCommand :: "nat \<Rightarrow> byte list list \<Rightarrow> pserver \<Rightarrow> pserver" where
  "psubscribeCommand c args s =
     upd_pclient c (\<lambda>x. x\<lparr>pc_pubsub := True\<rparr>) (fold (\<lambda>p s. snd (pubsubSubscribePattern c p s)) args s)"

definition leave_pubsub :: "nat \<Rightarrow> pserver \<Rightarrow> pserver" where
  "leave_pubsub c s =
     (if clientSubscriptionsCount c s = 0 then upd_pclient c (\<lambda>x. x\<lparr>pc_pubsub := False\<rparr>) s else s)"

definition unsubscribeCommand :: "byte list list \<Rightarrow> nat \<Rightarrow> byte list list \<Rightarrow> pserver \<Rightarrow> pserver option" where
  "unsubscribeCommand order c args s = do {
     (_, s) \<leftarrow> (if args = [] then pubsubUnsubscribeAllChannels order c True s
                else unsubscribe_loop c True args 0 s);
     Some (leave_pubsub c s) }"

definition punsubscribeCommand :: "nat \<Rightarrow> byte list list \<Rightarrow> pserver \<Rightarrow> pserver option" where
  "punsubscribeCommand c args s = do {
     (_, s) \<leftarrow> (if args = [] then pubsubUnsubscribeAllPatterns c True s
                else punsubscribe_loop c True args 0 s);
     Some (leave_pubsub c s) }"

definition publishCommand :: "nat \<Rightarrow> byte list \<Rightarrow> byte list \<Rightarrow> pserver \<Rightarrow> pserver option" where
  "publishCommand c channel message s = do {
     (receivers, s) \<leftarrow> pubsubPublishMessage channel message s;
     let s = (if ps_cluster s then s\<lparr>ps_cluster_sent := ps_cluster_sent s @ [(channel, message)]\<rparr>
              else s\<lparr>ps_forced := ps_forced s @ [c]\<rparr>);
     Some (addReplies c [PInt receivers] s) }"

definition word_is :: "byte list \<Rightarrow> string \<Rightarrow> bool" where
  "word_is a w \<longleftrightarrow> map (\<lambda>b. if 65 \<le> b \<and> b \<le> 90 then b + 32 else b) (takeWhile (\<lambda>b. b \<noteq> 0) a) = str w"

fun matching_channels :: "byte list option \<Rightarrow> byte list list \<Rightarrow> byte list list option" where
  "matching_channels pat [] = Some []"
| "matching_channels pat (ch # chs) = do {
     m \<leftarrow> (case pat of None \<Rightarrow> Some True | Some p \<Rightarrow> sds_match False p ch);
     rest \<leftarrow> matching_channels pat chs;
     Some (if m then ch # rest else rest) }"

text \<open>\<open>sub\<close> is \<open>argv[1]\<close>, \<open>args\<close> the arguments behind it, \<open>order\<close> the keys of the server's
  dictionary in the order of the iterator.\<close>

definition pubsubCommand :: "byte list list \<Rightarrow> nat \<Rightarrow> byte list \<Rightarrow> byte list list \<Rightarrow> pserver \<Rightarrow> pserver option" where
  "pubsubCommand order c sub args s =
     (if word_is sub ''channels'' \<and> length args \<le> 1 then do {
        chans \<leftarrow> matching_channels (case args of [] \<Rightarrow> None | p # _ \<Rightarrow> Some p) order;
        Some (addReplies c (PMulti (length chans) # map PBulk chans) s)
      }
      else if word_is sub ''numsub'' then
        Some (addReplies c (PMulti (length args * 2) # concat (map (\<lambda>ch. [PBulk ch, PInt
          (case ps_channels s ch of None \<Rightarrow> 0 | Some l \<Rightarrow> length l)]) args)) s)
      else if word_is sub ''numpat'' \<and> args = [] then
        Some (addReplies c [PInt (length (ps_patterns s))] s)
      else Some (addReplies c [PError (str ''Unknown PUBSUB subcommand or wrong number of arguments for '' @ sub)] s))"

section \<open>Invariant\<close>

text \<open>
  Both sides of the bookkeeping agree, no list is empty or has duplicates, and a client is
  in the Pub/Sub state exactly if it has a subscription.
\<close>

definition client_of :: "nat \<Rightarrow> (nat \<times> byte list) list \<Rightarrow> byte list list" where
  "client_of c l = map snd (filter (\<lambda>x. fst x = c) l)"

definition chan_clients :: "pserver \<Rightarrow> byte list \<Rightarrow> nat list" where
  "chan_clients s ch = (case ps_channels s ch of None \<Rightarrow> [] | Some l \<Rightarrow> l)"

definition sub_inv :: "pserver \<Rightarrow> bool" where
  "sub_inv s \<longleftrightarrow>
     (\<forall>c ch. ch \<in> pc_channels (ps_client s c) \<longleftrightarrow> c \<in> set (chan_clients s ch))
   \<and> (\<forall>ch. distinct (chan_clients s ch) \<and> ps_channels s ch \<noteq> Some [])
   \<and> (\<forall>c. client_of c (ps_patterns s) = pc_patterns (ps_client s c))
   \<and> (\<forall>c. distinct (pc_patterns (ps_client s c)) \<and> finite (pc_channels (ps_client s c)))"

definition subscribed :: "nat \<Rightarrow> pserver \<Rightarrow> bool" where
  "subscribed c s \<longleftrightarrow> pc_channels (ps_client s c) \<noteq> {} \<or> pc_patterns (ps_client s c) \<noteq> []"

definition pubsub_inv :: "pserver \<Rightarrow> bool" where
  "pubsub_inv s \<longleftrightarrow> sub_inv s \<and> (\<forall>c. pc_pubsub (ps_client s c) \<longleftrightarrow> subscribed c s)"

definition subs :: "nat \<Rightarrow> pserver \<Rightarrow> byte list set \<times> byte list set" where
  "subs c s = (pc_channels (ps_client s c), set (pc_patterns (ps_client s c)))"

definition only_client :: "nat \<Rightarrow> pserver \<Rightarrow> pserver \<Rightarrow> bool" where
  "only_client c s s' \<longleftrightarrow> (\<forall>d. d \<noteq> c \<longrightarrow> ps_client s' d = ps_client s d)
     \<and> pc_pubsub (ps_client s' c) = pc_pubsub (ps_client s c)"

lemma client_of_simps [simp]:
  "client_of c [] = []" "client_of c (l @ m) = client_of c l @ client_of c m"
  "client_of c ((d, p) # l) = (if d = c then p # client_of c l else client_of c l)"
  by (simp_all add: client_of_def)

lemma client_of_remove1: "client_of d (remove1 (c, p) l) = (if d = c then remove1 p (client_of d l) else client_of d l)"
  by (induction l) (auto simp: client_of_def)

lemma client_of_mem: "p \<in> set (client_of c l) \<longleftrightarrow> (c, p) \<in> set l"
  by (force simp: client_of_def)

lemma only_client_refl [simp]: "only_client c s s"
  by (simp add: only_client_def)

lemma only_client_trans: "only_client c s t \<Longrightarrow> only_client c t u \<Longrightarrow> only_client c s u"
  by (simp add: only_client_def)

lemma addReplies_simps [simp]:
  "ps_channels (addReplies c r s) = ps_channels s" "ps_patterns (addReplies c r s) = ps_patterns s"
  "pc_channels (ps_client (addReplies c r s) d) = pc_channels (ps_client s d)"
  "pc_patterns (ps_client (addReplies c r s) d) = pc_patterns (ps_client s d)"
  "pc_pubsub (ps_client (addReplies c r s) d) = pc_pubsub (ps_client s d)"
  "only_client c s (addReplies c r t) = only_client c s t"
  "d \<noteq> c \<Longrightarrow> ps_client (addReplies c r s) d = ps_client s d"
  by (simp_all add: addReplies_def upd_pclient_def only_client_def)

lemma sub_inv_addReplies [simp]: "sub_inv (addReplies c r s) = sub_inv s"
  by (simp add: sub_inv_def chan_clients_def)

lemma subs_addReplies [simp]: "subs d (addReplies c r s) = subs d s"
  by (simp add: subs_def)

lemma subscribed_subs: "subscribed c s \<longleftrightarrow> subs c s \<noteq> ({}, {})"
  by (simp add: subs_def subscribed_def)

lemma sub_invD:
  assumes "sub_inv s"
  shows "ch \<in> pc_channels (ps_client s c) \<longleftrightarrow> c \<in> set (chan_clients s ch)"
    and "distinct (chan_clients s ch)" "ps_channels s ch \<noteq> Some []"
    and "client_of c (ps_patterns s) = pc_patterns (ps_client s c)"
    and "distinct (pc_patterns (ps_client s c))" "finite (pc_channels (ps_client s c))"
  using assms by (simp_all add: sub_inv_def)

lemma set_channels_ok:
  assumes "sub_inv s" "distinct l"
    and l: "\<And>d. d \<in> set l \<longleftrightarrow> (if d = c then b else d \<in> set (chan_clients s ch))"
    and t: "t = (upd_pclient c (\<lambda>x. x\<lparr>pc_channels := (if b then insert ch (pc_channels x) else pc_channels x - {ch})\<rparr>) s)
      \<lparr>ps_channels := (ps_channels s)(ch := (if l = [] then None else Some l))\<rparr>"
  shows "sub_inv t \<and> only_client c s t"
proof -
  have cl: "chan_clients t = (chan_clients s)(ch := l)"
    by (simp add: chan_clients_def fun_eq_iff t)
  note inv = sub_invD [OF assms(1)]
  have "ch' \<in> pc_channels (ps_client t d) \<longleftrightarrow> d \<in> set (chan_clients t ch')" for d ch'
    unfolding cl by (simp add: t upd_pclient_def inv(1) l)
  moreover have "distinct (chan_clients t ch')" "ps_channels t ch' \<noteq> Some []" for ch'
    unfolding cl using assms(2) inv by (simp_all add: t)
  moreover have "client_of d (ps_patterns t) = pc_patterns (ps_client t d)"
      "distinct (pc_patterns (ps_client t d))" "finite (pc_channels (ps_client t d))" for d
    using inv by (simp_all add: t upd_pclient_def)
  ultimately show ?thesis
    by (simp add: sub_inv_def only_client_def) (simp add: t upd_pclient_def)
qed

lemma set_patterns_ok:
  assumes "sub_inv s" "distinct ps"
    and l: "\<And>d. client_of d l = (if d = c then ps else client_of d (ps_patterns s))"
    and t: "t = (upd_pclient c (\<lambda>x. x\<lparr>pc_patterns := ps\<rparr>) s)\<lparr>ps_patterns := l\<rparr>"
  shows "sub_inv t \<and> only_client c s t"
proof -
  have cl: "chan_clients t = chan_clients s"
    by (simp add: chan_clients_def fun_eq_iff t upd_pclient_def)
  note inv = sub_invD [OF assms(1)]
  have "ch' \<in> pc_channels (ps_client t d) \<longleftrightarrow> d \<in> set (chan_clients t ch')" for d ch'
    unfolding cl by (simp add: t upd_pclient_def inv(1))
  moreover have "distinct (chan_clients t ch')" "ps_channels t ch' \<noteq> Some []" for ch'
    unfolding cl using inv by (simp_all add: t upd_pclient_def)
  moreover have "client_of d (ps_patterns t) = pc_patterns (ps_client t d)"
      "distinct (pc_patterns (ps_client t d))" "finite (pc_channels (ps_client t d))" for d
    using inv assms(2) by (simp_all add: t upd_pclient_def l)
  ultimately show ?thesis
    by (simp add: sub_inv_def only_client_def) (simp add: t upd_pclient_def)
qed

lemma subscribeChannel_ok:
  assumes "sub_inv s" and s': "s' = snd (pubsubSubscribeChannel c ch s)"
  shows "sub_inv s' \<and> only_client c s s' \<and> subs c s' = (insert ch (fst (subs c s)), snd (subs c s))"
proof (cases "ch \<in> pc_channels (ps_client s c)")
  case True
  then show ?thesis using assms(1) unfolding s' pubsubSubscribeChannel_def Let_def by (auto simp: subs_def insert_absorb)
next
  case False
  let ?l = "chan_clients s ch @ [c]"
  let ?t = "(upd_pclient c (\<lambda>x. x\<lparr>pc_channels := insert ch (pc_channels x)\<rparr>) s)
    \<lparr>ps_channels := (ps_channels s)(ch \<mapsto> ?l)\<rparr>"
  have "sub_inv ?t \<and> only_client c s ?t"
    by (rule set_channels_ok [where b = True and l = ?l]) (use False assms(1) sub_invD in auto)
  moreover have "s' = addReplies c
      [PMulti 3, PBulk (str ''subscribe''), PBulk ch, PInt (clientSubscriptionsCount c ?t)] ?t"
    using False unfolding s' pubsubSubscribeChannel_def Let_def
    by (simp add: chan_clients_def upd_pclient_def)
  moreover have "subs c ?t = (insert ch (fst (subs c s)), snd (subs c s))"
    by (simp add: subs_def upd_pclient_def)
  ultimately show ?thesis by simp
qed

lemma subscribePattern_ok:
  assumes "sub_inv s" and s': "s' = snd (pubsubSubscribePattern c p s)"
  shows "sub_inv s' \<and> only_client c s s' \<and> subs c s' = (fst (subs c s), insert p (snd (subs c s)))"
proof (cases "p \<in> set (pc_patterns (ps_client s c))")
  case True
  then show ?thesis using assms(1) unfolding s' pubsubSubscribePattern_def Let_def by (auto simp: subs_def insert_absorb)
next
  case False
  let ?t = "(upd_pclient c (\<lambda>x. x\<lparr>pc_patterns := pc_patterns x @ [p]\<rparr>) s)
    \<lparr>ps_patterns := ps_patterns s @ [(c, p)]\<rparr>"
  have "sub_inv ?t \<and> only_client c s ?t"
    by (rule set_patterns_ok [where ps = "pc_patterns (ps_client s c) @ [p]" and l = "ps_patterns s @ [(c, p)]"])
       (use False assms(1) sub_invD [OF assms(1)] in \<open>auto simp: upd_pclient_def\<close>)
  moreover have "s' = addReplies c
      [PMulti 3, PBulk (str ''psubscribe''), PBulk p, PInt (clientSubscriptionsCount c ?t)] ?t"
    using False unfolding s' pubsubSubscribePattern_def Let_def by (simp add: upd_pclient_def)
  moreover have "subs c ?t = (fst (subs c s), insert p (snd (subs c s)))"
    by (simp add: subs_def upd_pclient_def)
  ultimately show ?thesis by simp
qed

lemma unsubscribeChannel_ok:
  assumes "sub_inv s"
  shows "\<exists>s'. pubsubUnsubscribeChannel c ch notify s = Some (ch \<in> pc_channels (ps_client s c), s')
     \<and> sub_inv s' \<and> only_client c s s'
     \<and> subs c s' = (fst (subs c s) - {ch}, snd (subs c s))"
proof (cases "ch \<in> pc_channels (ps_client s c)")
  case False
  then show ?thesis using assms by (simp add: pubsubUnsubscribeChannel_def subs_def)
next
  case True
  note inv = sub_invD [OF assms]
  have c: "c \<in> set (chan_clients s ch)" using True inv(1) by blast
  then have l: "ps_channels s ch = Some (chan_clients s ch)"
    by (cases "ps_channels s ch") (simp_all add: chan_clients_def)
  let ?l = "remove1 c (chan_clients s ch)"
  let ?t = "(upd_pclient c (\<lambda>x. x\<lparr>pc_channels := pc_channels x - {ch}\<rparr>) s)
     \<lparr>ps_channels := (ps_channels s)(ch := (if ?l = [] then None else Some ?l))\<rparr>"
  have "sub_inv ?t \<and> only_client c s ?t"
    by (rule set_channels_ok [where b = False and l = ?l]) (use assms inv(2) in \<open>simp_all\<close>)
  moreover have "pubsubUnsubscribeChannel c ch notify s = Some (True, if notify then
      addReplies c [PMulti 3, PBulk (str ''unsubscribe''), PBulk ch, PInt (clientSubscriptionsCount c ?t)] ?t else ?t)"
    using True c l unfolding pubsubUnsubscribeChannel_def Let_def by (simp add: upd_pclient_def)
  moreover have "subs c ?t = (fst (subs c s) - {ch}, snd (subs c s))"
    by (simp add: upd_pclient_def subs_def)
  ultimately show ?thesis using True by (simp del: pserver.simps)
qed

lemma unsubscribePattern_ok:
  assumes "sub_inv s"
  shows "\<exists>s'. pubsubUnsubscribePattern c p notify s = Some (p \<in> set (pc_patterns (ps_client s c)), s')
     \<and> sub_inv s' \<and> only_client c s s'
     \<and> subs c s' = (fst (subs c s), snd (subs c s) - {p})"
proof (cases "p \<in> set (pc_patterns (ps_client s c))")
  case False
  then show ?thesis using assms by (simp add: pubsubUnsubscribePattern_def subs_def)
next
  case True
  note inv = sub_invD [OF assms]
  have m: "(c, p) \<in> set (ps_patterns s)"
    using True client_of_mem inv(4) by metis
  let ?t = "(upd_pclient c (\<lambda>x. x\<lparr>pc_patterns := remove1 p (pc_patterns x)\<rparr>) s)
     \<lparr>ps_patterns := remove1 (c, p) (ps_patterns s)\<rparr>"
  have "sub_inv ?t \<and> only_client c s ?t"
    by (rule set_patterns_ok [where ps = "remove1 p (pc_patterns (ps_client s c))" and l = "remove1 (c, p) (ps_patterns s)"])
       (use assms inv in \<open>simp_all add: client_of_remove1 upd_pclient_def\<close>)
  moreover have "pubsubUnsubscribePattern c p notify s = Some (True, if notify then
      addReplies c [PMulti 3, PBulk (str ''punsubscribe''), PBulk p, PInt (clientSubscriptionsCount c ?t)] ?t else ?t)"
    using True m unfolding pubsubUnsubscribePattern_def Let_def by (simp add: upd_pclient_def)
  moreover have "subs c ?t = (fst (subs c s), snd (subs c s) - {p})"
    using inv(5) by (simp add: upd_pclient_def subs_def)
  ultimately show ?thesis using True by (simp del: pserver.simps)
qed

lemma subscribe_fold_ok:
  "sub_inv s \<Longrightarrow> s' = fold (\<lambda>ch s. snd (pubsubSubscribeChannel c ch s)) chs s \<Longrightarrow>
     sub_inv s' \<and> only_client c s s' \<and> subs c s' = (fst (subs c s) \<union> set chs, snd (subs c s))"
proof (induction chs arbitrary: s)
  case (Cons ch chs)
  define t where "t = snd (pubsubSubscribeChannel c ch s)"
  have t: "sub_inv t \<and> only_client c s t \<and> subs c t = (insert ch (fst (subs c s)), snd (subs c s))"
    by (rule subscribeChannel_ok [OF Cons.prems(1) t_def])
  have "sub_inv s' \<and> only_client c t s' \<and> subs c s' = (fst (subs c t) \<union> set chs, snd (subs c t))"
    by (rule Cons.IH) (use t Cons.prems in \<open>simp_all add: t_def\<close>)
  then show ?case using t only_client_trans by auto
qed simp

lemma psubscribe_fold_ok:
  "sub_inv s \<Longrightarrow> s' = fold (\<lambda>p s. snd (pubsubSubscribePattern c p s)) pats s \<Longrightarrow>
     sub_inv s' \<and> only_client c s s' \<and> subs c s' = (fst (subs c s), snd (subs c s) \<union> set pats)"
proof (induction pats arbitrary: s)
  case (Cons p pats)
  define t where "t = snd (pubsubSubscribePattern c p s)"
  have t: "sub_inv t \<and> only_client c s t \<and> subs c t = (fst (subs c s), insert p (snd (subs c s)))"
    by (rule subscribePattern_ok [OF Cons.prems(1) t_def])
  have "sub_inv s' \<and> only_client c t s' \<and> subs c s' = (fst (subs c t), snd (subs c t) \<union> set pats)"
    by (rule Cons.IH) (use t Cons.prems in \<open>simp_all add: t_def\<close>)
  then show ?case using t only_client_trans by auto
qed simp

lemma unsubscribe_loop_ok:
  "sub_inv s \<Longrightarrow> \<exists>n s'. unsubscribe_loop c notify chs k s = Some (n, s')
     \<and> sub_inv s' \<and> only_client c s s' \<and> subs c s' = (fst (subs c s) - set chs, snd (subs c s))"
proof (induction chs arbitrary: s k)
  case (Cons ch chs)
  obtain t where t: "pubsubUnsubscribeChannel c ch notify s = Some (ch \<in> pc_channels (ps_client s c), t)"
    "sub_inv t" "only_client c s t" "subs c t = (fst (subs c s) - {ch}, snd (subs c s))"
    using unsubscribeChannel_ok [OF Cons.prems] by blast
  obtain n s' where "unsubscribe_loop c notify chs (k + of_bool (ch \<in> pc_channels (ps_client s c))) t = Some (n, s')"
    "sub_inv s'" "only_client c t s'" "subs c s' = (fst (subs c t) - set chs, snd (subs c t))"
    using Cons.IH [OF t(2)] by blast
  then show ?case using t only_client_trans by auto
qed simp

lemma punsubscribe_loop_ok:
  "sub_inv s \<Longrightarrow> \<exists>n s'. punsubscribe_loop c notify pats k s = Some (n, s')
     \<and> sub_inv s' \<and> only_client c s s' \<and> subs c s' = (fst (subs c s), snd (subs c s) - set pats)"
proof (induction pats arbitrary: s k)
  case (Cons p pats)
  obtain t where t: "pubsubUnsubscribePattern c p notify s = Some (p \<in> set (pc_patterns (ps_client s c)), t)"
    "sub_inv t" "only_client c s t" "subs c t = (fst (subs c s), snd (subs c s) - {p})"
    using unsubscribePattern_ok [OF Cons.prems] by blast
  obtain n s' where "punsubscribe_loop c notify pats (k + of_bool (p \<in> set (pc_patterns (ps_client s c)))) t = Some (n, s')"
    "sub_inv s'" "only_client c t s'" "subs c s' = (fst (subs c t), snd (subs c t) - set pats)"
    using Cons.IH [OF t(2)] by blast
  then show ?case using t only_client_trans by auto
qed simp

text \<open>A command ends by setting the client's flag to whether it has subscriptions.\<close>

lemma set_flag_ok:
  assumes "pubsub_inv s" "sub_inv t" "only_client c s t" "b \<longleftrightarrow> subscribed c t"
    and u: "u = upd_pclient c (\<lambda>x. x\<lparr>pc_pubsub := b\<rparr>) t"
  shows "pubsub_inv u \<and> (\<forall>d. subs d u = (if d = c then subs c t else subs d s))"
proof -
  have "chan_clients u = chan_clients t"
    by (simp add: u chan_clients_def upd_pclient_def fun_eq_iff)
  then have "sub_inv u"
    using assms(2) by (simp add: sub_inv_def u upd_pclient_def)
  then show ?thesis
    using assms(1,3,4) by (auto simp: pubsub_inv_def u upd_pclient_def only_client_def subscribed_def subs_def)
qed

lemma leave_pubsub_ok:
  assumes "pubsub_inv s" "sub_inv t" "only_client c s t" "subscribed c t \<Longrightarrow> subscribed c s"
  shows "pubsub_inv (leave_pubsub c t) \<and> (\<forall>d. subs d (leave_pubsub c t) = (if d = c then subs c t else subs d s))"
proof -
  have count: "clientSubscriptionsCount c t = 0 \<longleftrightarrow> \<not> subscribed c t"
    using sub_invD(6) [OF assms(2)] by (auto simp: clientSubscriptionsCount_def subscribed_def)
  have flag: "pc_pubsub (ps_client t c)" if "subscribed c t"
    using that assms(1,3,4) by (simp add: pubsub_inv_def only_client_def)
  have "leave_pubsub c t = upd_pclient c (\<lambda>x. x\<lparr>pc_pubsub := subscribed c t\<rparr>) t"
    using flag by (auto simp: leave_pubsub_def count upd_pclient_def fun_upd_idem)
  then show ?thesis
    by (rule set_flag_ok [OF assms(1-3) refl])
qed

section \<open>Histories\<close>

datatype pubsub_event = Subscribe nat "byte list list" | Unsubscribe nat "byte list list"
  | PSubscribe nat "byte list list" | PUnsubscribe nat "byte list list"

fun arity_ok :: "pubsub_event \<Rightarrow> bool" where
  "arity_ok (Subscribe c args) \<longleftrightarrow> args \<noteq> []"
| "arity_ok (PSubscribe c args) \<longleftrightarrow> args \<noteq> []"
| "arity_ok _ \<longleftrightarrow> True"

fun pubsub_step :: "(byte list set \<Rightarrow> byte list list) \<Rightarrow> pubsub_event \<Rightarrow> pserver \<Rightarrow> pserver option" where
  "pubsub_step iter (Subscribe c args) s = Some (subscribeCommand c args s)"
| "pubsub_step iter (Unsubscribe c args) s = unsubscribeCommand (iter (pc_channels (ps_client s c))) c args s"
| "pubsub_step iter (PSubscribe c args) s = Some (psubscribeCommand c args s)"
| "pubsub_step iter (PUnsubscribe c args) s = punsubscribeCommand c args s"

fun pubsub_run :: "(byte list set \<Rightarrow> byte list list) \<Rightarrow> pubsub_event list \<Rightarrow> pserver \<Rightarrow> pserver option" where
  "pubsub_run iter [] s = Some s"
| "pubsub_run iter (e # es) s = do { s \<leftarrow> pubsub_step iter e s; pubsub_run iter es s }"

text \<open>The specification: every client has a set of channels and a set of patterns.\<close>

type_synonym pubsub_spec = "nat \<Rightarrow> byte list set \<times> byte list set"

fun spec_step :: "pubsub_event \<Rightarrow> pubsub_spec \<Rightarrow> pubsub_spec" where
  "spec_step (Subscribe c args) a = a(c := (fst (a c) \<union> set args, snd (a c)))"
| "spec_step (Unsubscribe c args) a = a(c := (if args = [] then {} else fst (a c) - set args, snd (a c)))"
| "spec_step (PSubscribe c args) a = a(c := (fst (a c), snd (a c) \<union> set args))"
| "spec_step (PUnsubscribe c args) a = a(c := (fst (a c), if args = [] then {} else snd (a c) - set args))"

lemma pubsub_step_ok:
  assumes iter: "\<And>S. finite S \<Longrightarrow> set (iter S) = S" and s: "pubsub_inv s" and e: "arity_ok e"
  shows "\<exists>s'. pubsub_step iter e s = Some s' \<and> pubsub_inv s'
    \<and> (\<lambda>c. subs c s') = spec_step e (\<lambda>c. subs c s)"
proof -
  have inv: "sub_inv s" using s by (simp add: pubsub_inv_def)
  show ?thesis
  proof (cases e)
    case (Subscribe c args)
    define t where "t = fold (\<lambda>ch s. snd (pubsubSubscribeChannel c ch s)) args s"
    have t: "sub_inv t" "only_client c s t" "subs c t = (fst (subs c s) \<union> set args, snd (subs c s))"
      using subscribe_fold_ok [OF inv t_def] by simp_all
    have "True \<longleftrightarrow> subscribed c t" using e t(3) by (simp add: subscribed_subs Subscribe)
    from set_flag_ok [OF s t(1,2) this refl] show ?thesis
      using t(3) by (simp add: Subscribe subscribeCommand_def t_def [symmetric] fun_eq_iff)
  next
    case (PSubscribe c args)
    define t where "t = fold (\<lambda>p s. snd (pubsubSubscribePattern c p s)) args s"
    have t: "sub_inv t" "only_client c s t" "subs c t = (fst (subs c s), snd (subs c s) \<union> set args)"
      using psubscribe_fold_ok [OF inv t_def] by simp_all
    have "True \<longleftrightarrow> subscribed c t" using e t(3) by (simp add: subscribed_subs PSubscribe)
    from set_flag_ok [OF s t(1,2) this refl] show ?thesis
      using t(3) by (simp add: PSubscribe psubscribeCommand_def t_def [symmetric] fun_eq_iff)
  next
    case (Unsubscribe c args)
    let ?chs = "if args = [] then iter (pc_channels (ps_client s c)) else args"
    have chs: "fst (subs c s) - set ?chs = (if args = [] then {} else fst (subs c s) - set args)"
      using iter [OF sub_invD(6) [OF inv]] by (simp add: subs_def)
    obtain n t where t: "unsubscribe_loop c True ?chs 0 s = Some (n, t)" "sub_inv t" "only_client c s t"
        "subs c t = (fst (subs c s) - set ?chs, snd (subs c s))"
      using unsubscribe_loop_ok [OF inv] by blast
    define u where "u = (if args = [] \<and> n = 0 then
      addReplies c [PMulti 3, PBulk (str ''unsubscribe''), PNullBulk, PInt (clientSubscriptionsCount c t)] t else t)"
    have u: "pubsub_step iter e s = Some (leave_pubsub c u)" "sub_inv u" "only_client c s u" "subs c u = subs c t"
      using t by (auto simp: u_def Unsubscribe unsubscribeCommand_def pubsubUnsubscribeAllChannels_def split: if_splits)
    have "subscribed c u \<Longrightarrow> subscribed c s" using t(4) u(4) by (auto simp: subscribed_subs)
    from leave_pubsub_ok [OF s u(2,3) this] show ?thesis
      using u(1,4) t(4) by (simp add: chs Unsubscribe fun_eq_iff)
  next
    case (PUnsubscribe c args)
    let ?pats = "if args = [] then pc_patterns (ps_client s c) else args"
    have pats: "snd (subs c s) - set ?pats = (if args = [] then {} else snd (subs c s) - set args)"
      by (simp add: subs_def)
    obtain n t where t: "punsubscribe_loop c True ?pats 0 s = Some (n, t)" "sub_inv t" "only_client c s t"
        "subs c t = (fst (subs c s), snd (subs c s) - set ?pats)"
      using punsubscribe_loop_ok [OF inv] by blast
    define u where "u = (if args = [] \<and> n = 0 then
      addReplies c [PMulti 3, PBulk (str ''punsubscribe''), PNullBulk, PInt (clientSubscriptionsCount c t)] t else t)"
    have u: "pubsub_step iter e s = Some (leave_pubsub c u)" "sub_inv u" "only_client c s u" "subs c u = subs c t"
      using t by (auto simp: u_def PUnsubscribe punsubscribeCommand_def pubsubUnsubscribeAllPatterns_def split: if_splits)
    have "subscribed c u \<Longrightarrow> subscribed c s" using t(4) u(4) by (auto simp: subscribed_subs)
    from leave_pubsub_ok [OF s u(2,3) this] show ?thesis
      using u(1,4) t(4) by (simp add: pats PUnsubscribe fun_eq_iff)
  qed
qed

lemma pubsub_run_ok:
  assumes iter: "\<And>S. finite S \<Longrightarrow> set (iter S) = S"
  shows "pubsub_inv s \<Longrightarrow> \<forall>e \<in> set es. arity_ok e \<Longrightarrow> \<exists>s'. pubsub_run iter es s = Some s' \<and> pubsub_inv s'
    \<and> (\<lambda>c. subs c s') = fold spec_step es (\<lambda>c. subs c s)"
proof (induction es arbitrary: s)
  case (Cons e es)
  then obtain t where t: "pubsub_step iter e s = Some t" "pubsub_inv t" "(\<lambda>c. subs c t) = spec_step e (\<lambda>c. subs c s)"
    using pubsub_step_ok [of iter s e, OF iter] by auto
  show ?case using Cons.IH [OF t(2)] Cons.prems(2) t(1,3) by simp
qed simp

definition pubsub_init :: "bool \<Rightarrow> pserver" where
  "pubsub_init cluster = \<lparr>ps_client = (\<lambda>_. \<lparr>pc_channels = {}, pc_patterns = [], pc_pubsub = False, pc_replies = []\<rparr>),
     ps_channels = Map.empty, ps_patterns = [], ps_cluster = cluster, ps_cluster_sent = [], ps_forced = []\<rparr>"

lemma pubsub_inv_init: "pubsub_inv (pubsub_init cl)"
  by (simp add: pubsub_inv_def sub_inv_def pubsub_init_def subscribed_def chan_clients_def)

text \<open>
  C28. After every history of SUBSCRIBE, UNSUBSCRIBE, PSUBSCRIBE and PUNSUBSCRIBE no assertion
  has failed, every client has exactly the subscriptions the commands ask for, the lists of
  the server agree with those of the clients, and a client is in the Pub/Sub state exactly
  if it has a subscription. \<open>iter\<close> is the order of a dictionary iterator, which returns
  every key.
\<close>

theorem pubsub_refines:
  assumes "\<And>S. finite S \<Longrightarrow> set (iter S) = S" and "\<forall>e \<in> set es. arity_ok e"
  shows "\<exists>s. pubsub_run iter es (pubsub_init cl) = Some s \<and> pubsub_inv s
    \<and> (\<lambda>c. subs c s) = fold spec_step es (\<lambda>c. ({}, {}))"
  using pubsub_run_ok [OF assms(1) pubsub_inv_init assms(2)]
  by (simp add: subs_def pubsub_init_def)

theorem pubsub_refines_witness:
  "\<exists>s. pubsub_run sorted_list_of_set [Subscribe 1 [str ''a'', str ''b''], PSubscribe 2 [str ''a*''], Unsubscribe 1 []]
         (pubsub_init False) = Some s
     \<and> subs 1 s = ({}, {}) \<and> subs 2 s = ({}, {str ''a*''}) \<and> \<not> pc_pubsub (ps_client s 1)"
proof -
  obtain s where s: "pubsub_run sorted_list_of_set
      [Subscribe 1 [str ''a'', str ''b''], PSubscribe 2 [str ''a*''], Unsubscribe 1 []] (pubsub_init False) = Some s"
    "pubsub_inv s" "(\<lambda>c. subs c s) = fold spec_step
      [Subscribe 1 [str ''a'', str ''b''], PSubscribe 2 [str ''a*''], Unsubscribe 1 []] (\<lambda>c. ({}, {}))"
    using pubsub_refines [of sorted_list_of_set
      "[Subscribe 1 [str ''a'', str ''b''], PSubscribe 2 [str ''a*''], Unsubscribe 1 []]" False] by auto
  from fun_cong [OF s(3), of 1] fun_cong [OF s(3), of 2] show ?thesis
    using s(1,2) by (intro exI [of _ s]) (simp add: pubsub_inv_def subscribed_subs)
qed

section \<open>Publishing\<close>

lemma fold_addReplies:
  "distinct l \<Longrightarrow> ps_client (fold (\<lambda>c. addReplies c r) l s) d =
     (if d \<in> set l then (ps_client s d)\<lparr>pc_replies := pc_replies (ps_client s d) @ r\<rparr> else ps_client s d)"
  by (induction l arbitrary: s) (auto simp: addReplies_def upd_pclient_def)

lemma fold_addReplies_server:
  "ps_channels (fold (\<lambda>c. addReplies c r) l s) = ps_channels s \<and> ps_patterns (fold (\<lambda>c. addReplies c r) l s) = ps_patterns s"
  by (induction l arbitrary: s) auto

lemma publish_patterns_ok:
  "\<forall>(c, p) \<in> set pats. sds_match False p ch \<noteq> None \<Longrightarrow>
   \<exists>s'. publish_patterns ch msg pats n s = Some (n + length (filter (\<lambda>(c, p). sds_match False p ch = Some True) pats), s')
     \<and> ps_channels s' = ps_channels s \<and> ps_patterns s' = ps_patterns s
     \<and> (\<forall>d. ps_client s' d = (ps_client s d)\<lparr>pc_replies := pc_replies (ps_client s d) @
          concat (map (pmessage_replies ch msg) (filter (\<lambda>p. sds_match False p ch = Some True) (client_of d pats)))\<rparr>)"
proof (induction pats arbitrary: n s)
  case (Cons x pats)
  obtain c p b where x: "x = (c, p)" "sds_match False p ch = Some b" using Cons.prems by (cases x) auto
  have all: "\<forall>(c, p) \<in> set pats. sds_match False p ch \<noteq> None" using Cons.prems by simp
  show ?case
  proof (cases b)
    case False
    then show ?thesis using Cons.IH [OF all, of n s] x by simp
  next
    case True
    let ?t = "addReplies c (pmessage_replies ch msg p) s"
    show ?thesis
      using Cons.IH [OF all, of "n + 1" ?t] x True
      by (auto simp: addReplies_def upd_pclient_def)
  qed
qed simp

lemma publish_delivers:
  assumes "pubsub_inv s" and "\<And>c p. p \<in> snd (subs c s) \<Longrightarrow> sds_match False p channel \<noteq> None"
  shows "\<exists>s'. pubsubPublishMessage channel message s =
      Some (card {c. channel \<in> fst (subs c s)}
            + length (filter (\<lambda>(c, p). sds_match False p channel = Some True) (ps_patterns s)), s')
    \<and> pubsub_inv s'
    \<and> (\<forall>d. subs d s' = subs d s \<and> pc_patterns (ps_client s' d) = pc_patterns (ps_client s d) \<and> pc_replies (ps_client s' d) = pc_replies (ps_client s d)
        @ (if channel \<in> fst (subs d s) then message_replies channel message else [])
        @ concat (map (pmessage_replies channel message)
            (filter (\<lambda>p. sds_match False p channel = Some True) (pc_patterns (ps_client s d)))))"
proof -
  have inv: "sub_inv s" using assms(1) by (simp add: pubsub_inv_def)
  let ?l = "chan_clients s channel"
  let ?t = "fold (\<lambda>c. addReplies c (message_replies channel message)) ?l s"
  have l: "{c. channel \<in> fst (subs c s)} = set ?l" "distinct ?l" "\<And>d. channel \<in> fst (subs d s) \<longleftrightarrow> d \<in> set ?l"
    using sub_invD [OF inv] by (auto simp: subs_def)
  have t: "ps_channels ?t = ps_channels s" "ps_patterns ?t = ps_patterns s"
    using fold_addReplies_server by auto
  have "\<forall>(c, p) \<in> set (ps_patterns s). sds_match False p channel \<noteq> None"
    using assms(2) by (auto simp: subs_def sub_invD(4) [OF inv, symmetric] client_of_mem)
  from publish_patterns_ok [OF this, of message "length ?l" ?t] obtain s' where
    s': "publish_patterns channel message (ps_patterns s) (length ?l) ?t =
        Some (length ?l + length (filter (\<lambda>(c, p). sds_match False p channel = Some True) (ps_patterns s)), s')"
      "ps_channels s' = ps_channels s" "ps_patterns s' = ps_patterns s"
      and cl: "\<And>d. ps_client s' d = (ps_client ?t d)\<lparr>pc_replies := pc_replies (ps_client ?t d) @
          concat (map (pmessage_replies channel message)
            (filter (\<lambda>p. sds_match False p channel = Some True) (client_of d (ps_patterns s))))\<rparr>"
    using t by auto
  have same: "pc_channels (ps_client s' d) = pc_channels (ps_client s d)"
      "pc_patterns (ps_client s' d) = pc_patterns (ps_client s d)"
      "pc_pubsub (ps_client s' d) = pc_pubsub (ps_client s d)" for d
    by (simp_all add: cl fold_addReplies [OF l(2)])
  have "pubsub_inv s'"
    using assms(1) by (simp add: pubsub_inv_def sub_inv_def subscribed_def chan_clients_def same s'(2,3))
  moreover have "pubsubPublishMessage channel message s =
      Some (length ?l + length (filter (\<lambda>(c, p). sds_match False p channel = Some True) (ps_patterns s)), s')"
    using s'(1) t(2) by (simp add: pubsubPublishMessage_def chan_clients_def Let_def)
  ultimately show ?thesis
    unfolding l(1) distinct_card [OF l(2)]
    by (auto simp: cl fold_addReplies [OF l(2)] l(3) [unfolded subs_def fst_conv] sub_invD(4) [OF inv] same subs_def)
qed

text \<open>
  C29. PUBLISH sends every client the message once for the channel, if it is subscribed to it,
  and once for each of its patterns that match, in the order of their subscription; nobody
  else is sent anything, no subscription changes, and the reply is the number of messages.
  The hypothesis asks that matching the patterns reads no byte outside the strings.
\<close>

theorem publish_exact:
  assumes "pubsub_inv s" and "\<And>c p. p \<in> snd (subs c s) \<Longrightarrow> sds_match False p channel \<noteq> None"
  shows "\<exists>s'. pubsubPublishMessage channel message s =
      Some (card {c. channel \<in> fst (subs c s)}
            + length (filter (\<lambda>(c, p). sds_match False p channel = Some True) (ps_patterns s)), s')
    \<and> pubsub_inv s'
    \<and> (\<forall>d. subs d s' = subs d s \<and> pc_replies (ps_client s' d) = pc_replies (ps_client s d)
        @ (if channel \<in> fst (subs d s) then message_replies channel message else [])
        @ concat (map (pmessage_replies channel message)
            (filter (\<lambda>p. sds_match False p channel = Some True) (pc_patterns (ps_client s d)))))"
  using publish_delivers [of s channel message] assms by blast

theorem publish_exact_witness:
  "\<exists>s'. pubsubPublishMessage (str ''a'') (str ''hi'')
      (psubscribeCommand 2 [str ''a''] (subscribeCommand 1 [str ''a''] (pubsub_init False))) = Some (2, s')"
proof -
  let ?s = "psubscribeCommand 2 [str ''a''] (subscribeCommand 1 [str ''a''] (pubsub_init False))"
  have run: "pubsub_run sorted_list_of_set [Subscribe 1 [str ''a''], PSubscribe 2 [str ''a'']] (pubsub_init False) = Some ?s"
    by simp
  have "\<exists>s. pubsub_run sorted_list_of_set [Subscribe 1 [str ''a''], PSubscribe 2 [str ''a'']] (pubsub_init False) = Some s
      \<and> pubsub_inv s \<and> (\<lambda>c. subs c s) = fold spec_step [Subscribe 1 [str ''a''], PSubscribe 2 [str ''a'']]
          (\<lambda>c. subs c (pubsub_init False))"
    by (rule pubsub_run_ok [OF _ pubsub_inv_init]) simp_all
  then have inv: "pubsub_inv ?s" and subs: "(\<lambda>c. subs c ?s) =
      fold spec_step [Subscribe 1 [str ''a''], PSubscribe 2 [str ''a'']] (\<lambda>c. subs c (pubsub_init False))"
    unfolding run by auto
  have sub: "subs c ?s = (if c = 1 then ({str ''a''}, {}) else if c = 2 then ({}, {str ''a''}) else ({}, {}))" for c
    using fun_cong [OF subs, of c] by (simp add: subs_def pubsub_init_def)
  have match: "sds_match False (str ''a'') (str ''a'') = Some True"
    by code_simp
  have pats: "ps_patterns ?s = [(2, str ''a'')]"
    by (simp add: psubscribeCommand_def subscribeCommand_def pubsubSubscribePattern_def pubsubSubscribeChannel_def
      pubsub_init_def upd_pclient_def addReplies_def)
  have hyp: "p \<in> snd (subs c ?s) \<Longrightarrow> sds_match False p (str ''a'') \<noteq> None" for c p
    unfolding sub using match by (auto split: if_splits)
  have "{c. str ''a'' \<in> fst (subs c ?s)} = {1}"
    unfolding sub by auto
  then have card: "card {c. str ''a'' \<in> fst (subs c ?s)} = 1" by simp
  have count: "length (filter (\<lambda>(c, p). sds_match False p (str ''a'') = Some True) [(2::nat, str ''a'')]) = 1"
    unfolding filter.simps prod.case match by simp
  obtain s' where "pubsubPublishMessage (str ''a'') (str ''hi'') ?s = Some (card {c. str ''a'' \<in> fst (subs c ?s)}
      + length (filter (\<lambda>(c, p). sds_match False p (str ''a'') = Some True) (ps_patterns ?s)), s')"
    by (rule exE [OF publish_exact [of ?s "str ''a''" "str ''hi''", OF inv]]) (erule hyp, blast)
  then show ?thesis unfolding card pats count by (metis one_add_one)
qed

end
