(* ===== verification/Util.thy ===== *)
theory Util
  imports Prelude
begin

text \<open>
  The number conversions of \<open>util.c\<close>: \<open>digits10\<close>, \<open>sdigits10\<close>, \<open>ll2string\<close>,
  \<open>string2ll\<close> and \<open>string2l\<close>. They decide which strings Redis stores as integers
  (object, ziplist, intset and RDB encodings), so their exactness matters: a string
  accepted by \<open>string2ll\<close> is thrown away and printed back by \<open>ll2string\<close>.

  A \<open>long long\<close> is an \<open>int\<close> within \<open>INT64_MIN\<close> and \<open>INT64_MAX\<close>; an
  \<open>unsigned long long\<close> that is only compared and divided is a \<open>nat\<close>, and one that is
  added to or multiplied is a \<open>64 word\<close>.
\<close>

section \<open>Operations\<close>

fun digits10 :: "nat \<Rightarrow> nat" where
  "digits10 v =
     (if v < 10 then 1
      else if v < 100 then 2
      else if v < 1000 then 3
      else if v < 1000000000000 then
        (if v < 100000000 then
           (if v < 1000000 then
              (if v < 10000 then 4 else 5 + of_bool (v \<ge> 100000))
            else 7 + of_bool (v \<ge> 10000000))
         else if v < 10000000000 then 9 + of_bool (v \<ge> 1000000000)
         else 11 + of_bool (v \<ge> 100000000000))
      else 12 + digits10 (v div 1000000000000))"

declare digits10.simps [simp del]

definition sdigits10 :: "int \<Rightarrow> nat" where
  "sdigits10 v =
     (if v < 0 then
        (let uv = (if v \<noteq> INT64_MIN then nat (- v) else nat INT64_MAX + 1)
         in digits10 uv + 1)
      else digits10 (nat v))"

definition digits :: "byte list" where
  "digits = str (
     ''0001020304050607080910111213141516171819'' @
     ''2021222324252627282930313233343536373839'' @
     ''4041424344454647484950515253545556575859'' @
     ''6061626364656667686970717273747576777879'' @
     ''8081828384858687888990919293949596979899'')"

text \<open>The loop that writes two digits at a time, from the end of the buffer.\<close>

fun ll2string_loop :: "nat \<Rightarrow> int \<Rightarrow> byte list \<Rightarrow> (nat \<times> int \<times> byte list) option" where
  "ll2string_loop value next dst =
     (if value \<ge> 100 then do {
        let i = (value mod 100) * 2;
        dst \<leftarrow> set_at dst next (digits ! (i + 1));
        dst \<leftarrow> set_at dst (next - 1) (digits ! i);
        ll2string_loop (value div 100) (next - 2) dst
      } else Some (value, next, dst))"

declare ll2string_loop.simps [simp del]

text \<open>Handle last 1-2 digits.\<close>

definition ll2string_last :: "nat \<Rightarrow> int \<Rightarrow> byte list \<Rightarrow> byte list option" where
  "ll2string_last value next dst =
     (if value < 10 then set_at dst next (48 + of_nat value)
      else do {
        let i = value * 2;
        dst \<leftarrow> set_at dst next (digits ! (i + 1));
        set_at dst (next - 1) (digits ! i)
      })"

definition ll2string :: "byte list \<Rightarrow> nat \<Rightarrow> int \<Rightarrow> (nat \<times> byte list) option" where
  "ll2string dst dstlen svalue = (
     let (value, negative) =
       (if svalue < 0
        then (if svalue \<noteq> INT64_MIN then nat (- svalue) else nat INT64_MAX + 1, True)
        else (nat svalue, False));
       length = digits10 value + of_bool negative
     in if length \<ge> dstlen then Some (0, dst)
        else do {
          dst \<leftarrow> set_at dst (int length) 0;
          (value, next, dst) \<leftarrow> ll2string_loop value (int length - 1) dst;
          dst \<leftarrow> ll2string_last value next dst;
          dst \<leftarrow> (if negative then set_at dst 0 (of_char CHR ''-'') else Some dst);
          Some (length, dst)
        })"

text \<open>
  \<open>string2ll\<close> reads the bytes of \<open>s\<close> from left to right; \<open>None\<close> is its return value
  0 and \<open>Some value\<close> its return value 1 with the parsed value stored.
\<close>

fun string2ll_loop :: "u64 \<Rightarrow> byte list \<Rightarrow> (u64 \<times> byte list) option" where
  "string2ll_loop v [] = Some (v, [])"
| "string2ll_loop v (c # p) =
     (if 48 \<le> c \<and> c \<le> 57 then
        (if v > - 1 div 10 then None
         else let v = v * 10 in
           if v > - 1 - ucast (c - 48) then None
           else string2ll_loop (v + ucast (c - 48)) p)
      else Some (v, c # p))"

definition string2ll :: "byte list \<Rightarrow> int option" where
  "string2ll s =
     (if s = [] then None
      else if s = [48] then Some 0
      else
        let negative = (hd s = of_char CHR ''-'');
            p = (if negative then tl s else s)
        in case p of
             [] \<Rightarrow> None
           | c # p \<Rightarrow>
               if 49 \<le> c \<and> c \<le> 57 then
                 (case string2ll_loop (ucast (c - 48)) p of
                    None \<Rightarrow> None
                  | Some (v, rest) \<Rightarrow>
                      if rest \<noteq> [] then None
                      else if negative then
                        (if v > 2 ^ 63 then None else Some (sint (- v)))
                      else
                        (if v > 2 ^ 63 - 1 then None else Some (sint v)))
               else if c = 48 \<and> length s = 1 then Some 0
               else None)"

text \<open>On the LP64 targets of Redis a \<open>long\<close> has the range of a \<open>long long\<close>.\<close>

definition string2l :: "byte list \<Rightarrow> int option" where
  "string2l s = (case string2ll s of
       None \<Rightarrow> None
     | Some llval \<Rightarrow> if llval < INT64_MIN \<or> llval > INT64_MAX then None else Some llval)"

section \<open>Decimal notation\<close>

fun dec :: "nat \<Rightarrow> byte list" where
  "dec v = (if v < 10 then [48 + of_nat v] else dec (v div 10) @ [48 + of_nat (v mod 10)])"

declare dec.simps [simp del]

definition sdec :: "int \<Rightarrow> byte list" where
  "sdec v = (if v < 0 then of_char CHR ''-'' # dec (nat (- v)) else dec (nat v))"

lemma dec_small [simp]: "v < 10 \<Longrightarrow> dec v = [48 + of_nat v]"
  by (simp add: dec.simps)

lemma dec_large: "10 \<le> v \<Longrightarrow> dec v = dec (v div 10) @ [48 + of_nat (v mod 10)]"
  by (subst dec.simps) simp

lemma length_dec_le: "v < 10 ^ n \<Longrightarrow> 0 < n \<Longrightarrow> length (dec v) \<le> n"
proof (induction n arbitrary: v)
  case (Suc n)
  show ?case
  proof (cases "v < 10")
    case False
    have "0 < n" using False Suc.prems by (cases n) auto
    moreover have "v div 10 < 10 ^ n" using Suc.prems by (simp add: less_mult_imp_div_less)
    ultimately have "length (dec (v div 10)) \<le> n" using Suc.IH by simp
    with False show ?thesis by (simp add: dec_large)
  qed (simp)
qed simp

lemma length_dec_ge: "10 ^ n \<le> v \<Longrightarrow> n < length (dec v)"
proof (induction n arbitrary: v)
  case 0
  then show ?case by (cases "v < 10") (simp_all add: dec_large)
next
  case (Suc n)
  then have "10 ^ n \<le> v div 10" by auto
  with Suc.IH [of "v div 10"] have "n < length (dec (v div 10))" by simp
  moreover have "10 \<le> v"
  proof -
    have "(10::nat) \<le> 10 ^ Suc n" by simp
    with Suc.prems show ?thesis by linarith
  qed
  ultimately show ?case by (simp add: dec_large)
qed

lemma length_dec: "10 ^ n \<le> v \<Longrightarrow> v < 10 ^ Suc n \<Longrightarrow> length (dec v) = Suc n"
  using length_dec_ge [of n v] length_dec_le [of v "Suc n"] by simp

lemma length_dec_div: "10 ^ k \<le> v \<Longrightarrow> length (dec v) = k + length (dec (v div 10 ^ k))"
proof (induction k arbitrary: v)
  case (Suc k)
  have "(10::nat) \<le> 10 ^ Suc k" by simp
  with Suc.prems have v: "10 \<le> v" by linarith
  have "10 ^ k \<le> v div 10" using Suc.prems by auto
  from Suc.IH [OF this] have "length (dec (v div 10)) = k + length (dec (v div 10 ^ Suc k))"
    by (simp add: div_mult2_eq)
  with dec_large [OF v] show ?case by simp
qed simp

lemma dec_100:
  assumes "100 \<le> v"
  shows "dec v = dec (v div 100) @ [48 + of_nat (v mod 100 div 10), 48 + of_nat (v mod 100 mod 10)]"
proof -
  have "dec v = dec (v div 10) @ [48 + of_nat (v mod 10)]"
    using assms by (intro dec_large) simp
  also have "dec (v div 10) = dec (v div 10 div 10) @ [48 + of_nat (v div 10 mod 10)]"
    using assms by (intro dec_large) linarith
  also have "v div 10 div 10 = v div 100" by (simp add: div_mult2_eq [symmetric])
  also have "v div 10 mod 10 = v mod 100 div 10"
    using mod_mult2_eq [of v 10 10] by simp
  also have "v mod 10 = v mod 100 mod 10" by (simp add: mod_mod_cancel)
  finally show ?thesis by simp
qed

lemma length_dec_interval:
  "10 \<le> v \<Longrightarrow> v < 100 \<Longrightarrow> length (dec v) = 2"
  "100 \<le> v \<Longrightarrow> v < 1000 \<Longrightarrow> length (dec v) = 3"
  "1000 \<le> v \<Longrightarrow> v < 10000 \<Longrightarrow> length (dec v) = 4"
  "10000 \<le> v \<Longrightarrow> v < 100000 \<Longrightarrow> length (dec v) = 5"
  "100000 \<le> v \<Longrightarrow> v < 1000000 \<Longrightarrow> length (dec v) = 6"
  "1000000 \<le> v \<Longrightarrow> v < 10000000 \<Longrightarrow> length (dec v) = 7"
  "10000000 \<le> v \<Longrightarrow> v < 100000000 \<Longrightarrow> length (dec v) = 8"
  "100000000 \<le> v \<Longrightarrow> v < 1000000000 \<Longrightarrow> length (dec v) = 9"
  "1000000000 \<le> v \<Longrightarrow> v < 10000000000 \<Longrightarrow> length (dec v) = 10"
  "10000000000 \<le> v \<Longrightarrow> v < 100000000000 \<Longrightarrow> length (dec v) = 11"
  "100000000000 \<le> v \<Longrightarrow> v < 1000000000000 \<Longrightarrow> length (dec v) = 12"
  using length_dec [of 1 v] length_dec [of 2 v] length_dec [of 3 v] length_dec [of 4 v]
    length_dec [of 5 v] length_dec [of 6 v] length_dec [of 7 v] length_dec [of 8 v]
    length_dec [of 9 v] length_dec [of 10 v] length_dec [of 11 v]
  by simp_all

lemma digits10_dec: "digits10 v = length (dec v)"
proof (induction v rule: digits10.induct)
  case (1 v)
  show ?case
  proof (cases "v < 1000000000000")
    case True
    then show ?thesis
      by (auto simp: digits10.simps [of v] length_dec_interval not_less not_le)
  next
    case False
    then have "length (dec v) = 12 + length (dec (v div 1000000000000))"
      using length_dec_div [of 12 v] by simp
    with False 1 show ?thesis by (simp add: digits10.simps [of v])
  qed
qed

lemma digits_pairs:
  "digits = concat (map (\<lambda>i. [48 + of_nat (i div 10), 48 + of_nat (i mod 10)]) [0..<100])"
  by (simp add: digits_def upt_rec)

lemma nth_concat_pairs:
  "i < length xs \<Longrightarrow> concat (map (\<lambda>x. [f x, g x]) xs) ! (i * 2) = f (xs ! i)"
  "i < length xs \<Longrightarrow> concat (map (\<lambda>x. [f x, g x]) xs) ! (i * 2 + 1) = g (xs ! i)"
proof (induction xs arbitrary: i)
  case (Cons x xs)
  { case 1 then show ?case using Cons by (cases i) auto }
  { case 2 then show ?case using Cons by (cases i) auto }
qed simp_all

lemma digits_table:
  "i < 100 \<Longrightarrow> digits ! (i * 2) = 48 + of_nat (i div 10)"
  "i < 100 \<Longrightarrow> digits ! (i * 2 + 1) = 48 + of_nat (i mod 10)"
  unfolding digits_pairs by (simp_all only: nth_concat_pairs length_upt nth_upt add_0 minus_nat.diff_0)

section \<open>Printing\<close>

lemma drop_two_updates:
  "Suc m < length xs \<Longrightarrow> drop m (xs[Suc m := b, m := a]) = a # b # drop (Suc (Suc m)) xs"
  by (simp add: drop_update_swap Cons_nth_drop_Suc [symmetric])

lemma ll2string_write_pair:
  assumes "length (dec (val div 100)) \<le> Suc m" and "Suc (Suc m) < length dst" and v: "100 \<le> val"
    and IH: "\<And>dst'. length dst' = length dst \<Longrightarrow>
      Option.bind (ll2string_loop (val div 100) (int m) dst') (\<lambda>(v, nx, d). ll2string_last v nx d)
        = Some (take (Suc m - length (dec (val div 100))) dst' @ dec (val div 100) @ drop (Suc m) dst')"
  shows "Option.bind (ll2string_loop val (int (Suc (Suc m))) dst) (\<lambda>(v, nx, d). ll2string_last v nx d)
       = Some (take (Suc (Suc (Suc m)) - length (dec val)) dst @ dec val @ drop (Suc (Suc (Suc m))) dst)"
proof -
  let ?a = "48 + of_nat (val mod 100 div 10) :: byte"
  let ?b = "48 + of_nat (val mod 100 mod 10) :: byte"
  let ?dst = "dst[Suc (Suc m) := ?b, Suc m := ?a]"
  have d: "dec val = dec (val div 100) @ [?a, ?b]" using v by (rule dec_100)
  have i: "val mod 100 < 100" by simp
  have n1: "int (Suc (Suc m)) - 1 = int (Suc m)" and n2: "int (Suc (Suc m)) - 2 = int m" by auto
  have "ll2string_loop val (int (Suc (Suc m))) dst = ll2string_loop (val div 100) (int m) ?dst"
    using v assms(2)
    by (simp only: ll2string_loop.simps [of val] n1 n2 Let_def digits_table [OF i] set_at_nat
        if_True Option.bind.simps length_list_update Suc_lessD)
  moreover have "drop (Suc m) ?dst = ?a # ?b # drop (Suc (Suc (Suc m))) dst"
    using assms(2) by (rule drop_two_updates)
  moreover have "take (Suc m - length (dec (val div 100))) ?dst
      = take (Suc (Suc (Suc m)) - length (dec val)) dst"
    using d by simp
  ultimately show ?thesis using IH [of ?dst] d by simp
qed

lemma ll2string_write:
  assumes "length (dec val) \<le> Suc n" and "n < length dst"
  shows "Option.bind (ll2string_loop val (int n) dst) (\<lambda>(v, nx, d). ll2string_last v nx d)
       = Some (take (Suc n - length (dec val)) dst @ dec val @ drop (Suc n) dst)"
  using assms
proof (induction val arbitrary: n dst rule: less_induct)
  case (less val)
  consider "100 \<le> val" | "val < 10" | "10 \<le> val" "val < 100" by linarith
  then show ?case
  proof cases
    case 1
    have len: "length (dec (val div 100)) + 2 \<le> Suc n"
      using less.prems(1) dec_100 [OF 1] by simp
    moreover have "0 < length (dec (val div 100))" by (subst dec.simps) simp
    ultimately have "2 \<le> n" by linarith
    then obtain m where n: "n = Suc (Suc m)" by (cases n; cases "n - 1") auto
    have "val div 100 < val" using 1 by simp
    from less.IH [OF this] have "length dst' = length dst \<Longrightarrow>
        Option.bind (ll2string_loop (val div 100) (int m) dst') (\<lambda>(v, nx, d). ll2string_last v nx d)
          = Some (take (Suc m - length (dec (val div 100))) dst' @ dec (val div 100) @ drop (Suc m) dst')"
      for dst' using len less.prems(2) n by simp
    with len less.prems(2) 1 show ?thesis
      unfolding n by (intro ll2string_write_pair) simp_all
  next
    case 2
    with less.prems(2) show ?thesis
      by (simp add: ll2string_loop.simps [of val] ll2string_last_def upd_conv_take_nth_drop)
  next
    case 3
    let ?a = "48 + of_nat (val div 10) :: byte"
    let ?b = "48 + of_nat (val mod 10) :: byte"
    have "dec (val div 10) = [?a]" using 3 by (intro dec_small) linarith
    with dec_large [OF 3(1)] have d: "dec val = [?a, ?b]" by simp
    with less.prems(1) obtain m where n: "n = Suc m" by (cases n) auto
    have n1: "int (Suc m) - 1 = int m" by simp
    have "ll2string_last val (int (Suc m)) dst = Some (dst[Suc m := ?b, m := ?a])"
      using 3 less.prems(2) digits_table [of val] set_at_nat [of dst "Suc m"] n1
      by (simp add: ll2string_last_def n Let_def)
    moreover have "dst[Suc m := ?b, m := ?a] = take m dst @ ?a # ?b # drop (Suc (Suc m)) dst"
      using append_take_drop_id [of m "dst[Suc m := ?b, m := ?a]"] drop_two_updates [of m dst ?b ?a]
        less.prems(2) n by simp
    ultimately show ?thesis
      using 3 by (simp add: ll2string_loop.simps [of val] d n)
  qed
qed

lemma dec_nonempty [simp]: "dec v \<noteq> []"
  by (subst dec.simps) simp

lemma ll2string_sdec:
  assumes "INT64_MIN \<le> v" and "dstlen \<le> length dst"
  shows "ll2string dst dstlen v =
    (if length (sdec v) \<ge> dstlen then Some (0, dst)
     else Some (length (sdec v), sdec v @ 0 # drop (Suc (length (sdec v))) dst))"
proof -
  let ?neg = "v < 0"
  let ?val = "nat \<bar>v\<bar>"
  let ?l = "length (sdec v)"
  let ?dst = "dst[?l := 0]"
  have l: "?l = length (dec ?val) + of_bool ?neg" by (simp add: sdec_def)
  have conv: "(if v < 0 then (if v \<noteq> INT64_MIN then nat (- v) else nat INT64_MAX + 1, True)
      else (nat v, False)) = (?val, ?neg)"
    using assms(1) by auto
  show ?thesis
  proof (cases "?l \<ge> dstlen")
    case True
    then show ?thesis
      unfolding ll2string_def conv by (simp add: digits10_dec l)
  next
    case False
    then have lt: "?l < length dst" using assms(2) by simp
    have pos: "0 < length (dec ?val)" by simp
    then have "0 < ?l" using l by linarith
    then have l1: "int ?l - 1 = int (?l - 1)" by linarith
    have "Option.bind (ll2string_loop ?val (int (?l - 1)) ?dst) (\<lambda>(v, nx, d). ll2string_last v nx d)
        = Some (take (Suc (?l - 1) - length (dec ?val)) ?dst @ dec ?val @ drop (Suc (?l - 1)) ?dst)"
      using lt l pos by (intro ll2string_write) auto
    also have "drop (Suc (?l - 1)) ?dst = 0 # drop (Suc ?l) dst"
      using lt pos l by (simp add: drop_update_swap Cons_nth_drop_Suc [symmetric])
    also have "take (Suc (?l - 1) - length (dec ?val)) ?dst = take (of_bool ?neg) dst"
      using pos l by simp
    finally have body: "Option.bind (ll2string_loop ?val (int ?l - 1) ?dst)
          (\<lambda>(v, nx, d). ll2string_last v nx d)
        = Some (take (of_bool ?neg) dst @ dec ?val @ 0 # drop (Suc ?l) dst)"
      by (simp only: l1)
    have "ll2string dst dstlen v = Option.bind (Option.bind (ll2string_loop ?val (int ?l - 1) ?dst)
          (\<lambda>(v, nx, d). ll2string_last v nx d))
        (\<lambda>d. Option.bind (if ?neg then set_at d 0 (of_char CHR ''-'') else Some d) (\<lambda>d. Some (?l, d)))"
      unfolding ll2string_def conv
      using False lt by (simp add: digits10_dec l [symmetric] Let_def split_def bind_assoc)
    also have "\<dots> = Some (?l, sdec v @ 0 # drop (Suc ?l) dst)"
      unfolding body using lt by (cases dst) (auto simp: sdec_def set_at_def)
    finally show ?thesis using False by simp
  qed
qed

section \<open>Parsing\<close>

definition is_digits :: "byte list \<Rightarrow> bool" where
  "is_digits p \<longleftrightarrow> (\<forall>c \<in> set p. 48 \<le> c \<and> c \<le> 57)"

lemma is_digits_simps [simp]:
  "is_digits []"
  "is_digits (c # p) \<longleftrightarrow> 48 \<le> c \<and> c \<le> 57 \<and> is_digits p"
  "is_digits (p @ q) \<longleftrightarrow> is_digits p \<and> is_digits q"
  by (auto simp: is_digits_def)

text \<open>The number that a run of digits denotes when it is appended to \<open>v\<close>.\<close>

fun dval :: "nat \<Rightarrow> byte list \<Rightarrow> nat" where
  "dval v [] = v"
| "dval v (c # p) = dval (v * 10 + unat (c - 48)) p"

lemma dval_ge: "v \<le> dval v p"
proof (induction p arbitrary: v)
  case (Cons c p)
  have "v \<le> v * 10 + unat (c - 48)" by simp
  also have "\<dots> \<le> dval \<dots> p" by (rule Cons.IH)
  finally show ?case by simp
qed simp

lemma dval_append: "dval v (p @ [c]) = dval v p * 10 + unat (c - 48)"
  by (induction p arbitrary: v) auto

lemma digit_unat:
  assumes "48 \<le> c" and "c \<le> (57 :: byte)"
  shows "unat (c - 48) < 10" and "48 + of_nat (unat (c - 48)) = c"
proof -
  have "unat c \<le> 57" and "48 \<le> unat c" using assms by (simp_all add: word_le_nat_alt)
  then show "unat (c - 48) < 10" using assms(1) by (simp add: unat_sub)
qed simp

lemma unat_digit: "e < 10 \<Longrightarrow> unat (48 + of_nat e - 48 :: byte) = e"
  by (simp add: unat_of_nat)

lemma digit_bounds:
  assumes "e < 10"
  shows "48 \<le> (48 + of_nat e :: byte)" and "48 + of_nat e \<le> (57 :: byte)"
    and "0 < e \<Longrightarrow> 49 \<le> (48 + of_nat e :: byte)"
proof -
  have "unat (48 + of_nat e :: byte) = 48 + e"
    using assms by (simp add: unat_word_ariths unat_of_nat)
  then show "48 \<le> (48 + of_nat e :: byte)" and "48 + of_nat e \<le> (57 :: byte)"
    and "0 < e \<Longrightarrow> 49 \<le> (48 + of_nat e :: byte)"
    using assms by (simp_all add: word_le_nat_alt)
qed

lemma dec_step: "0 < x \<Longrightarrow> e < 10 \<Longrightarrow> dec (x * 10 + e) = dec x @ [48 + of_nat e]"
  using dec_large [of "x * 10 + e"] by simp

lemma dec_dval: "0 < v \<Longrightarrow> is_digits p \<Longrightarrow> dec (dval v p) = dec v @ p"
proof (induction p arbitrary: v)
  case (Cons c p)
  let ?e = "unat (c - 48)"
  have e: "?e < 10" and c: "48 + of_nat ?e = c"
    using Cons.prems(2) digit_unat [of c] by auto
  have "dec (dval v (c # p)) = dec (v * 10 + ?e) @ p"
    using Cons.prems by (simp only: dval.simps) (intro Cons.IH, auto)
  also have "dec (v * 10 + ?e) = dec v @ [48 + of_nat ?e]"
    using Cons.prems(1) e by (rule dec_step)
  finally show ?case by (simp only: c append_assoc append_Cons append_Nil)
qed simp

lemma dec_head:
  "0 < n \<Longrightarrow> \<exists>d p. 0 < d \<and> d < 10 \<and> is_digits p \<and> dec n = (48 + of_nat d) # p \<and> dval d p = n"
proof (induction n rule: less_induct)
  case (less n)
  show ?case
  proof (cases "n < 10")
    case True
    with less.prems show ?thesis by (intro exI [of _ n] exI [of _ "[]"]) simp
  next
    case False
    then have "n div 10 < n" and "0 < n div 10" by auto
    then obtain d p where dp: "0 < d" "d < 10" "is_digits p"
        "dec (n div 10) = (48 + of_nat d) # p" "dval d p = n div 10"
      using less.IH [of "n div 10"] by blast
    let ?c = "48 + of_nat (n mod 10) :: byte"
    have "is_digits (p @ [?c])" using dp(3) by (simp add: digit_bounds)
    moreover have "unat (?c - 48) = n mod 10" by (rule unat_digit) simp
    then have "dval d (p @ [?c]) = n"
      by (simp only: dval_append dp(5)) simp
    moreover have "dec n = (48 + of_nat d) # p @ [?c]"
      using False dec_large [of n] dp(4) by simp
    ultimately show ?thesis
      using dp(1,2) by blast
  qed
qed

lemma string2ll_loop_iff:
  "string2ll_loop v p = Some (w, []) \<longleftrightarrow> is_digits p \<and> dval (unat v) p < 2 ^ 64 \<and> unat w = dval (unat v) p"
proof (induction p arbitrary: v)
  case Nil
  then show ?case using unsigned_less [of v, where ?'a = nat] by (auto simp: word_unat_eq_iff)
next
  case (Cons c p)
  show ?case
  proof (cases "48 \<le> c \<and> c \<le> 57")
    case d: True
    let ?e = "unat (c - 48)"
    have e: "?e < 10" using d by (simp add: digit_unat)
    have ue: "unat (ucast (c - 48) :: u64) = ?e" by simp
    have max: "unat (- 1 :: u64) = 2 ^ 64 - 1" by (simp add: unsigned_minus_1_eq_mask mask_eq_exp_minus_1)
    have b1: "v > - 1 div 10 \<longleftrightarrow> unat v > (2 ^ 64 - 1) div 10"
      by (simp add: word_less_nat_alt unat_div max)
    show ?thesis
    proof (cases "v > - 1 div 10")
      case True
      have "2 ^ 64 \<le> unat v * 10 + ?e" using True b1 by simp
      then have "2 ^ 64 \<le> dval (unat v) (c # p)"
        using dval_ge [of "unat v * 10 + ?e" p] by simp
      then show ?thesis using d True by simp
    next
      case False
      then have uv: "unat (v * 10) = unat v * 10"
        using b1 by (simp add: unat_word_ariths)
      have b2: "v * 10 > - 1 - ucast (c - 48) \<longleftrightarrow> unat v * 10 > 2 ^ 64 - 1 - ?e"
        using e by (simp add: word_less_nat_alt uv unat_sub max ue word_le_nat_alt)
      show ?thesis
      proof (cases "v * 10 > - 1 - ucast (c - 48)")
        case True
        have "2 ^ 64 \<le> unat v * 10 + ?e" using True b2 e by simp
        then have "2 ^ 64 \<le> dval (unat v) (c # p)"
          using dval_ge [of "unat v * 10 + ?e" p] by simp
        then show ?thesis using d False True by (simp add: Let_def)
      next
        case ok: False
        then have "unat (v * 10 + ucast (c - 48)) = unat v * 10 + ?e"
          using b2 e by (simp add: unat_word_ariths(1) uv ue)
        then show ?thesis using d False ok Cons.IH by (simp add: Let_def)
      qed
    qed
  next
    case False
    then show ?thesis by (simp only: string2ll_loop.simps if_False is_digits_simps option.inject prod.inject) blast
  qed
qed

lemma sint_neg_word:
  assumes "unat v \<le> 2 ^ 63"
  shows "sint (- v :: u64) = - int (unat v)"
proof -
  have "int (unat v) \<le> int (2 ^ 63)" using assms by (simp only: of_nat_le_iff)
  then have u: "uint v \<le> 2 ^ 63" "0 \<le> uint v" by simp_all
  have "sint (- v) = signed_take_bit 63 (- uint v)"
    using sint_sbintrunc' [of "- uint v", where ?'a = 64] by simp
  also have "\<dots> = - uint v"
    using u zero_less_power [of "2 :: int" 63]
    by (intro signed_take_bit_int_eq_self) linarith+
  finally show ?thesis by simp
qed

lemma sint_pos_word:
  assumes "unat v < 2 ^ 63"
  shows "sint (v :: u64) = int (unat v)"
proof -
  have "int (unat v) < int (2 ^ 63)" using assms by (simp only: of_nat_less_iff)
  then have u: "uint v < 2 ^ 63" "0 \<le> uint v" by simp_all
  have "sint v = signed_take_bit 63 (uint v)" by (simp add: sint_uint)
  also have "\<dots> = uint v" using u by (intro signed_take_bit_int_eq_self) linarith+
  finally show ?thesis by simp
qed

lemma minus_not_digit: "49 \<le> (c :: byte) \<Longrightarrow> c \<noteq> of_char CHR ''-''"
  by auto

lemma string2ll_neg:
  "string2ll (of_char CHR ''-'' # p) = Some v \<longleftrightarrow>
     (\<exists>n. 0 < n \<and> n \<le> 2 ^ 63 \<and> p = dec n \<and> v = - int n)"
proof
  assume l: "string2ll (of_char CHR ''-'' # p) = Some v"
  then obtain c q where p: "p = c # q" and c: "49 \<le> c" "c \<le> 57"
    by (cases p) (auto simp: string2ll_def split: if_splits)
  with l obtain w where w: "string2ll_loop (ucast (c - 48)) q = Some (w, [])"
      "w \<le> 2 ^ 63" "v = sint (- w)"
    by (auto simp: string2ll_def not_less split: option.splits if_splits)
  let ?d = "unat (c - 48)"
  have "48 \<le> c" using c(1) by (rule order_trans [rotated]) simp
  note d = digit_unat [OF this c(2)]
  have "0 < ?d" using c(1) by (simp add: word_le_nat_alt unat_sub)
  have q: "is_digits q" "unat w = dval ?d q" using w(1) by (simp_all add: string2ll_loop_iff)
  have "unat w \<le> 2 ^ 63" using w(2) by (simp add: word_le_nat_alt)
  moreover have "dec (unat w) = p"
    using dec_dval [OF \<open>0 < ?d\<close> q(1)] d q(2) p by simp
  moreover have "0 < unat w" using dval_ge [of ?d q] \<open>0 < ?d\<close> q(2) by linarith
  ultimately show "\<exists>n. 0 < n \<and> n \<le> 2 ^ 63 \<and> p = dec n \<and> v = - int n"
    using w(3) sint_neg_word [of w] by metis
next
  assume "\<exists>n. 0 < n \<and> n \<le> 2 ^ 63 \<and> p = dec n \<and> v = - int n"
  then obtain n where n: "0 < n" "n \<le> 2 ^ 63" "p = dec n" "v = - int n" by blast
  from dec_head [OF n(1)] obtain d q where dq: "0 < d" "d < 10" "is_digits q"
      "dec n = (48 + of_nat d) # q" "dval d q = n" by blast
  let ?w = "of_nat n :: u64"
  have un: "unat ?w = n" using n(2) by (simp add: unat_of_nat)
  have "unat (48 + of_nat d - 48 :: byte) = d" using dq(2) by (rule unat_digit)
  then have "string2ll_loop (ucast (48 + of_nat d - 48 :: byte)) q = Some (?w, [])"
    using dq n(2) un by (simp add: string2ll_loop_iff)
  moreover have "?w \<le> 2 ^ 63" using n(2) un by (simp add: word_le_nat_alt)
  ultimately show "string2ll (of_char CHR ''-'' # p) = Some v"
    using n dq digit_bounds [OF dq(2)] sint_neg_word [of ?w] un
    by (simp add: string2ll_def not_less)
qed

lemma string2ll_pos:
  assumes "c \<noteq> of_char CHR ''-''"
  shows "string2ll (c # p) = Some v \<longleftrightarrow> (\<exists>n < 2 ^ 63. c # p = dec n \<and> v = int n)"
proof
  assume l: "string2ll (c # p) = Some v"
  show "\<exists>n < 2 ^ 63. c # p = dec n \<and> v = int n"
  proof (cases "c # p = [48]")
    case True
    with l show ?thesis by (intro exI [of _ 0]) (simp add: string2ll_def)
  next
    case ne: False
    with l assms have c: "49 \<le> c" "c \<le> 57"
      by (auto simp: string2ll_def split: if_splits)
    with l assms ne obtain w where w: "string2ll_loop (ucast (c - 48)) p = Some (w, [])"
        "w \<le> 2 ^ 63 - 1" "v = sint w"
      by (auto simp: string2ll_def not_less split: option.splits if_splits)
    let ?d = "unat (c - 48)"
    have "48 \<le> c" using c(1) by (rule order_trans [rotated]) simp
    note d = digit_unat [OF this c(2)]
    have "0 < ?d" using c(1) by (simp add: word_le_nat_alt unat_sub)
    have q: "is_digits p" "unat w = dval ?d p" using w(1) by (simp_all add: string2ll_loop_iff)
    have "unat w < 2 ^ 63" using w(2) by (simp add: word_le_nat_alt)
    moreover have "dec (unat w) = c # p"
      using dec_dval [OF \<open>0 < ?d\<close> q(1)] d q(2) by simp
    ultimately show ?thesis
      using w(3) sint_pos_word [of w] by metis
  qed
next
  assume "\<exists>n < 2 ^ 63. c # p = dec n \<and> v = int n"
  then obtain n where n: "n < 2 ^ 63" "c # p = dec n" "v = int n" by blast
  show "string2ll (c # p) = Some v"
  proof (cases "n = 0")
    case True
    with n show ?thesis by (simp add: string2ll_def)
  next
    case False
    then obtain d q where dq: "0 < d" "d < 10" "is_digits q"
        "dec n = (48 + of_nat d) # q" "dval d q = n" using dec_head [of n] by blast
    let ?w = "of_nat n :: u64"
    have un: "unat ?w = n" using n(1) by (simp add: unat_of_nat)
    have "unat (48 + of_nat d - 48 :: byte) = d" using dq(2) by (rule unat_digit)
    then have "string2ll_loop (ucast (48 + of_nat d - 48 :: byte)) q = Some (?w, [])"
      using dq n(1) un by (simp add: string2ll_loop_iff)
    moreover have "?w \<le> 2 ^ 63 - 1" using n(1) un by (simp add: word_le_nat_alt)
    moreover have "(48 + of_nat d :: byte) \<noteq> 48" using digit_bounds(3) [OF dq(2,1)] by auto
    ultimately show ?thesis
      using n dq digit_bounds [OF dq(2)] sint_pos_word [of ?w] un assms
      by (simp add: string2ll_def not_less)
  qed
qed

lemma string2ll_iff:
  "string2ll s = Some v \<longleftrightarrow> INT64_MIN \<le> v \<and> v \<le> INT64_MAX \<and> s = sdec v"
proof (cases s)
  case Nil
  have "sdec v \<noteq> []" by (simp add: sdec_def)
  with Nil show ?thesis by (auto simp: string2ll_def)
next
  case (Cons c p)
  show ?thesis
  proof (cases "c = of_char CHR ''-''")
    case True
    have "sdec v = of_char CHR ''-'' # p \<longleftrightarrow> v < 0 \<and> p = dec (nat (- v))"
    proof -
      have "dec (nat v) \<noteq> of_char CHR ''-'' # p" if "0 \<le> v"
      proof (cases "v = 0")
        case False
        with that obtain d q where "0 < d" "d < 10" "dec (nat v) = (48 + of_nat d) # q"
          using dec_head [of "nat v"] by auto
        with digit_bounds(3) [of d] minus_not_digit show ?thesis by fastforce
      qed simp
      then show ?thesis by (auto simp: sdec_def)
    qed
    moreover have "(\<exists>n. 0 < n \<and> n \<le> 2 ^ 63 \<and> p = dec n \<and> v = - int n)
        \<longleftrightarrow> INT64_MIN \<le> v \<and> v < 0 \<and> p = dec (nat (- v))"
      by (auto intro!: exI [of _ "nat (- v)"])
    ultimately show ?thesis
      using Cons True string2ll_neg [of p v] by auto
  next
    case False
    then have "sdec v = c # p \<longleftrightarrow> 0 \<le> v \<and> dec (nat v) = c # p" by (auto simp: sdec_def)
    moreover have "(\<exists>n < 2 ^ 63. c # p = dec n \<and> v = int n)
        \<longleftrightarrow> v \<le> INT64_MAX \<and> 0 \<le> v \<and> dec (nat v) = c # p"
      by (auto intro!: exI [of _ "nat v"])
    ultimately show ?thesis
      using Cons string2ll_pos [OF False, of p v] by auto
  qed
qed

section \<open>Properties\<close>

text \<open>
  C4. Round trip of integer encoding: for every \<open>long long\<close> and every buffer, if
  \<open>ll2string\<close> has room it returns the number of bytes it wrote, terminates them with a
  NUL, leaves the rest of the buffer alone, never writes outside it, and \<open>string2ll\<close>
  reads the same number back from these bytes.
\<close>

theorem ll2string_string2ll:
  assumes "INT64_MIN \<le> v" and "v \<le> INT64_MAX" and "21 \<le> dstlen" and "dstlen \<le> length dst"
  shows "\<exists>n dst'. ll2string dst dstlen v = Some (n, dst') \<and> n = sdigits10 v \<and> n < dstlen
    \<and> string2ll (take n dst') = Some v \<and> dst' ! n = 0
    \<and> drop (Suc n) dst' = drop (Suc n) dst"
proof -
  have "nat \<bar>v\<bar> < 10 ^ 19" using assms(1,2) by (auto simp: nat_less_iff)
  then have "length (dec (nat \<bar>v\<bar>)) \<le> 19" by (rule length_dec_le) simp
  then have len: "length (sdec v) < dstlen" using assms(3) by (auto simp: sdec_def)
  have "sdigits10 v = length (sdec v)"
    using assms(1) by (auto simp: sdigits10_def sdec_def digits10_dec Let_def)
  moreover have "string2ll (sdec v) = Some v" using assms(1,2) by (simp add: string2ll_iff)
  ultimately show ?thesis
    using ll2string_sdec [OF assms(1,4)] len assms(4) by auto
qed

theorem ll2string_string2ll_witness:
  "\<exists>n dst'. ll2string (replicate 32 1) 32 (- 1234567) = Some (n, dst')
    \<and> n = sdigits10 (- 1234567) \<and> n < 32 \<and> string2ll (take n dst') = Some (- 1234567)
    \<and> dst' ! n = 0 \<and> drop (Suc n) dst' = drop (Suc n) (replicate 32 1)"
  by (rule ll2string_string2ll) simp_all

text \<open>
  C5. \<open>string2ll\<close> accepts exactly the canonical decimal notations of the numbers in
  the range of a \<open>long long\<close>: no sign \<open>+\<close>, no leading zero, no \<open>-0\<close>, no blank, no
  overflow. So replacing a string by its integer encoding loses nothing.
\<close>

theorem string2ll_exact:
  "string2ll s = Some v \<longleftrightarrow> INT64_MIN \<le> v \<and> v \<le> INT64_MAX \<and> s = sdec v"
  by (rule string2ll_iff)

end
