(* ===== verification/Notify.thy ===== *)
theory Notify
  imports Pubsub Util
begin

text \<open>
  \<open>notify.c\<close>: keyspace event notifications. The classes of events are the bits of an \<open>int\<close>,
  here a 32-bit word; the two functions between a string of class letters and the flags are
  those of the directive \<open>notify-keyspace-events\<close>, and \<open>notifyKeyspaceEvent\<close> publishes an
  event on one or two channels. A C string is the bytes of its buffer; reading past them is
  \<open>None\<close>.
\<close>

unbundle bit_operations_syntax

section \<open>Flags\<close>

definition NOTIFY_KEYSPACE :: "32 word" where "NOTIFY_KEYSPACE = push_bit 0 1"
definition NOTIFY_KEYEVENT :: "32 word" where "NOTIFY_KEYEVENT = push_bit 1 1"
definition NOTIFY_GENERIC :: "32 word" where "NOTIFY_GENERIC = push_bit 2 1"
definition NOTIFY_STRING :: "32 word" where "NOTIFY_STRING = push_bit 3 1"
definition NOTIFY_LIST :: "32 word" where "NOTIFY_LIST = push_bit 4 1"
definition NOTIFY_SET :: "32 word" where "NOTIFY_SET = push_bit 5 1"
definition NOTIFY_HASH :: "32 word" where "NOTIFY_HASH = push_bit 6 1"
definition NOTIFY_ZSET :: "32 word" where "NOTIFY_ZSET = push_bit 7 1"
definition NOTIFY_EXPIRED :: "32 word" where "NOTIFY_EXPIRED = push_bit 8 1"
definition NOTIFY_EVICTED :: "32 word" where "NOTIFY_EVICTED = push_bit 9 1"
definition NOTIFY_ALL :: "32 word" where
  "NOTIFY_ALL = NOTIFY_GENERIC OR NOTIFY_STRING OR NOTIFY_LIST OR NOTIFY_SET OR NOTIFY_HASH OR NOTIFY_ZSET
     OR NOTIFY_EXPIRED OR NOTIFY_EVICTED"

lemmas notify_flags = NOTIFY_KEYSPACE_def NOTIFY_KEYEVENT_def NOTIFY_GENERIC_def NOTIFY_STRING_def
  NOTIFY_LIST_def NOTIFY_SET_def NOTIFY_HASH_def NOTIFY_ZSET_def NOTIFY_EXPIRED_def NOTIFY_EVICTED_def
  NOTIFY_ALL_def

definition class_flag :: "byte \<Rightarrow> 32 word option" where
  "class_flag c =
     (if c = of_char CHR ''A'' then Some NOTIFY_ALL
      else if c = of_char CHR ''g'' then Some NOTIFY_GENERIC
      else if c = of_char CHR ''$'' then Some NOTIFY_STRING
      else if c = of_char CHR ''l'' then Some NOTIFY_LIST
      else if c = of_char CHR ''s'' then Some NOTIFY_SET
      else if c = of_char CHR ''h'' then Some NOTIFY_HASH
      else if c = of_char CHR ''z'' then Some NOTIFY_ZSET
      else if c = of_char CHR ''x'' then Some NOTIFY_EXPIRED
      else if c = of_char CHR ''e'' then Some NOTIFY_EVICTED
      else if c = of_char CHR ''K'' then Some NOTIFY_KEYSPACE
      else if c = of_char CHR ''E'' then Some NOTIFY_KEYEVENT
      else None)"

fun flags_loop :: "byte list \<Rightarrow> 32 word \<Rightarrow> 32 word option" where
  "flags_loop [] flags = None"
| "flags_loop (c # p) flags =
     (if c = 0 then Some flags
      else case class_flag c of None \<Rightarrow> Some (- 1) | Some f \<Rightarrow> flags_loop p (flags OR f))"

definition keyspaceEventsStringToFlags :: "byte list \<Rightarrow> 32 word option" where
  "keyspaceEventsStringToFlags classes = flags_loop classes 0"

definition class_char :: "32 word \<Rightarrow> 32 word \<Rightarrow> char \<Rightarrow> byte list" where
  "class_char flags f c = (if flags AND f \<noteq> 0 then [of_char c] else [])"

definition keyspaceEventsFlagsToString :: "32 word \<Rightarrow> byte list" where
  "keyspaceEventsFlagsToString flags =
     (if flags AND NOTIFY_ALL = NOTIFY_ALL then [of_char CHR ''A'']
      else class_char flags NOTIFY_GENERIC CHR ''g'' @ class_char flags NOTIFY_STRING CHR ''$''
        @ class_char flags NOTIFY_LIST CHR ''l'' @ class_char flags NOTIFY_SET CHR ''s''
        @ class_char flags NOTIFY_HASH CHR ''h'' @ class_char flags NOTIFY_ZSET CHR ''z''
        @ class_char flags NOTIFY_EXPIRED CHR ''x'' @ class_char flags NOTIFY_EVICTED CHR ''e'')
     @ class_char flags NOTIFY_KEYSPACE CHR ''K'' @ class_char flags NOTIFY_KEYEVENT CHR ''E''"

section \<open>Notifications\<close>

text \<open>\<open>buf\<close> is the uninitialised buffer of 24 bytes on the stack.\<close>

definition event_channel :: "string \<Rightarrow> int \<Rightarrow> byte list \<Rightarrow> byte list \<Rightarrow> byte list option" where
  "event_channel prefix dbid name buf = do {
     (len, buf) \<leftarrow> ll2string buf 24 dbid;
     Some (str prefix @ take len buf @ str ''__:'' @ name) }"

definition notifyKeyspaceEvent_publish ::
  "32 word \<Rightarrow> byte list \<Rightarrow> 32 word \<Rightarrow> byte list \<Rightarrow> byte list \<Rightarrow> int \<Rightarrow> pserver \<Rightarrow> pserver option" where
  "notifyKeyspaceEvent_publish flags buf type event key dbid s =
     (if flags AND type = 0 then Some s
      else do {
        s \<leftarrow> (if flags AND NOTIFY_KEYSPACE \<noteq> 0 then do {
                 chan \<leftarrow> event_channel ''__keyspace@'' dbid key buf;
                 (_, s) \<leftarrow> pubsubPublishMessage chan event s;
                 Some s
               } else Some s);
        if flags AND NOTIFY_KEYEVENT \<noteq> 0 then do {
          chan \<leftarrow> event_channel ''__keyevent@'' dbid event buf;
          (_, s) \<leftarrow> pubsubPublishMessage chan key s;
          Some s
        } else Some s
      })"

section \<open>Round trip\<close>

definition known_flags :: "32 word" where
  "known_flags = NOTIFY_ALL OR NOTIFY_KEYSPACE OR NOTIFY_KEYEVENT"

lemma class_flag_known: "class_flag c = Some f \<Longrightarrow> f AND known_flags = f"
  by (simp only: class_flag_def option.inject option.simps split: if_splits) (auto simp: known_flags_def notify_flags)

lemma flags_loop_known:
  "flags_loop p f = Some g \<Longrightarrow> g \<noteq> - 1 \<Longrightarrow> f AND known_flags = f \<Longrightarrow> g AND known_flags = g"
proof (induction p arbitrary: f)
  case (Cons c p)
  consider "c = 0" | "c \<noteq> 0" "class_flag c = None" | h where "c \<noteq> 0" "class_flag c = Some h" by fastforce
  then show ?case
  proof cases
    case 1
    then have "g = f" using Cons.prems(1) by simp
    then show ?thesis using Cons.prems(3) by (simp only:)
  next
    case 2
    then have "g = - 1" using Cons.prems(1) by simp
    then show ?thesis using Cons.prems(2) by blast
  next
    case 3
    then have "flags_loop p (f OR h) = Some g" using Cons.prems(1) by simp
    moreover have "(f OR h) AND known_flags = f OR h"
      unfolding bit.conj_disj_distrib2 Cons.prems(3) class_flag_known [OF 3(2)] ..
    ultimately show ?thesis by (rule Cons.IH [OF _ Cons.prems(2)])
  qed
qed simp

lemma flags_loop_class_char:
  assumes "class_flag (of_char c) = Some f" "of_char c \<noteq> (0::byte)"
  shows "flags_loop (class_char flags f c @ p) g = flags_loop p (g OR (if flags AND f \<noteq> 0 then f else 0))"
  using assms by (simp add: class_char_def)

lemma flag_bits:
  "w AND NOTIFY_KEYSPACE \<noteq> 0 \<longleftrightarrow> bit w 0" "w AND NOTIFY_KEYEVENT \<noteq> 0 \<longleftrightarrow> bit w 1"
  "w AND NOTIFY_GENERIC \<noteq> 0 \<longleftrightarrow> bit w 2" "w AND NOTIFY_STRING \<noteq> 0 \<longleftrightarrow> bit w 3"
  "w AND NOTIFY_LIST \<noteq> 0 \<longleftrightarrow> bit w 4" "w AND NOTIFY_SET \<noteq> 0 \<longleftrightarrow> bit w 5"
  "w AND NOTIFY_HASH \<noteq> 0 \<longleftrightarrow> bit w 6" "w AND NOTIFY_ZSET \<noteq> 0 \<longleftrightarrow> bit w 7"
  "w AND NOTIFY_EXPIRED \<noteq> 0 \<longleftrightarrow> bit w 8" "w AND NOTIFY_EVICTED \<noteq> 0 \<longleftrightarrow> bit w 9"
  unfolding notify_flags push_bit_eq_mult mult_1 and_exp_eq_0_iff_not_bit by simp_all

lemma bit_choice: "bit (if b then push_bit k (1::32 word) else 0) n \<longleftrightarrow> b \<and> n = k \<and> k < 32"
  by (auto simp: bit_simps)

lemma known_flags_mask: "known_flags = mask 10"
  by (simp add: known_flags_def notify_flags mask_eq_exp_minus_1)

lemma bit_NOTIFY_ALL: "bit NOTIFY_ALL n \<longleftrightarrow> 2 \<le> n \<and> n < 10"
proof -
  have all: "NOTIFY_ALL = push_bit 2 (mask 8)" by (simp add: notify_flags mask_eq_exp_minus_1 push_bit_eq_mult)
  show ?thesis unfolding all by (auto simp: bit_simps)
qed

lemma letters:
  "class_flag (of_char CHR ''A'') = Some NOTIFY_ALL" "class_flag (of_char CHR ''g'') = Some NOTIFY_GENERIC"
  "class_flag (of_char CHR ''$'') = Some NOTIFY_STRING" "class_flag (of_char CHR ''l'') = Some NOTIFY_LIST"
  "class_flag (of_char CHR ''s'') = Some NOTIFY_SET" "class_flag (of_char CHR ''h'') = Some NOTIFY_HASH"
  "class_flag (of_char CHR ''z'') = Some NOTIFY_ZSET" "class_flag (of_char CHR ''x'') = Some NOTIFY_EXPIRED"
  "class_flag (of_char CHR ''e'') = Some NOTIFY_EVICTED" "class_flag (of_char CHR ''K'') = Some NOTIFY_KEYSPACE"
  "class_flag (of_char CHR ''E'') = Some NOTIFY_KEYEVENT"
  by (simp_all add: class_flag_def)

lemma letters_nonzero:
  "(of_char CHR ''A'' :: byte) \<noteq> 0" "(of_char CHR ''g'' :: byte) \<noteq> 0" "(of_char CHR ''$'' :: byte) \<noteq> 0"
  "(of_char CHR ''l'' :: byte) \<noteq> 0" "(of_char CHR ''s'' :: byte) \<noteq> 0" "(of_char CHR ''h'' :: byte) \<noteq> 0"
  "(of_char CHR ''z'' :: byte) \<noteq> 0" "(of_char CHR ''x'' :: byte) \<noteq> 0" "(of_char CHR ''e'' :: byte) \<noteq> 0"
  "(of_char CHR ''K'' :: byte) \<noteq> 0" "(of_char CHR ''E'' :: byte) \<noteq> 0"
  by simp_all

lemmas flag_values = NOTIFY_KEYSPACE_def NOTIFY_KEYEVENT_def NOTIFY_GENERIC_def NOTIFY_STRING_def
  NOTIFY_LIST_def NOTIFY_SET_def NOTIFY_HASH_def NOTIFY_ZSET_def NOTIFY_EXPIRED_def NOTIFY_EVICTED_def

lemma flags_loop_letters:
  "flags_loop (of_char CHR ''A'' # p) g = flags_loop p (g OR NOTIFY_ALL)"
  "flags_loop (class_char w NOTIFY_GENERIC CHR ''g'' @ p) g = flags_loop p (g OR (if bit w 2 then NOTIFY_GENERIC else 0))"
  "flags_loop (class_char w NOTIFY_STRING CHR ''$'' @ p) g = flags_loop p (g OR (if bit w 3 then NOTIFY_STRING else 0))"
  "flags_loop (class_char w NOTIFY_LIST CHR ''l'' @ p) g = flags_loop p (g OR (if bit w 4 then NOTIFY_LIST else 0))"
  "flags_loop (class_char w NOTIFY_SET CHR ''s'' @ p) g = flags_loop p (g OR (if bit w 5 then NOTIFY_SET else 0))"
  "flags_loop (class_char w NOTIFY_HASH CHR ''h'' @ p) g = flags_loop p (g OR (if bit w 6 then NOTIFY_HASH else 0))"
  "flags_loop (class_char w NOTIFY_ZSET CHR ''z'' @ p) g = flags_loop p (g OR (if bit w 7 then NOTIFY_ZSET else 0))"
  "flags_loop (class_char w NOTIFY_EXPIRED CHR ''x'' @ p) g = flags_loop p (g OR (if bit w 8 then NOTIFY_EXPIRED else 0))"
  "flags_loop (class_char w NOTIFY_EVICTED CHR ''e'' @ p) g = flags_loop p (g OR (if bit w 9 then NOTIFY_EVICTED else 0))"
  "flags_loop (class_char w NOTIFY_KEYSPACE CHR ''K'' @ p) g = flags_loop p (g OR (if bit w 0 then NOTIFY_KEYSPACE else 0))"
  "flags_loop (class_char w NOTIFY_KEYEVENT CHR ''E'' @ p) g = flags_loop p (g OR (if bit w 1 then NOTIFY_KEYEVENT else 0))"
  unfolding flags_loop_class_char [OF letters(2) letters_nonzero(2)]
    flags_loop_class_char [OF letters(3) letters_nonzero(3)]
    flags_loop_class_char [OF letters(4) letters_nonzero(4)]
    flags_loop_class_char [OF letters(5) letters_nonzero(5)]
    flags_loop_class_char [OF letters(6) letters_nonzero(6)]
    flags_loop_class_char [OF letters(7) letters_nonzero(7)]
    flags_loop_class_char [OF letters(8) letters_nonzero(8)]
    flags_loop_class_char [OF letters(9) letters_nonzero(9)]
    flags_loop_class_char [OF letters(10) letters_nonzero(10)]
    flags_loop_class_char [OF letters(11) letters_nonzero(11)] flag_bits
  by (simp_all only: flags_loop.simps letters(1) letters_nonzero(1) option.case if_False)

lemma flags_roundtrip:
  assumes "w AND known_flags = w"
  shows "flags_loop (keyspaceEventsFlagsToString w @ [0]) 0 = Some w"
proof -
  have low: "n < 10" if "bit w n" for n
  proof -
    have "bit (w AND known_flags) n" using that by (simp only: assms)
    then show ?thesis by (simp only: known_flags_mask bit_and_iff bit_mask_iff)
  qed
  have ten: "n = 0 \<or> n = 1 \<or> n = 2 \<or> n = 3 \<or> n = 4 \<or> n = 5 \<or> n = 6 \<or> n = 7 \<or> n = 8 \<or> n = 9" if "bit w n" for n
    using low [OF that] by arith
  show ?thesis
  proof (cases "w AND NOTIFY_ALL = NOTIFY_ALL")
    case True
    have all: "bit w n" if "2 \<le> n" "n < 10" for n
    proof -
      have "bit (w AND NOTIFY_ALL) n" unfolding True bit_NOTIFY_ALL using that by blast
      then show ?thesis by (simp only: bit_and_iff)
    qed
    have "NOTIFY_ALL OR (if bit w 0 then NOTIFY_KEYSPACE else 0) OR (if bit w 1 then NOTIFY_KEYEVENT else 0) = w"
    proof (rule bit_word_eqI)
      fix n :: nat
      show "bit (NOTIFY_ALL OR (if bit w 0 then NOTIFY_KEYSPACE else 0) OR (if bit w 1 then NOTIFY_KEYEVENT else 0)) n = bit w n"
        unfolding flag_values bit_or_iff bit_choice bit_NOTIFY_ALL using all [of n] ten [of n]
        by (cases "n = 0"; cases "n = 1") auto
    qed
    moreover have "(of_char CHR ''A'' :: byte) \<noteq> 0" by simp
    ultimately show ?thesis
      by (simp only: keyspaceEventsFlagsToString_def True letters(1) option.case if_False append_Cons append_Nil append_assoc if_True simp_thms
        flags_loop_letters flags_loop.simps or.assoc or.left_neutral)
  next
    case False
    have "(if bit w 2 then NOTIFY_GENERIC else 0) OR (if bit w 3 then NOTIFY_STRING else 0)
       OR (if bit w 4 then NOTIFY_LIST else 0) OR (if bit w 5 then NOTIFY_SET else 0)
       OR (if bit w 6 then NOTIFY_HASH else 0) OR (if bit w 7 then NOTIFY_ZSET else 0)
       OR (if bit w 8 then NOTIFY_EXPIRED else 0) OR (if bit w 9 then NOTIFY_EVICTED else 0)
       OR (if bit w 0 then NOTIFY_KEYSPACE else 0) OR (if bit w 1 then NOTIFY_KEYEVENT else 0) = w"
      (is "?or = w")
    proof (rule bit_word_eqI)
      fix n :: nat
      show "bit ?or n = bit w n"
      proof (cases "bit w n")
        case True
        from ten [OF True] True show ?thesis
          unfolding flag_values bit_or_iff bit_choice by (elim disjE) simp_all
      next
        case False
        then show ?thesis unfolding flag_values bit_or_iff bit_choice
          by (intro iffI) (elim disjE conjE, simp_all)
      qed
    qed
    then show ?thesis
      by (simp only: keyspaceEventsFlagsToString_def False append_assoc if_False if_True simp_thms
        flags_loop_letters flags_loop.simps or.assoc or.left_neutral)
  qed
qed

text \<open>
  C31. \<open>keyspaceEventsFlagsToString\<close> reverses \<open>keyspaceEventsStringToFlags\<close>: the flags of
  every accepted string are printed as a string with exactly these flags.
\<close>

theorem notify_flags_roundtrip:
  assumes "keyspaceEventsStringToFlags classes = Some flags" "flags \<noteq> - 1"
  shows "keyspaceEventsStringToFlags (keyspaceEventsFlagsToString flags @ [0]) = Some flags"
  using assms flags_roundtrip flags_loop_known unfolding keyspaceEventsStringToFlags_def by simp

theorem notify_flags_roundtrip_witness:
  "keyspaceEventsStringToFlags (str ''KExg'' @ [0]) = Some 263
   \<and> keyspaceEventsStringToFlags (keyspaceEventsFlagsToString 263 @ [0]) = Some 263"
proof -
  have flags: "keyspaceEventsStringToFlags (str ''KExg'' @ [0]) = Some 263"
    by code_simp
  have "(263::32 word) \<noteq> - 1" by simp
  from flags notify_flags_roundtrip [OF flags this] show ?thesis by (rule conjI)
qed

section \<open>What subscribers see\<close>

text \<open>What a client is sent when a message is published.\<close>

definition published :: "byte list \<Rightarrow> byte list \<Rightarrow> pserver \<Rightarrow> nat \<Rightarrow> preply list" where
  "published channel message s d =
     (if channel \<in> fst (subs d s) then message_replies channel message else [])
     @ concat (map (pmessage_replies channel message)
         (filter (\<lambda>p. sds_match False p channel = Some True) (pc_patterns (ps_client s d))))"

lemma event_channel_eq:
  assumes "length buf = 24" "0 \<le> dbid" "dbid < 2 ^ 31"
  shows "event_channel prefix dbid name buf = Some (str prefix @ sdec dbid @ str ''__:'' @ name)"
proof -
  have "length (dec (nat dbid)) \<le> 10"
    by (rule length_dec_le) (use assms in auto)
  then have "length (sdec dbid) < 24" using assms(2) by (simp add: sdec_def)
  then show ?thesis
    using ll2string_sdec [of dbid 24 buf] assms by (simp add: event_channel_def)
qed

lemma publish_step:
  assumes "pubsub_inv s" and "\<And>c p. p \<in> snd (subs c s) \<Longrightarrow> sds_match False p channel \<noteq> None"
  shows "\<exists>n s'. pubsubPublishMessage channel message s = Some (n, s') \<and> pubsub_inv s'
    \<and> (\<forall>d. subs d s' = subs d s \<and> pc_patterns (ps_client s' d) = pc_patterns (ps_client s d)
        \<and> pc_replies (ps_client s' d) = pc_replies (ps_client s d) @ published channel message s d)"
  unfolding published_def using publish_delivers [of s channel message] assms by blast

definition event_replies :: "32 word \<Rightarrow> 32 word \<Rightarrow> byte list \<Rightarrow> byte list \<Rightarrow> int \<Rightarrow> pserver \<Rightarrow> nat \<Rightarrow> preply list" where
  "event_replies flags type event key dbid s d =
     (if flags AND type = 0 then []
      else (if bit flags 0 then published (str ''__keyspace@'' @ sdec dbid @ str ''__:'' @ key) event s d else [])
         @ (if bit flags 1 then published (str ''__keyevent@'' @ sdec dbid @ str ''__:'' @ event) key s d else []))"

text \<open>
  C30. An event is sent exactly to the clients that ask for it: nothing if its class is off;
  otherwise the event on the channel \<open>__keyspace@<db>__:<key>\<close> if the flag \<open>K\<close> is set, and then the
  key on \<open>__keyevent@<db>__:<event>\<close> if \<open>E\<close> is set, to the subscribers of the channel and of
  matching patterns. No subscription changes.
\<close>

theorem notify_exact:
  assumes "pubsub_inv s" "length buf = 24" "0 \<le> dbid" "dbid < 2 ^ 31"
    and safe: "\<And>c p. p \<in> snd (subs c s) \<Longrightarrow>
      sds_match False p (str ''__keyspace@'' @ sdec dbid @ str ''__:'' @ key) \<noteq> None
      \<and> sds_match False p (str ''__keyevent@'' @ sdec dbid @ str ''__:'' @ event) \<noteq> None"
  shows "\<exists>s'. notifyKeyspaceEvent_publish flags buf type event key dbid s = Some s' \<and> pubsub_inv s'
    \<and> (\<forall>d. subs d s' = subs d s
        \<and> pc_replies (ps_client s' d) = pc_replies (ps_client s d) @ event_replies flags type event key dbid s d)"
proof -
  define k where "k = str ''__keyspace@'' @ sdec dbid @ str ''__:'' @ key"
  define e where "e = str ''__keyevent@'' @ sdec dbid @ str ''__:'' @ event"
  have chan: "event_channel ''__keyspace@'' dbid key buf = Some k" "event_channel ''__keyevent@'' dbid event buf = Some e"
    unfolding k_def e_def by (rule event_channel_eq [OF assms(2-4)])+
  have match: "sds_match False p k \<noteq> None" "sds_match False p e \<noteq> None" if "p \<in> snd (subs c s)" for c p
    using safe [OF that] unfolding k_def e_def by blast+
  obtain n t where t: "pubsubPublishMessage k event s = Some (n, t)" "pubsub_inv t"
    "\<And>d. subs d t = subs d s" "\<And>d. pc_patterns (ps_client t d) = pc_patterns (ps_client s d)"
    "\<And>d. pc_replies (ps_client t d) = pc_replies (ps_client s d) @ published k event s d"
    using publish_step [of s k event] assms(1) match(1) by blast
  have pub: "published e key t = published e key s"
    by (simp add: published_def t(3,4) fun_eq_iff)
  have match_t: "sds_match False p e \<noteq> None" if "p \<in> snd (subs c t)" for c p
    using that match(2) unfolding t(3) by blast
  obtain n2 u where u: "pubsubPublishMessage e key t = Some (n2, u)" "pubsub_inv u"
    "\<And>d. subs d u = subs d t"
    "\<And>d. pc_replies (ps_client u d) = pc_replies (ps_client t d) @ published e key t d"
    using publish_step [of t e key] t(2) match_t by blast
  obtain n3 v where v: "pubsubPublishMessage e key s = Some (n3, v)" "pubsub_inv v"
    "\<And>d. subs d v = subs d s"
    "\<And>d. pc_replies (ps_client v d) = pc_replies (ps_client s d) @ published e key s d"
    using publish_step [of s e key] assms(1) match(2) by blast
  define r where "r = (if flags AND type = 0 then s else if bit flags 0 then if bit flags 1 then u else t
    else if bit flags 1 then v else s)"
  have "notifyKeyspaceEvent_publish flags buf type event key dbid s = Some r"
    unfolding notifyKeyspaceEvent_publish_def flag_bits chan r_def by (simp add: t(1) u(1) v(1))
  moreover have "pubsub_inv r" "subs d r = subs d s" for d
    unfolding r_def by (simp_all add: assms(1) t(2,3) u(2,3) v(2,3))
  moreover have "pc_replies (ps_client r d) = pc_replies (ps_client s d) @ event_replies flags type event key dbid s d" for d
    unfolding r_def event_replies_def k_def [symmetric] e_def [symmetric]
    by (simp add: t(5) u(4) v(4) pub)
  ultimately show ?thesis by blast
qed

theorem notify_exact_witness:
  "\<exists>s'. notifyKeyspaceEvent_publish 7 (replicate 24 0) NOTIFY_GENERIC (str ''del'') (str ''k'') 0
     (subscribeCommand 1 [str ''__keyevent@0__:del''] (pubsub_init False)) = Some s'
   \<and> subs 1 s' = ({str ''__keyevent@0__:del''}, {})"
proof -
  let ?s = "subscribeCommand 1 [str ''__keyevent@0__:del''] (pubsub_init False)"
  have step: "\<exists>s'. pubsub_step sorted_list_of_set (Subscribe 1 [str ''__keyevent@0__:del'']) (pubsub_init False) = Some s'
      \<and> pubsub_inv s'
      \<and> (\<lambda>c. subs c s') = spec_step (Subscribe 1 [str ''__keyevent@0__:del'']) (\<lambda>c. subs c (pubsub_init False))"
    by (rule pubsub_step_ok [OF _ pubsub_inv_init]) simp_all
  then have inv: "pubsub_inv ?s"
    and sub: "(\<lambda>c. subs c ?s) = spec_step (Subscribe 1 [str ''__keyevent@0__:del'']) (\<lambda>c. subs c (pubsub_init False))"
    by auto
  have none: "snd (subs c ?s) = {}" for c
    using fun_cong [OF sub, of c] by (simp add: subs_def pubsub_init_def)
  have one: "subs 1 ?s = ({str ''__keyevent@0__:del''}, {})"
    using fun_cong [OF sub, of 1] by (simp add: subs_def pubsub_init_def)
  obtain s' where "notifyKeyspaceEvent_publish 7 (replicate 24 0) NOTIFY_GENERIC (str ''del'') (str ''k'') 0 ?s = Some s'"
    "subs 1 s' = subs 1 ?s"
    by (rule exE [OF notify_exact [OF inv, of "replicate 24 0" 0 "str ''k''" "str ''del''" 7 NOTIFY_GENERIC]])
       (simp, simp, simp, simp only: none empty_iff, blast)
  then show ?thesis using one by (intro exI [of _ s'] conjI) (assumption, simp only:)
qed

end
