(* ===== verification/Slowlog.thy ===== *)
theory Slowlog
  imports Util
begin

text \<open>
  \<open>slowlog.c\<close>: the log of slow queries. The log is a list with the newest entry first;
  entries keep at most 32 arguments of at most 128 bytes and a note about what is left out.
  The arguments are string objects in sds encoding; \<open>now\<close> is what \<open>time(NULL)\<close> returns. The
  entry number is a \<open>long long\<close>, and its overflow is \<open>None\<close>.
\<close>

section \<open>Entries\<close>

definition SLOWLOG_ENTRY_MAX_ARGC :: nat where "SLOWLOG_ENTRY_MAX_ARGC = 32"
definition SLOWLOG_ENTRY_MAX_STRING :: nat where "SLOWLOG_ENTRY_MAX_STRING = 128"

record slowlogEntry =
  se_argv :: "byte list list"
  se_id :: int
  se_duration :: int
  se_time :: int

record slowlog_server =
  sl_log :: "slowlogEntry list"
  sl_entry_id :: int
  sl_slower_than :: int
  sl_max_len :: nat

definition slowlog_arg :: "byte list list \<Rightarrow> nat \<Rightarrow> nat \<Rightarrow> byte list" where
  "slowlog_arg argv slargc j =
     (if slargc \<noteq> length argv \<and> j = slargc - 1 then
        str ''... ('' @ sdec (int (length argv - slargc + 1)) @ str '' more arguments)''
      else if length (argv ! j) > SLOWLOG_ENTRY_MAX_STRING then
        take SLOWLOG_ENTRY_MAX_STRING (argv ! j) @ str ''... (''
          @ sdec (int (length (argv ! j) - SLOWLOG_ENTRY_MAX_STRING)) @ str '' more bytes)''
      else argv ! j)"

definition slowlogCreateEntry ::
  "byte list list \<Rightarrow> int \<Rightarrow> int \<Rightarrow> slowlog_server \<Rightarrow> (slowlogEntry \<times> slowlog_server) option" where
  "slowlogCreateEntry argv duration now s = (
     let slargc = (if length argv > SLOWLOG_ENTRY_MAX_ARGC then SLOWLOG_ENTRY_MAX_ARGC else length argv)
     in if sl_entry_id s \<ge> INT64_MAX then None
        else Some (\<lparr>se_argv = map (slowlog_arg argv slargc) [0..<slargc], se_id = sl_entry_id s,
                    se_duration = duration, se_time = now\<rparr>,
                   s\<lparr>sl_entry_id := sl_entry_id s + 1\<rparr>))"

section \<open>The log\<close>

definition slowlogInit :: "slowlog_server \<Rightarrow> slowlog_server" where
  "slowlogInit s = s\<lparr>sl_log := [], sl_entry_id := 0\<rparr>"

function trim_loop :: "nat \<Rightarrow> slowlogEntry list \<Rightarrow> slowlogEntry list" where
  "trim_loop n l = (if length l > n then trim_loop n (butlast l) else l)"
  by auto
termination by (relation "measure (\<lambda>(n, l). length l)") auto

declare trim_loop.simps [simp del]

definition slowlogPushEntryIfNeeded :: "byte list list \<Rightarrow> int \<Rightarrow> int \<Rightarrow> slowlog_server \<Rightarrow> slowlog_server option" where
  "slowlogPushEntryIfNeeded argv duration now s =
     (if sl_slower_than s < 0 then Some s
      else do {
        s \<leftarrow> (if duration \<ge> sl_slower_than s then do {
                 (se, s) \<leftarrow> slowlogCreateEntry argv duration now s;
                 Some (s\<lparr>sl_log := se # sl_log s\<rparr>)
               } else Some s);
        Some (s\<lparr>sl_log := trim_loop (sl_max_len s) (sl_log s)\<rparr>)
      })"

definition slowlogReset :: "slowlog_server \<Rightarrow> slowlog_server" where
  "slowlogReset s = s\<lparr>sl_log := trim_loop 0 (sl_log s)\<rparr>"

section \<open>The command\<close>

datatype slreply = SOk | SInt int | SMulti nat | SBulk "byte list" | SError string

definition sub_is :: "byte list \<Rightarrow> string \<Rightarrow> bool" where
  "sub_is a w \<longleftrightarrow> map (\<lambda>b. if 65 \<le> b \<and> b \<le> 90 then b + 32 else b) (takeWhile (\<lambda>b. b \<noteq> 0) a) = str w"

definition entry_replies :: "slowlogEntry \<Rightarrow> slreply list" where
  "entry_replies se = [SMulti 4, SInt (se_id se), SInt (se_time se), SInt (se_duration se),
     SMulti (length (se_argv se))] @ map SBulk (se_argv se)"

text \<open>
  \<open>while (count-- && (ln = listNext(&li)))\<close>: a negative count never becomes 0 within the log,
  since it would have to wrap around first.
\<close>

fun get_loop :: "int \<Rightarrow> slowlogEntry list \<Rightarrow> slowlogEntry list" where
  "get_loop count [] = []"
| "get_loop count (se # l) = (if count = 0 then [] else se # get_loop (count - 1) l)"

definition slowlogCommand :: "byte list \<Rightarrow> byte list list \<Rightarrow> slowlog_server \<Rightarrow> slreply list \<times> slowlog_server" where
  "slowlogCommand sub args s =
     (if args = [] \<and> sub_is sub ''reset'' then ([SOk], slowlogReset s)
      else if args = [] \<and> sub_is sub ''len'' then ([SInt (int (length (sl_log s)))], s)
      else if length args \<le> 1 \<and> sub_is sub ''get'' then
        (case (case args of [] \<Rightarrow> Some 10 | a # _ \<Rightarrow> string2ll a) of
           None \<Rightarrow> ([SError ''value is not an integer or out of range''], s)
         | Some count \<Rightarrow>
             let sent = get_loop count (sl_log s)
             in (SMulti (length sent) # concat (map entry_replies sent), s))
      else ([SError ''Unknown SLOWLOG subcommand or wrong # of args. Try GET, RESET, LEN.''], s))"

section \<open>Properties\<close>

lemma trim_loop_take: "trim_loop n l = take n l"
proof (induction n l rule: trim_loop.induct)
  case (1 n l)
  show ?case
  proof (cases "length l > n")
    case True
    then have "trim_loop n l = take n (butlast l)" using 1 by (subst trim_loop.simps) simp
    then show ?thesis using True by (simp add: take_butlast)
  qed (simp add: trim_loop.simps)
qed

definition slow_query :: "int \<Rightarrow> byte list list \<times> int \<times> int \<Rightarrow> bool" where
  "slow_query slower q \<longleftrightarrow> slower \<ge> 0 \<and> fst (snd q) \<ge> slower"

fun slowlog_run :: "(byte list list \<times> int \<times> int) list \<Rightarrow> slowlog_server \<Rightarrow> slowlog_server option" where
  "slowlog_run [] s = Some s"
| "slowlog_run ((argv, duration, now) # qs) s = do {
     s \<leftarrow> slowlogPushEntryIfNeeded argv duration now s;
     slowlog_run qs s }"

definition logged :: "byte list list \<Rightarrow> byte list list" where
  "logged argv = map (slowlog_arg argv (min 32 (length argv))) [0..<min 32 (length argv)]"

fun number_entries :: "int \<Rightarrow> (byte list list \<times> int \<times> int) list \<Rightarrow> slowlogEntry list" where
  "number_entries i [] = []"
| "number_entries i ((argv, duration, now) # qs) =
     \<lparr>se_argv = logged argv, se_id = i, se_duration = duration, se_time = now\<rparr> # number_entries (i + 1) qs"

lemma slowlog_push:
  assumes "sl_entry_id s < INT64_MAX"
  shows "slowlogPushEntryIfNeeded argv duration now s = Some
    (if sl_slower_than s < 0 then s
     else if duration \<ge> sl_slower_than s then
       s\<lparr>sl_entry_id := sl_entry_id s + 1, sl_log := take (sl_max_len s)
         (\<lparr>se_argv = logged argv, se_id = sl_entry_id s, se_duration = duration, se_time = now\<rparr> # sl_log s)\<rparr>
     else s\<lparr>sl_log := take (sl_max_len s) (sl_log s)\<rparr>)"
proof -
  have "(if length argv > 32 then 32 else length argv) = min 32 (length argv)" by simp
  then show ?thesis
    using assms unfolding slowlogPushEntryIfNeeded_def slowlogCreateEntry_def Let_def trim_loop_take logged_def
      SLOWLOG_ENTRY_MAX_ARGC_def
    by simp
qed

lemma slowlog_run_newest:
  assumes "0 \<le> i" "i + int (length qs) < INT64_MAX"
    and "sl_log s = take (sl_max_len s) l" "sl_entry_id s = i"
  shows "\<exists>s'. slowlog_run qs s = Some s' \<and> sl_max_len s' = sl_max_len s \<and> sl_slower_than s' = sl_slower_than s
    \<and> sl_log s' = take (sl_max_len s) (rev (number_entries i (filter (slow_query (sl_slower_than s)) qs)) @ l)"
  using assms
proof (induction qs arbitrary: i s l)
  case (Cons q qs)
  obtain argv duration now where q: "q = (argv, duration, now)" by (cases q)
  let ?e = "\<lparr>se_argv = logged argv, se_id = i, se_duration = duration, se_time = now\<rparr>"
  have i: "sl_entry_id s < INT64_MAX" "i + 1 + int (length qs) < INT64_MAX" "i + int (length qs) < INT64_MAX"
    using Cons.prems by simp_all
  note push = slowlog_push [OF i(1), of argv duration now]
  consider "sl_slower_than s < 0" | "0 \<le> sl_slower_than s" "duration \<ge> sl_slower_than s"
    | "0 \<le> sl_slower_than s" "duration < sl_slower_than s" by linarith
  then show ?case
  proof cases
    case 1
    then show ?thesis using Cons.IH [of i s l] Cons.prems i push by (simp add: q slow_query_def)
  next
    case 2
    define t where "t = s\<lparr>sl_entry_id := i + 1, sl_log := take (sl_max_len s) (?e # sl_log s)\<rparr>"
    have "sl_log t = take (sl_max_len t) (?e # l)"
      by (cases "sl_max_len s") (simp_all add: t_def Cons.prems(3))
    then show ?thesis
      using Cons.IH [of "i + 1" t "?e # l"] Cons.prems i push 2 by (simp add: q slow_query_def t_def)
  next
    case 3
    define t where "t = s\<lparr>sl_log := take (sl_max_len s) (sl_log s)\<rparr>"
    have "sl_log t = take (sl_max_len t) l" by (simp add: t_def Cons.prems(3))
    then show ?thesis
      using Cons.IH [of i t l] Cons.prems i push 3 by (simp add: q slow_query_def t_def)
  qed
qed simp

text \<open>
  C32. The slow log holds exactly the newest queries that were at least as slow as the
  threshold, at most the configured number of them, newest first and numbered in the order
  of their arrival, with the arguments cut to what an entry keeps; a negative threshold
  logs nothing.
\<close>

theorem slowlog_newest:
  assumes "int (length qs) < INT64_MAX"
  shows "\<exists>s'. slowlog_run qs (slowlogInit s) = Some s'
    \<and> sl_log s' = take (sl_max_len s) (rev (number_entries 0 (filter (slow_query (sl_slower_than s)) qs)))"
  using slowlog_run_newest [of 0 qs "slowlogInit s" "[]"] assms by (auto simp: slowlogInit_def)

theorem slowlog_newest_witness:
  "\<exists>s'. slowlog_run [([[97]], 5, 100), ([[98]], 20, 101), ([[99]], 30, 102), ([[100]], 9, 103)]
     (slowlogInit \<lparr>sl_log = [], sl_entry_id = 7, sl_slower_than = 9, sl_max_len = 2\<rparr>) = Some s'
   \<and> map se_id (sl_log s') = [2, 1] \<and> map se_duration (sl_log s') = [9, 30]"
  using slowlog_newest [of "[([[97]], 5, 100), ([[98]], 20, 101), ([[99]], 30, 102), ([[100]], 9, 103)]"
    "\<lparr>sl_log = [], sl_entry_id = 7, sl_slower_than = 9, sl_max_len = 2\<rparr>"]
  by (auto simp: slow_query_def)




end
