(* ===== verification/Multi.thy ===== *)
theory Multi
  imports Prelude
begin

text \<open>
  \<open>multi.c\<close>: transactions with MULTI, EXEC and DISCARD, and optimistic locking with WATCH.
  The per-database dictionaries \<open>watched_keys\<close> are maps from keys to lists of clients, and
  every client has its own list of watched keys; the two sides must agree. The command
  table's functions are outside this file: \<open>call\<close>, which runs the current command of a
  client, is a parameter of \<open>execCommand\<close>. A failed assertion or a NULL dereference is
  \<open>None\<close>. Reference counts of the argument objects are not part of the model.
\<close>

section \<open>Clients and server\<close>

type_synonym cid = nat
type_synonym dbid = nat
type_synonym key = "byte list"

record redisCommand =
  cmd_name :: "byte list"
  cmd_readonly :: bool

record multiCmd =
  mc_argv :: "byte list list"
  mc_cmd :: redisCommand

datatype mreply = Ok | NestedMulti | DiscardWithoutMulti | ExecWithoutMulti | WatchInsideMulti
  | ExecAbort | NullMultiBulk | MultiBulkLen nat | CommandReply "byte list"

record mclient =
  c_multi :: bool
  c_dirty_cas :: bool
  c_dirty_exec :: bool
  c_db :: dbid
  c_argv :: "byte list list"
  c_cmd :: redisCommand
  c_mstate :: "multiCmd list"
  c_watched :: "(dbid \<times> key) list"
  c_replies :: "mreply list"

record mserver =
  s_clients :: "cid list"
  s_client :: "cid \<Rightarrow> mclient"
  s_watched :: "dbid \<Rightarrow> key \<rightharpoonup> cid list"
  s_dict :: "dbid \<Rightarrow> key \<rightharpoonup> byte list"
  s_dirty :: nat
  s_propagated :: "(dbid \<times> byte list list) list"
  s_monitors :: "cid list"
  s_loading :: bool
  s_monitor_feed :: "(cid \<times> byte list list) list"

definition upd_client :: "cid \<Rightarrow> (mclient \<Rightarrow> mclient) \<Rightarrow> mserver \<Rightarrow> mserver" where
  "upd_client c f s = s\<lparr>s_client := (s_client s)(c := f (s_client s c))\<rparr>"

definition addReply :: "cid \<Rightarrow> mreply \<Rightarrow> mserver \<Rightarrow> mserver" where
  "addReply c r = upd_client c (\<lambda>x. x\<lparr>c_replies := c_replies x @ [r]\<rparr>)"

section \<open>WATCH\<close>

definition watchForKey :: "cid \<Rightarrow> key \<Rightarrow> mserver \<Rightarrow> mserver" where
  "watchForKey c key s = (
     let db = c_db (s_client s c) in
     if (db, key) \<in> set (c_watched (s_client s c)) then s
     else
       let clients = (case s_watched s db key of None \<Rightarrow> [] | Some cl \<Rightarrow> cl);
           s = s\<lparr>s_watched := (s_watched s)(db := (s_watched s db)(key \<mapsto> clients @ [c]))\<rparr>
       in upd_client c (\<lambda>x. x\<lparr>c_watched := c_watched x @ [(db, key)]\<rparr>) s)"

text \<open>The loop over the client's list removes its first node in every turn.\<close>

fun unwatch_loop :: "cid \<Rightarrow> (dbid \<times> key) list \<Rightarrow> mserver \<Rightarrow> mserver option" where
  "unwatch_loop c [] s = Some s"
| "unwatch_loop c ((db, key) # wks) s = do {
     clients \<leftarrow> s_watched s db key;
     if c \<notin> set clients then None
     else do {
       let clients = remove1 c clients;
       let s = s\<lparr>s_watched := (s_watched s)(db := (s_watched s db)(key := if clients = [] then None else Some clients))\<rparr>;
       unwatch_loop c wks (upd_client c (\<lambda>x. x\<lparr>c_watched := remove1 (db, key) (c_watched x)\<rparr>) s)
     }
   }"

definition unwatchAllKeys :: "cid \<Rightarrow> mserver \<Rightarrow> mserver option" where
  "unwatchAllKeys c s =
     (if c_watched (s_client s c) = [] then Some s else unwatch_loop c (c_watched (s_client s c)) s)"

definition mark_dirty_cas :: "cid \<Rightarrow> mserver \<Rightarrow> mserver" where
  "mark_dirty_cas c = upd_client c (\<lambda>x. x\<lparr>c_dirty_cas := True\<rparr>)"

definition touchWatchedKey :: "dbid \<Rightarrow> key \<Rightarrow> mserver \<Rightarrow> mserver" where
  "touchWatchedKey db key s =
     (case s_watched s db key of None \<Rightarrow> s | Some clients \<Rightarrow> fold mark_dirty_cas clients s)"

text \<open>\<open>dbid\<close> is \<open>None\<close> for FLUSHALL (-1 in the source).\<close>

definition touch_flushed :: "dbid option \<Rightarrow> cid \<Rightarrow> (dbid \<times> key) \<Rightarrow> mserver \<Rightarrow> mserver" where
  "touch_flushed dbid c wk s =
     (if (dbid = None \<or> dbid = Some (fst wk)) \<and> s_dict s (fst wk) (snd wk) \<noteq> None
      then mark_dirty_cas c s else s)"

definition touchWatchedKeysOnFlush :: "dbid option \<Rightarrow> mserver \<Rightarrow> mserver" where
  "touchWatchedKeysOnFlush dbid s =
     fold (\<lambda>c s. fold (touch_flushed dbid c) (c_watched (s_client s c)) s) (s_clients s) s"

definition watchCommand :: "cid \<Rightarrow> mserver \<Rightarrow> mserver" where
  "watchCommand c s =
     (if c_multi (s_client s c) then addReply c WatchInsideMulti s
      else addReply c Ok (fold (watchForKey c) (tl (c_argv (s_client s c))) s))"

definition unwatchCommand :: "cid \<Rightarrow> mserver \<Rightarrow> mserver option" where
  "unwatchCommand c s = do {
     s \<leftarrow> unwatchAllKeys c s;
     Some (addReply c Ok (upd_client c (\<lambda>x. x\<lparr>c_dirty_cas := False\<rparr>) s)) }"

section \<open>MULTI, DISCARD and EXEC\<close>

definition initClientMultiState :: "mclient \<Rightarrow> mclient" where
  "initClientMultiState x = x\<lparr>c_mstate := []\<rparr>"

definition queueMultiCommand :: "cid \<Rightarrow> mserver \<Rightarrow> mserver" where
  "queueMultiCommand c = upd_client c (\<lambda>x. x\<lparr>c_mstate := c_mstate x @ [\<lparr>mc_argv = c_argv x, mc_cmd = c_cmd x\<rparr>]\<rparr>)"

definition discardTransaction :: "cid \<Rightarrow> mserver \<Rightarrow> mserver option" where
  "discardTransaction c s = unwatchAllKeys c (upd_client c (\<lambda>x.
     (initClientMultiState x)\<lparr>c_multi := False, c_dirty_cas := False, c_dirty_exec := False\<rparr>) s)"

definition flagTransaction :: "cid \<Rightarrow> mserver \<Rightarrow> mserver" where
  "flagTransaction c = upd_client c (\<lambda>x. if c_multi x then x\<lparr>c_dirty_exec := True\<rparr> else x)"

definition multiCommand :: "cid \<Rightarrow> mserver \<Rightarrow> mserver" where
  "multiCommand c s =
     (if c_multi (s_client s c) then addReply c NestedMulti s
      else addReply c Ok (upd_client c (\<lambda>x. x\<lparr>c_multi := True\<rparr>) s))"

definition discardCommand :: "cid \<Rightarrow> mserver \<Rightarrow> mserver option" where
  "discardCommand c s =
     (if \<not> c_multi (s_client s c) then Some (addReply c DiscardWithoutMulti s)
      else map_option (addReply c Ok) (discardTransaction c s))"

definition execCommandPropagateMulti :: "cid \<Rightarrow> mserver \<Rightarrow> mserver" where
  "execCommandPropagateMulti c s =
     s\<lparr>s_propagated := s_propagated s @ [(c_db (s_client s c), [str ''MULTI''])]\<rparr>"

text \<open>
  The loop over the queued commands. The commands that change the queue (MULTI, EXEC,
  DISCARD) are never in it, so its length is read once.
\<close>

fun exec_loop :: "(cid \<Rightarrow> mserver \<Rightarrow> mserver) \<Rightarrow> cid \<Rightarrow> nat \<Rightarrow> nat \<Rightarrow> bool \<Rightarrow> mserver \<Rightarrow> mserver \<times> bool" where
  "exec_loop call c j 0 must_propagate s = (s, must_propagate)"
| "exec_loop call c j (Suc n) must_propagate s = (
     let mc = c_mstate (s_client s c) ! j;
         s = upd_client c (\<lambda>x. x\<lparr>c_argv := mc_argv mc, c_cmd := mc_cmd mc\<rparr>) s;
         first_write = (\<not> must_propagate \<and> \<not> cmd_readonly (mc_cmd mc));
         s = (if first_write then execCommandPropagateMulti c s else s);
         s = call c s;
         s = upd_client c (\<lambda>x. x\<lparr>c_mstate := (c_mstate x)[j := \<lparr>mc_argv = c_argv x, mc_cmd = c_cmd x\<rparr>]\<rparr>) s
     in exec_loop call c (Suc j) n (must_propagate \<or> first_write) s)"

definition feed_monitors :: "cid \<Rightarrow> mserver \<Rightarrow> mserver" where
  "feed_monitors c s =
     (if s_monitors s \<noteq> [] \<and> \<not> s_loading s
      then s\<lparr>s_monitor_feed := s_monitor_feed s @ [(c, c_argv (s_client s c))]\<rparr> else s)"

definition execCommand :: "(cid \<Rightarrow> mserver \<Rightarrow> mserver) \<Rightarrow> cid \<Rightarrow> mserver \<Rightarrow> mserver option" where
  "execCommand call c s = (
     let x = s_client s c in
     if \<not> c_multi x then Some (addReply c ExecWithoutMulti s)
     else if c_dirty_cas x \<or> c_dirty_exec x then do {
       s \<leftarrow> discardTransaction c (addReply c (if c_dirty_exec x then ExecAbort else NullMultiBulk) s);
       Some (feed_monitors c s)
     }
     else do {
       s \<leftarrow> unwatchAllKeys c s;
       let s = addReply c (MultiBulkLen (length (c_mstate x))) s;
       let (s, must_propagate) = exec_loop call c 0 (length (c_mstate x)) False s;
       let s = upd_client c (\<lambda>y. y\<lparr>c_argv := c_argv x, c_cmd := c_cmd x\<rparr>) s;
       s \<leftarrow> discardTransaction c s;
       let s = (if must_propagate then s\<lparr>s_dirty := s_dirty s + 1\<rparr> else s);
       Some (feed_monitors c s)
     })"

section \<open>The two sides of WATCH agree\<close>

definition watch_inv :: "mserver \<Rightarrow> bool" where
  "watch_inv s \<longleftrightarrow>
     (\<forall>c. distinct (c_watched (s_client s c)))
   \<and> (\<forall>db key cl. s_watched s db key = Some cl \<longrightarrow> cl \<noteq> [] \<and> distinct cl)
   \<and> (\<forall>c db key. (db, key) \<in> set (c_watched (s_client s c)) \<longleftrightarrow>
        (\<exists>cl. s_watched s db key = Some cl \<and> c \<in> set cl))"

lemma upd_client_simps [simp]:
  "s_watched (upd_client c f s) = s_watched s"
  "s_dict (upd_client c f s) = s_dict s"
  "s_clients (upd_client c f s) = s_clients s"
  "s_client (upd_client c f s) = (s_client s)(c := f (s_client s c))"
  by (simp_all add: upd_client_def)

text \<open>Updates that leave the list of watched keys alone keep the invariant.\<close>

lemma watch_inv_upd:
  "(\<And>x. c_watched (f x) = c_watched x) \<Longrightarrow> watch_inv (upd_client c f s) \<longleftrightarrow> watch_inv s"
proof -
  assume f: "\<And>x. c_watched (f x) = c_watched x"
  have "c_watched (s_client (upd_client c f s) c') = c_watched (s_client s c')" for c'
    using f by simp
  then show ?thesis unfolding watch_inv_def by simp
qed

lemma watch_inv_addReply [simp]: "watch_inv (addReply c r s) \<longleftrightarrow> watch_inv s"
  unfolding addReply_def by (rule watch_inv_upd) simp

lemma watch_inv_mark [simp]: "watch_inv (mark_dirty_cas c s) \<longleftrightarrow> watch_inv s"
  unfolding mark_dirty_cas_def by (rule watch_inv_upd) simp

lemma watch_inv_watchForKey:
  assumes "watch_inv s"
  shows "watch_inv (watchForKey c key s)"
proof (cases "(c_db (s_client s c), key) \<in> set (c_watched (s_client s c))")
  case True
  then show ?thesis using assms by (simp add: watchForKey_def Let_def)
next
  case False
  let ?db = "c_db (s_client s c)"
  let ?cl = "case s_watched s ?db key of None \<Rightarrow> [] | Some cl \<Rightarrow> cl"
  have new: "c \<notin> set ?cl" "distinct ?cl"
    using False assms by (auto simp: watch_inv_def split: option.split)
  have s': "watchForKey c key s = upd_client c (\<lambda>x. x\<lparr>c_watched := c_watched x @ [(?db, key)]\<rparr>)
      (s\<lparr>s_watched := (s_watched s)(?db := (s_watched s ?db)(key \<mapsto> ?cl @ [c]))\<rparr>)"
    using False by (simp add: watchForKey_def Let_def)
  show ?thesis
    unfolding s' watch_inv_def using assms new False
    by (cases "s_watched s ?db key") (auto simp: watch_inv_def)
qed

lemma watch_inv_unwatch_loop:
  assumes "watch_inv s" "wks = c_watched (s_client s c)"
  shows "\<exists>s'. unwatch_loop c wks s = Some s' \<and> watch_inv s'
    \<and> s_client s' = (s_client s)(c := (s_client s c)\<lparr>c_watched := []\<rparr>) \<and> s_dict s' = s_dict s
    \<and> s_clients s' = s_clients s"
  using assms
proof (induction wks arbitrary: s)
  case Nil
  then show ?case by (auto simp: fun_eq_iff)
next
  case (Cons wk wks)
  obtain db key where wk: "wk = (db, key)" by (cases wk)
  have w: "c_watched (s_client s c) = (db, key) # wks" using Cons.prems wk by simp
  have "distinct (c_watched (s_client s c))" using Cons.prems by (simp add: watch_inv_def)
  then have w': "(db, key) \<notin> set wks" using w by simp
  have "(db, key) \<in> set (c_watched (s_client s c))" using w by simp
  then obtain cl where cl: "s_watched s db key = Some cl" "c \<in> set cl" "distinct cl"
    using Cons.prems(1) unfolding watch_inv_def by blast
  define s1 where "s1 = upd_client c (\<lambda>x. x\<lparr>c_watched := remove1 (db, key) (c_watched x)\<rparr>)
    (s\<lparr>s_watched := (s_watched s)(db := (s_watched s db)(key := if remove1 c cl = [] then None else Some (remove1 c cl)))\<rparr>)"
  have w1: "c_watched (s_client s1 c) = wks" using w by (simp add: s1_def)
  have "watch_inv s1"
    unfolding watch_inv_def
  proof (intro conjI allI impI)
    fix c' show "distinct (c_watched (s_client s1 c'))"
      using Cons.prems(1) by (simp add: s1_def watch_inv_def distinct_remove1)
  next
    fix db' key' cl' assume "s_watched s1 db' key' = Some cl'"
    then show "cl' \<noteq> []" "distinct cl'"
      using Cons.prems(1) cl(3) by (auto simp: s1_def watch_inv_def distinct_remove1 split: if_splits)
  next
    fix c' db' key'
    have "(db', key') \<in> set (c_watched (s_client s c')) \<longleftrightarrow> (\<exists>cl. s_watched s db' key' = Some cl \<and> c' \<in> set cl)"
      using Cons.prems(1) by (simp add: watch_inv_def)
    moreover have "set (remove1 c cl) = set cl - {c}" using cl(3) by (simp add: set_remove1_eq)
    moreover from this have "set cl \<subseteq> {c}" if "remove1 c cl = []" using that by auto
    ultimately show "(db', key') \<in> set (c_watched (s_client s1 c')) \<longleftrightarrow> (\<exists>cl. s_watched s1 db' key' = Some cl \<and> c' \<in> set cl)"
      using cl w w' by (auto simp: s1_def split: if_splits)
  qed
  from Cons.IH [OF this w1 [symmetric]] obtain s' where s': "unwatch_loop c wks s1 = Some s'" "watch_inv s'"
    "s_client s' = (s_client s1)(c := (s_client s1 c)\<lparr>c_watched := []\<rparr>)"
    "s_dict s' = s_dict s1" "s_clients s' = s_clients s1" by blast
  have "unwatch_loop c (wk # wks) s = unwatch_loop c wks s1"
    using cl by (simp add: wk s1_def Let_def)
  moreover have "s_client s' = (s_client s)(c := (s_client s c)\<lparr>c_watched := []\<rparr>)"
    using s'(3) by (simp add: s1_def)
  ultimately show ?case using s'(1,2,4,5) by (intro exI [of _ s']) (simp add: s1_def)
qed

lemma unwatchAllKeys_ok:
  assumes "watch_inv s"
  obtains s' where "unwatchAllKeys c s = Some s'" "watch_inv s'"
    "s_client s' = (s_client s)(c := (s_client s c)\<lparr>c_watched := []\<rparr>)" "s_dict s' = s_dict s"
    "s_clients s' = s_clients s"
proof (cases "c_watched (s_client s c) = []")
  case True
  show thesis by (rule that [of s]) (use True assms in \<open>auto simp: unwatchAllKeys_def fun_eq_iff\<close>)
next
  case False
  obtain s' where "unwatch_loop c (c_watched (s_client s c)) s = Some s'" "watch_inv s'"
    "s_client s' = (s_client s)(c := (s_client s c)\<lparr>c_watched := []\<rparr>)" "s_dict s' = s_dict s"
    "s_clients s' = s_clients s"
    using watch_inv_unwatch_loop [OF assms refl, of c] by blast
  then show thesis by (intro that [of s']) (use False in \<open>simp_all add: unwatchAllKeys_def\<close>)
qed

lemma discardTransaction_ok:
  assumes "watch_inv s"
  obtains s' where "discardTransaction c s = Some s'" "watch_inv s'" "s_dict s' = s_dict s"
    "s_client s' = (s_client s)(c := (s_client s c)\<lparr>c_multi := False, c_dirty_cas := False,
       c_dirty_exec := False, c_mstate := [], c_watched := []\<rparr>)"
proof -
  let ?f = "\<lambda>x. (initClientMultiState x)\<lparr>c_multi := False, c_dirty_cas := False, c_dirty_exec := False\<rparr>"
  have "watch_inv (upd_client c ?f s)"
    using assms by (subst watch_inv_upd) (simp_all add: initClientMultiState_def)
  then obtain s' where "unwatchAllKeys c (upd_client c ?f s) = Some s'" "watch_inv s'"
    "s_client s' = (s_client (upd_client c ?f s))(c := (s_client (upd_client c ?f s) c)\<lparr>c_watched := []\<rparr>)"
    "s_dict s' = s_dict s"
    by (rule unwatchAllKeys_ok [of _ c]) auto
  then show thesis
    by (intro that [of s']) (auto simp: discardTransaction_def initClientMultiState_def fun_eq_iff)
qed

section \<open>Histories\<close>

datatype mevent = EWatch cid "key list" | EUnwatch cid | ETouch dbid key | EFlush "dbid option"
  | EMulti cid | EDiscard cid | EQueue cid multiCmd | EFlag cid | ESelect cid dbid
  | EStore dbid key "byte list option"

fun multi_event :: "mevent \<Rightarrow> mserver \<Rightarrow> mserver option" where
  "multi_event (EWatch c keys) s = Some (watchCommand c (upd_client c (\<lambda>x. x\<lparr>c_argv := str ''WATCH'' # keys\<rparr>) s))"
| "multi_event (EUnwatch c) s = unwatchCommand c s"
| "multi_event (ETouch db key) s = Some (touchWatchedKey db key s)"
| "multi_event (EFlush db) s = Some (touchWatchedKeysOnFlush db s)"
| "multi_event (EMulti c) s = Some (multiCommand c s)"
| "multi_event (EDiscard c) s = discardCommand c s"
| "multi_event (EQueue c mc) s =
     Some (queueMultiCommand c (upd_client c (\<lambda>x. x\<lparr>c_argv := mc_argv mc, c_cmd := mc_cmd mc\<rparr>) s))"
| "multi_event (EFlag c) s = Some (flagTransaction c s)"
| "multi_event (ESelect c db) s = Some (upd_client c (\<lambda>x. x\<lparr>c_db := db\<rparr>) s)"
| "multi_event (EStore db key v) s = Some (s\<lparr>s_dict := (s_dict s)(db := (s_dict s db)(key := v))\<rparr>)"

fun multi_run :: "mevent list \<Rightarrow> mserver \<Rightarrow> mserver option" where
  "multi_run [] s = Some s"
| "multi_run (e # es) s = do { s \<leftarrow> multi_event e s; multi_run es s }"

text \<open>What an event leaves to a client: its watched keys and, once set, its dirty flag.\<close>

definition cas_le :: "cid \<Rightarrow> mserver \<Rightarrow> mserver \<Rightarrow> bool" where
  "cas_le c s s' \<longleftrightarrow> set (c_watched (s_client s c)) \<subseteq> set (c_watched (s_client s' c))
     \<and> (c_dirty_cas (s_client s c) \<longrightarrow> c_dirty_cas (s_client s' c))"

lemma cas_le_refl [simp]: "cas_le c s s"
  by (simp add: cas_le_def)

lemma cas_le_trans: "cas_le c s s' \<Longrightarrow> cas_le c s' s'' \<Longrightarrow> cas_le c s s''"
  by (auto simp: cas_le_def)

lemma cas_le_upd:
  "(\<And>x. c_watched (f x) = c_watched x) \<Longrightarrow> (\<And>x. c_dirty_cas x \<longrightarrow> c_dirty_cas (f x)) \<Longrightarrow> cas_le c s (upd_client c' f s)"
  by (simp add: cas_le_def)

lemma fold_pres:
  assumes "\<And>x s. P s \<Longrightarrow> x \<in> set xs \<Longrightarrow> P (f x s) \<and> cas_le c s (f x s)" "P s"
  shows "P (fold f xs s) \<and> cas_le c s (fold f xs s)"
  using assms
proof (induction xs arbitrary: s)
  case (Cons x xs)
  have x: "P (f x s)" "cas_le c s (f x s)" using Cons.prems by auto
  have "P (fold f xs (f x s)) \<and> cas_le c (f x s) (fold f xs (f x s))"
    by (rule Cons.IH) (use Cons.prems x in auto)
  then show ?case using cas_le_trans [OF x(2)] by simp
qed simp

lemma mark_ok: "watch_inv s \<Longrightarrow> watch_inv (mark_dirty_cas c' s) \<and> cas_le c s (mark_dirty_cas c' s)"
  by (simp add: mark_dirty_cas_def cas_le_def watch_inv_upd)

lemma watchForKey_ok: "watch_inv s \<Longrightarrow> watch_inv (watchForKey c' key s) \<and> cas_le c s (watchForKey c' key s)"
  using watch_inv_watchForKey by (auto simp: watchForKey_def Let_def cas_le_def)

lemma addReply_cas: "cas_le c s (addReply c' r s)"
  unfolding addReply_def by (rule cas_le_upd) simp_all

lemma touch_flushed_ok:
  "watch_inv s \<Longrightarrow> watch_inv (touch_flushed d c' wk s) \<and> cas_le c s (touch_flushed d c' wk s)"
  by (simp add: touch_flushed_def mark_ok)

lemma multi_event_ok:
  assumes "watch_inv s"
  shows "\<exists>s'. multi_event e s = Some s' \<and> watch_inv s' \<and> (e \<noteq> EUnwatch c \<and> e \<noteq> EDiscard c \<longrightarrow> cas_le c s s')"
proof (cases e)
  case (EWatch c' keys)
  define s0 where "s0 = upd_client c' (\<lambda>x. x\<lparr>c_argv := str ''WATCH'' # keys\<rparr>) s"
  have s0: "watch_inv s0" "cas_le c s s0"
    using assms by (simp_all add: s0_def watch_inv_upd cas_le_upd)
  have f: "watch_inv (fold (watchForKey c') ks s0) \<and> cas_le c s0 (fold (watchForKey c') ks s0)" for ks
    by (rule fold_pres [where P = watch_inv]) (rule watchForKey_ok, assumption, rule s0(1))
  have r: "watch_inv (addReply c' r t) \<and> cas_le c s0 (addReply c' r t)" if "watch_inv t \<and> cas_le c s0 t" for r t
    using that cas_le_trans [OF _ addReply_cas] by simp
  have "watch_inv (watchCommand c' s0) \<and> cas_le c s0 (watchCommand c' s0)"
    using r [OF f] r [of s0] s0(1) by (simp add: watchCommand_def)
  then have "watch_inv (watchCommand c' s0) \<and> cas_le c s (watchCommand c' s0)"
    using cas_le_trans [OF s0(2)] by blast
  then show ?thesis using EWatch by (simp add: s0_def)
next
  case (EUnwatch c')
  obtain s' where s': "unwatchAllKeys c' s = Some s'" "watch_inv s'"
    "s_client s' = (s_client s)(c' := (s_client s c')\<lparr>c_watched := []\<rparr>)"
    using unwatchAllKeys_ok [OF assms, of c'] by metis
  then show ?thesis using EUnwatch
    by (auto simp: unwatchCommand_def watch_inv_upd cas_le_def addReply_def)
next
  case (ETouch db key)
  show ?thesis
  proof (cases "s_watched s db key")
    case (Some cl)
    have "watch_inv (fold mark_dirty_cas cl s) \<and> cas_le c s (fold mark_dirty_cas cl s)"
      by (rule fold_pres [where P = watch_inv]) (rule mark_ok, assumption, rule assms)
    then show ?thesis using ETouch Some by (simp add: touchWatchedKey_def)
  qed (use ETouch assms in \<open>simp add: touchWatchedKey_def\<close>)
next
  case (EFlush d)
  have inner: "watch_inv (fold (touch_flushed d c') wks t) \<and> cas_le c t (fold (touch_flushed d c') wks t)"
    if "watch_inv t" for c' wks t
    by (rule fold_pres [where P = watch_inv]) (rule touch_flushed_ok, assumption, rule that)
  have "watch_inv (touchWatchedKeysOnFlush d s) \<and> cas_le c s (touchWatchedKeysOnFlush d s)"
    unfolding touchWatchedKeysOnFlush_def
    by (rule fold_pres [where P = watch_inv]) (erule inner, rule assms)
  then show ?thesis using EFlush by simp
next
  case (EMulti c')
  then show ?thesis using assms
    by (auto simp: multiCommand_def watch_inv_upd cas_le_def addReply_def)
next
  case (EDiscard c')
  obtain s' where "discardTransaction c' s = Some s'" "watch_inv s'"
    "s_client s' = (s_client s)(c' := (s_client s c')\<lparr>c_multi := False, c_dirty_cas := False,
       c_dirty_exec := False, c_mstate := [], c_watched := []\<rparr>)"
    using discardTransaction_ok [OF assms, of c'] by metis
  then show ?thesis using EDiscard assms
    by (auto simp: discardCommand_def watch_inv_upd cas_le_def addReply_def)
next
  case (EStore db key v)
  then show ?thesis using assms by (simp add: watch_inv_def cas_le_def)
qed (use assms in \<open>auto simp: queueMultiCommand_def flagTransaction_def watch_inv_upd cas_le_def\<close>)

lemma multi_run_ok:
  assumes "watch_inv s"
  shows "\<exists>s'. multi_run es s = Some s' \<and> watch_inv s'
    \<and> (EUnwatch c \<notin> set es \<and> EDiscard c \<notin> set es \<longrightarrow> cas_le c s s')"
  using assms
proof (induction es arbitrary: s)
  case (Cons e es)
  obtain s1 where s1: "multi_event e s = Some s1" "watch_inv s1" "e \<noteq> EUnwatch c \<and> e \<noteq> EDiscard c \<longrightarrow> cas_le c s s1"
    using multi_event_ok [OF Cons.prems] by blast
  obtain s2 where s2: "multi_run es s1 = Some s2" "watch_inv s2"
    "EUnwatch c \<notin> set es \<and> EDiscard c \<notin> set es \<longrightarrow> cas_le c s1 s2"
    using Cons.IH [OF s1(2)] by blast
  have "cas_le c s s2" if "EUnwatch c \<notin> set (e # es) \<and> EDiscard c \<notin> set (e # es)"
  proof -
    have "cas_le c s s1" "cas_le c s1 s2" using that s1(3) s2(3) by auto
    then show ?thesis by (rule cas_le_trans)
  qed
  then show ?case using s1(1) s2(1,2) by auto
qed simp

definition multi_start :: "mserver \<Rightarrow> bool" where
  "multi_start s \<longleftrightarrow> (\<forall>c. c_watched (s_client s c) = []) \<and> (\<forall>db. s_watched s db = Map.empty)"

text \<open>
  C20. The bookkeeping of WATCH is consistent after every history of WATCH, UNWATCH, MULTI,
  DISCARD, queued commands, touched and flushed keys, in any interleaving of clients: no
  assertion fails, no client or key is listed twice, no list of watchers is empty, and a
  client lists a key of a database exactly when that key lists the client.
\<close>

theorem watch_bookkeeping:
  assumes "multi_start s"
  shows "\<exists>s'. multi_run es s = Some s' \<and> watch_inv s'"
proof -
  have "watch_inv s" using assms by (simp add: multi_start_def watch_inv_def)
  then show ?thesis using multi_run_ok by blast
qed

definition idle_client :: mclient where
  "idle_client = \<lparr>c_multi = False, c_dirty_cas = False, c_dirty_exec = False, c_db = 0, c_argv = [],
     c_cmd = \<lparr>cmd_name = [], cmd_readonly = True\<rparr>, c_mstate = [], c_watched = [], c_replies = []\<rparr>"

definition idle_server :: mserver where
  "idle_server = \<lparr>s_clients = [1, 2], s_client = (\<lambda>_. idle_client), s_watched = (\<lambda>_. Map.empty),
     s_dict = (\<lambda>_. Map.empty), s_dirty = 0, s_propagated = [], s_monitors = [], s_loading = False,
     s_monitor_feed = []\<rparr>"

theorem watch_bookkeeping_witness:
  "multi_start idle_server \<and> (\<exists>s'. multi_run [EWatch 1 [[7], [8]], EWatch 2 [[7]], EUnwatch 1, ETouch 0 [7]] idle_server = Some s'
     \<and> watch_inv s')"
proof -
  have "multi_start idle_server" by (simp add: multi_start_def idle_server_def idle_client_def)
  then show ?thesis using watch_bookkeeping by blast
qed

lemma touch_marks:
  assumes "watch_inv s" "(db, key) \<in> set (c_watched (s_client s c))"
  shows "c_dirty_cas (s_client (touchWatchedKey db key s) c)"
proof -
  obtain cl where cl: "s_watched s db key = Some cl" "c \<in> set cl" using assms unfolding watch_inv_def by blast
  have keep: "c_dirty_cas (s_client (fold mark_dirty_cas xs t) c)" if "c_dirty_cas (s_client t c)" for xs t
    using that by (induction xs arbitrary: t) (simp_all add: mark_dirty_cas_def)
  have "c_dirty_cas (s_client (fold mark_dirty_cas xs t) c)" if "c \<in> set xs" for xs t
    using that
  proof (induction xs arbitrary: t)
    case (Cons x xs)
    have "c_dirty_cas (s_client (mark_dirty_cas c t) c)" by (simp add: mark_dirty_cas_def)
    then show ?case using Cons keep by (cases "x = c") simp_all
  qed simp
  then show ?thesis using cl by (simp add: touchWatchedKey_def)
qed

lemma execCommand_aborts:
  assumes "watch_inv s" "c_multi (s_client s c)" "c_dirty_cas (s_client s c) \<or> c_dirty_exec (s_client s c)"
  shows "\<exists>s'. (\<forall>call. execCommand call c s = Some s') \<and> s_dict s' = s_dict s \<and> watch_inv s'
    \<and> c_replies (s_client s' c) = c_replies (s_client s c) @
        [if c_dirty_exec (s_client s c) then ExecAbort else NullMultiBulk]
    \<and> c_mstate (s_client s' c) = [] \<and> \<not> c_multi (s_client s' c) \<and> \<not> c_dirty_cas (s_client s' c)
    \<and> c_watched (s_client s' c) = []"
proof -
  let ?r = "if c_dirty_exec (s_client s c) then ExecAbort else NullMultiBulk"
  have "watch_inv (addReply c ?r s)" using assms(1) by simp
  then obtain s' where s': "discardTransaction c (addReply c ?r s) = Some s'" "watch_inv s'"
    "s_dict s' = s_dict (addReply c ?r s)"
    "s_client s' = (s_client (addReply c ?r s))(c := (s_client (addReply c ?r s) c)\<lparr>c_multi := False,
       c_dirty_cas := False, c_dirty_exec := False, c_mstate := [], c_watched := []\<rparr>)"
    by (rule discardTransaction_ok)
  have f: "s_dict (feed_monitors c s') = s_dict s'" "s_client (feed_monitors c s') = s_client s'"
      "watch_inv (feed_monitors c s') \<longleftrightarrow> watch_inv s'"
    by (simp_all add: feed_monitors_def watch_inv_def)
  have "execCommand call c s = Some (feed_monitors c s')" for call
    using assms(2,3) s'(1) by (simp add: execCommand_def Let_def)
  then show ?thesis using s'(2,3,4) f
    by (intro exI [of _ "feed_monitors c s'"]) (simp add: addReply_def)
qed



section \<open>EXEC runs the queue\<close>

text \<open>
  What EXEC relies on in \<open>call\<close>: the command reads its arguments from the client, changes the
  data set as \<open>run1\<close> says, and leaves the queue and the consistency of WATCH alone.
\<close>

definition call_runs ::
  "(cid \<Rightarrow> mserver \<Rightarrow> mserver) \<Rightarrow> cid \<Rightarrow> (multiCmd \<Rightarrow> (dbid \<Rightarrow> key \<rightharpoonup> byte list) \<Rightarrow> (dbid \<Rightarrow> key \<rightharpoonup> byte list)) \<Rightarrow> bool" where
  "call_runs call c run1 \<longleftrightarrow> (\<forall>s. watch_inv s \<longrightarrow> watch_inv (call c s)
     \<and> c_mstate (s_client (call c s) c) = c_mstate (s_client s c)
     \<and> s_dict (call c s) = run1 \<lparr>mc_argv = c_argv (s_client s c), mc_cmd = c_cmd (s_client s c)\<rparr> (s_dict s))"

lemma exec_loop_runs:
  assumes "call_runs call c run1" "watch_inv s" "j + n \<le> length (c_mstate (s_client s c))"
  shows "\<exists>s' mp. exec_loop call c j n must s = (s', mp) \<and> watch_inv s'
    \<and> s_dict s' = fold run1 (take n (drop j (c_mstate (s_client s c)))) (s_dict s)
    \<and> (mp \<longleftrightarrow> must \<or> (\<exists>mc \<in> set (take n (drop j (c_mstate (s_client s c)))). \<not> cmd_readonly (mc_cmd mc)))"
  using assms(2,3)
proof (induction n arbitrary: j s must)
  case (Suc n)
  let ?q = "c_mstate (s_client s c)"
  let ?mc = "?q ! j"
  define fw where "fw = (\<not> must \<and> \<not> cmd_readonly (mc_cmd ?mc))"
  define s1 where "s1 = upd_client c (\<lambda>x. x\<lparr>c_argv := mc_argv ?mc, c_cmd := mc_cmd ?mc\<rparr>) s"
  define s2 where "s2 = (if fw then execCommandPropagateMulti c s1 else s1)"
  define s3 where "s3 = call c s2"
  define s4 where "s4 = upd_client c (\<lambda>x. x\<lparr>c_mstate := (c_mstate x)[j := \<lparr>mc_argv = c_argv x, mc_cmd = c_cmd x\<rparr>]\<rparr>) s3"
  have "watch_inv s1" using Suc.prems(1) by (simp add: s1_def watch_inv_upd)
  then have s2: "watch_inv s2" "c_mstate (s_client s2 c) = ?q" "s_dict s2 = s_dict s"
      "\<lparr>mc_argv = c_argv (s_client s2 c), mc_cmd = c_cmd (s_client s2 c)\<rparr> = ?mc"
    by (auto simp: s2_def s1_def execCommandPropagateMulti_def watch_inv_def)
  then have s3: "watch_inv s3" "c_mstate (s_client s3 c) = ?q" "s_dict s3 = run1 ?mc (s_dict s)"
    using assms(1) by (auto simp: call_runs_def s3_def)
  have s4: "watch_inv s4" "s_dict s4 = run1 ?mc (s_dict s)" "length (c_mstate (s_client s4 c)) = length ?q"
      "drop (Suc j) (c_mstate (s_client s4 c)) = drop (Suc j) ?q"
    using s3 by (simp_all add: s4_def watch_inv_upd)
  have len: "Suc j + n \<le> length (c_mstate (s_client s4 c))" using Suc.prems(2) s4(3) by simp
  obtain s' mp where IH: "exec_loop call c (Suc j) n (must \<or> fw) s4 = (s', mp)" "watch_inv s'"
    "s_dict s' = fold run1 (take n (drop (Suc j) ?q)) (s_dict s4)"
    "mp \<longleftrightarrow> (must \<or> fw) \<or> (\<exists>mc \<in> set (take n (drop (Suc j) ?q)). \<not> cmd_readonly (mc_cmd mc))"
    using Suc.IH [OF s4(1) len, of "must \<or> fw"] s4(4) by auto
  have d: "drop j ?q = ?mc # drop (Suc j) ?q" using Suc.prems(2) by (simp add: Cons_nth_drop_Suc)
  have "exec_loop call c j (Suc n) must s = exec_loop call c (Suc j) n (must \<or> fw) s4"
    by (simp add: Let_def s4_def s3_def s2_def s1_def fw_def)
  then show ?case using IH s4(2) by (auto simp: d fw_def)
qed auto



end
