(* ===== verification/Keyspace.thy ===== *)
theory Keyspace
  imports Util
begin

text \<open>
  \<open>db.c\<close>: the key space with its expire times, and the commands on keys. A database is two
  maps (the dictionaries \<open>dict\<close> and \<open>expires\<close>; the theory DictMap shows that the hash tables
  behave as maps). One record holds what the functions read and write of the server and of
  the calling client; \<open>mstime()\<close> is the field \<open>ks_now\<close>, and every call of
  \<open>signalModifiedKey\<close>, \<open>notifyKeyspaceEvent\<close>, \<open>propagateExpire\<close> and \<open>addReply\<close> is recorded in
  order. A string object is its bytes, whatever its encoding; other objects are opaque. A
  failed \<open>serverAssert\<close> and a signed overflow are \<open>None\<close>. Reference counts, access times and
  the slot index of cluster mode are not part of the model.
\<close>

section \<open>State\<close>

datatype obj_type = OBJ_LIST | OBJ_SET | OBJ_ZSET | OBJ_HASH
datatype robj = OString "byte list" | OColl obj_type nat

datatype kreply = ROk | RNullBulk | REmptyBulk | RInt int | RBulk "byte list" | RStatus string
  | RMultiLen nat | RWrongType | RSyntaxErr | RNoKeyErr | RSameObjectErr | ROutOfRangeErr | RError string

record redisDb =
  db_dict :: "byte list \<rightharpoonup> robj"
  db_expires :: "byte list \<rightharpoonup> int"

record ks =
  ks_db :: "nat \<Rightarrow> redisDb"
  ks_dbnum :: nat
  ks_cur :: nat
  ks_now :: int
  ks_loading :: bool
  ks_slave :: bool
  ks_lua :: "int option"
  ks_ro_client :: bool
  ks_cluster :: bool
  ks_dirty :: nat
  ks_hits :: nat
  ks_misses :: nat
  ks_expired :: nat
  ks_ready :: "(nat \<times> byte list) list"
  ks_signals :: "(nat \<times> byte list) list"
  ks_events :: "(string \<times> byte list \<times> nat) list"
  ks_propagated :: "(nat \<times> byte list list) list"
  ks_rewritten :: "byte list list option"
  ks_replies :: "kreply list"

definition upd_db :: "nat \<Rightarrow> (redisDb \<Rightarrow> redisDb) \<Rightarrow> ks \<Rightarrow> ks" where
  "upd_db d f s = s\<lparr>ks_db := (ks_db s)(d := f (ks_db s d))\<rparr>"

definition reply :: "kreply \<Rightarrow> ks \<Rightarrow> ks" where
  "reply r s = s\<lparr>ks_replies := ks_replies s @ [r]\<rparr>"

definition signalModifiedKey :: "nat \<Rightarrow> byte list \<Rightarrow> ks \<Rightarrow> ks" where
  "signalModifiedKey d key s = s\<lparr>ks_signals := ks_signals s @ [(d, key)]\<rparr>"

definition notifyKeyspaceEvent :: "string \<Rightarrow> byte list \<Rightarrow> nat \<Rightarrow> ks \<Rightarrow> ks" where
  "notifyKeyspaceEvent ev key d s = s\<lparr>ks_events := ks_events s @ [(ev, key, d)]\<rparr>"

definition incr_dirty :: "ks \<Rightarrow> ks" where
  "incr_dirty s = s\<lparr>ks_dirty := ks_dirty s + 1\<rparr>"

section \<open>Expires\<close>

definition removeExpire :: "nat \<Rightarrow> byte list \<Rightarrow> ks \<Rightarrow> (bool \<times> ks) option" where
  "removeExpire d key s =
     (if db_dict (ks_db s d) key = None then None
      else Some (db_expires (ks_db s d) key \<noteq> None,
                 upd_db d (\<lambda>x. x\<lparr>db_expires := (db_expires x)(key := None)\<rparr>) s))"

definition setExpire :: "nat \<Rightarrow> byte list \<Rightarrow> int \<Rightarrow> ks \<Rightarrow> ks option" where
  "setExpire d key t s =
     (if db_dict (ks_db s d) key = None then None
      else Some (upd_db d (\<lambda>x. x\<lparr>db_expires := (db_expires x)(key \<mapsto> t)\<rparr>) s))"

definition getExpire :: "nat \<Rightarrow> byte list \<Rightarrow> ks \<Rightarrow> int option" where
  "getExpire d key s =
     (case db_expires (ks_db s d) key of
        None \<Rightarrow> Some (- 1)
      | Some t \<Rightarrow> if db_dict (ks_db s d) key = None then None else Some t)"

definition propagateExpire :: "nat \<Rightarrow> byte list \<Rightarrow> ks \<Rightarrow> ks" where
  "propagateExpire d key s = s\<lparr>ks_propagated := ks_propagated s @ [(d, [str ''DEL'', key])]\<rparr>"

definition dbDelete :: "nat \<Rightarrow> byte list \<Rightarrow> ks \<Rightarrow> bool \<times> ks" where
  "dbDelete d key s =
     (db_dict (ks_db s d) key \<noteq> None,
      upd_db d (\<lambda>x. x\<lparr>db_expires := (db_expires x)(key := None), db_dict := (db_dict x)(key := None)\<rparr>) s)"

definition expireIfNeeded :: "nat \<Rightarrow> byte list \<Rightarrow> ks \<Rightarrow> (bool \<times> ks) option" where
  "expireIfNeeded d key s = do {
     t \<leftarrow> getExpire d key s;
     if t < 0 then Some (False, s)
     else if ks_loading s then Some (False, s)
     else do {
       let now = (case ks_lua s of Some start \<Rightarrow> start | None \<Rightarrow> ks_now s);
       if ks_slave s then Some (now > t, s)
       else if now \<le> t then Some (False, s)
       else do {
         let s = s\<lparr>ks_expired := ks_expired s + 1\<rparr>;
         let s = propagateExpire d key s;
         let s = notifyKeyspaceEvent ''expired'' key d s;
         Some (dbDelete d key s)
       }
     }
   }"

section \<open>Lookups and updates\<close>

definition lookupKey :: "nat \<Rightarrow> byte list \<Rightarrow> ks \<Rightarrow> robj option" where
  "lookupKey d key s = db_dict (ks_db s d) key"

definition lookupKeyReadWithFlags :: "nat \<Rightarrow> byte list \<Rightarrow> ks \<Rightarrow> (robj option \<times> ks) option" where
  "lookupKeyReadWithFlags d key s = do {
     (expired, s) \<leftarrow> expireIfNeeded d key s;
     if expired \<and> (\<not> ks_slave s \<or> ks_ro_client s) then Some (None, s)
     else do {
       let val = lookupKey d key s;
       Some (val, if val = None then s\<lparr>ks_misses := ks_misses s + 1\<rparr> else s\<lparr>ks_hits := ks_hits s + 1\<rparr>)
     }
   }"

definition lookupKeyRead :: "nat \<Rightarrow> byte list \<Rightarrow> ks \<Rightarrow> (robj option \<times> ks) option" where
  "lookupKeyRead = lookupKeyReadWithFlags"

definition lookupKeyWrite :: "nat \<Rightarrow> byte list \<Rightarrow> ks \<Rightarrow> (robj option \<times> ks) option" where
  "lookupKeyWrite d key s = do { (_, s) \<leftarrow> expireIfNeeded d key s; Some (lookupKey d key s, s) }"

definition lookupKeyReadOrReply :: "byte list \<Rightarrow> kreply \<Rightarrow> ks \<Rightarrow> (robj option \<times> ks) option" where
  "lookupKeyReadOrReply key r s = do {
     (ob, s) \<leftarrow> lookupKeyRead (ks_cur s) key s;
     Some (ob, if ob = None then reply r s else s) }"

definition lookupKeyWriteOrReply :: "byte list \<Rightarrow> kreply \<Rightarrow> ks \<Rightarrow> (robj option \<times> ks) option" where
  "lookupKeyWriteOrReply key r s = do {
     (ob, s) \<leftarrow> lookupKeyWrite (ks_cur s) key s;
     Some (ob, if ob = None then reply r s else s) }"

definition dbAdd :: "nat \<Rightarrow> byte list \<Rightarrow> robj \<Rightarrow> ks \<Rightarrow> ks option" where
  "dbAdd d key val s =
     (if db_dict (ks_db s d) key \<noteq> None then None
      else let s = upd_db d (\<lambda>x. x\<lparr>db_dict := (db_dict x)(key \<mapsto> val)\<rparr>) s in
        Some (case val of OColl OBJ_LIST _ \<Rightarrow> s\<lparr>ks_ready := ks_ready s @ [(d, key)]\<rparr> | _ \<Rightarrow> s))"

definition dbOverwrite :: "nat \<Rightarrow> byte list \<Rightarrow> robj \<Rightarrow> ks \<Rightarrow> ks option" where
  "dbOverwrite d key val s =
     (if db_dict (ks_db s d) key = None then None
      else Some (upd_db d (\<lambda>x. x\<lparr>db_dict := (db_dict x)(key \<mapsto> val)\<rparr>) s))"

definition setKey :: "nat \<Rightarrow> byte list \<Rightarrow> robj \<Rightarrow> ks \<Rightarrow> ks option" where
  "setKey d key val s = do {
     (old, s) \<leftarrow> lookupKeyWrite d key s;
     s \<leftarrow> (if old = None then dbAdd d key val s else dbOverwrite d key val s);
     (_, s) \<leftarrow> removeExpire d key s;
     Some (signalModifiedKey d key s) }"

definition dbExists :: "nat \<Rightarrow> byte list \<Rightarrow> ks \<Rightarrow> bool" where
  "dbExists d key s = (db_dict (ks_db s d) key \<noteq> None)"

definition selectDb :: "int \<Rightarrow> ks \<Rightarrow> ks option" where
  "selectDb i s = (if i < 0 \<or> i \<ge> int (ks_dbnum s) then None else Some (s\<lparr>ks_cur := nat i\<rparr>))"

text \<open>\<open>object.c\<close>: reading an integer argument; \<open>None\<close> in the first component is an error.\<close>

definition getLongLongFromObject :: "robj option \<Rightarrow> int option option" where
  "getLongLongFromObject ob =
     (case ob of None \<Rightarrow> Some (Some 0) | Some (OString b) \<Rightarrow> Some (string2ll b) | Some (OColl _ _) \<Rightarrow> None)"

definition getLongLongFromObjectOrReply :: "robj option \<Rightarrow> string \<Rightarrow> ks \<Rightarrow> (int option \<times> ks) option" where
  "getLongLongFromObjectOrReply ob msg s = do {
     v \<leftarrow> getLongLongFromObject ob;
     Some (v, if v = None then reply (RError msg) s else s) }"

abbreviation not_an_integer :: string where
  "not_an_integer \<equiv> ''value is not an integer or out of range''"

text \<open>Signed 64-bit arithmetic; an overflow is undefined.\<close>

definition ll_ok :: "int \<Rightarrow> int option" where
  "ll_ok v = (if INT64_MIN \<le> v \<and> v \<le> INT64_MAX then Some v else None)"

section \<open>Commands on keys\<close>

fun del_loop :: "byte list list \<Rightarrow> nat \<Rightarrow> ks \<Rightarrow> (nat \<times> ks) option" where
  "del_loop [] deleted s = Some (deleted, s)"
| "del_loop (key # keys) deleted s = do {
     (_, s) \<leftarrow> expireIfNeeded (ks_cur s) key s;
     let (ok, s) = dbDelete (ks_cur s) key s;
     if ok then del_loop keys (deleted + 1) (incr_dirty (notifyKeyspaceEvent ''del'' key (ks_cur s)
       (signalModifiedKey (ks_cur s) key s)))
     else del_loop keys deleted s }"

definition delCommand :: "byte list list \<Rightarrow> ks \<Rightarrow> ks option" where
  "delCommand keys s = do { (deleted, s) \<leftarrow> del_loop keys 0 s; Some (reply (RInt (int deleted)) s) }"

fun exists_loop :: "byte list list \<Rightarrow> nat \<Rightarrow> ks \<Rightarrow> (nat \<times> ks) option" where
  "exists_loop [] count s = Some (count, s)"
| "exists_loop (key # keys) count s = do {
     (_, s) \<leftarrow> expireIfNeeded (ks_cur s) key s;
     exists_loop keys (if dbExists (ks_cur s) key s then count + 1 else count) s }"

definition existsCommand :: "byte list list \<Rightarrow> ks \<Rightarrow> ks option" where
  "existsCommand keys s = do { (count, s) \<leftarrow> exists_loop keys 0 s; Some (reply (RInt (int count)) s) }"

definition selectCommand :: "byte list \<Rightarrow> ks \<Rightarrow> ks option" where
  "selectCommand arg s = do {
     (i, s) \<leftarrow> getLongLongFromObjectOrReply (Some (OString arg)) ''invalid DB index'' s;
     case i of
       None \<Rightarrow> Some s
     | Some i \<Rightarrow>
         if ks_cluster s \<and> i \<noteq> 0 then Some (reply (RError ''SELECT is not allowed in cluster mode'') s)
         else (case selectDb i s of
             None \<Rightarrow> Some (reply (RError ''invalid DB index'') s)
           | Some s \<Rightarrow> Some (reply ROk s)) }"

definition typeCommand :: "byte list \<Rightarrow> ks \<Rightarrow> ks option" where
  "typeCommand key s = do {
     (ob, s) \<leftarrow> lookupKeyReadWithFlags (ks_cur s) key s;
     Some (reply (RStatus (case ob of
         None \<Rightarrow> ''none''
       | Some (OString _) \<Rightarrow> ''string''
       | Some (OColl OBJ_LIST _) \<Rightarrow> ''list''
       | Some (OColl OBJ_SET _) \<Rightarrow> ''set''
       | Some (OColl OBJ_ZSET _) \<Rightarrow> ''zset''
       | Some (OColl OBJ_HASH _) \<Rightarrow> ''hash'')) s) }"

definition renameGenericCommand :: "byte list \<Rightarrow> byte list \<Rightarrow> bool \<Rightarrow> ks \<Rightarrow> ks option" where
  "renameGenericCommand src dst nx s = do {
     let d = ks_cur s;
     (ob, s) \<leftarrow> lookupKeyWriteOrReply src RNoKeyErr s;
     case ob of
       None \<Rightarrow> Some s
     | Some v \<Rightarrow>
         if src = dst then Some (reply (if nx then RInt 0 else ROk) s)
         else do {
           expire \<leftarrow> getExpire d src s;
           (old, s) \<leftarrow> lookupKeyWrite d dst s;
           if old \<noteq> None \<and> nx then Some (reply (RInt 0) s)
           else do {
             let s = (if old \<noteq> None then snd (dbDelete d dst s) else s);
             s \<leftarrow> dbAdd d dst v s;
             s \<leftarrow> (if expire \<noteq> - 1 then setExpire d dst expire s else Some s);
             let s = snd (dbDelete d src s);
             let s = signalModifiedKey d dst (signalModifiedKey d src s);
             let s = notifyKeyspaceEvent ''rename_to'' dst d (notifyKeyspaceEvent ''rename_from'' src d s);
             Some (reply (if nx then RInt 1 else ROk) (incr_dirty s))
           }
         } }"

definition moveCommand :: "byte list \<Rightarrow> byte list \<Rightarrow> ks \<Rightarrow> ks option" where
  "moveCommand key arg s =
     (if ks_cluster s then Some (reply (RError ''MOVE is not allowed in cluster mode'') s)
      else let src = ks_cur s in
        (case (case string2ll arg of None \<Rightarrow> None
               | Some i \<Rightarrow> if i < INT32_MIN \<or> i > INT32_MAX then None else selectDb i s) of
           None \<Rightarrow> Some (reply ROutOfRangeErr s)
         | Some s' \<Rightarrow> let dst = ks_cur s' in
             if src = dst then Some (reply RSameObjectErr s)
             else do {
               (ob, s) \<leftarrow> lookupKeyWrite src key s;
               case ob of
                 None \<Rightarrow> Some (reply (RInt 0) s)
               | Some v \<Rightarrow> do {
                   expire \<leftarrow> getExpire src key s;
                   (old, s) \<leftarrow> lookupKeyWrite dst key s;
                   if old \<noteq> None then Some (reply (RInt 0) s)
                   else do {
                     s \<leftarrow> dbAdd dst key v s;
                     s \<leftarrow> (if expire \<noteq> - 1 then setExpire dst key expire s else Some s);
                     let s = snd (dbDelete src key s);
                     Some (reply (RInt 1) (incr_dirty s))
                   }
                 }
             }))"

datatype time_unit = UNIT_SECONDS | UNIT_MILLISECONDS

definition expireGenericCommand :: "byte list \<Rightarrow> byte list \<Rightarrow> int \<Rightarrow> time_unit \<Rightarrow> ks \<Rightarrow> ks option" where
  "expireGenericCommand key param basetime unit s = do {
     let d = ks_cur s;
     (v, s) \<leftarrow> getLongLongFromObjectOrReply (Some (OString param)) not_an_integer s;
     case v of
       None \<Rightarrow> Some s
     | Some t \<Rightarrow> do {
         t \<leftarrow> (if unit = UNIT_SECONDS then ll_ok (t * 1000) else Some t);
         t \<leftarrow> ll_ok (t + basetime);
         (ob, s) \<leftarrow> lookupKeyWrite d key s;
         if ob = None then Some (reply (RInt 0) s)
         else if t \<le> ks_now s \<and> \<not> ks_loading s \<and> \<not> ks_slave s then do {
           let (ok, s) = dbDelete d key s;
           if \<not> ok then None
           else do {
             let s = (incr_dirty s)\<lparr>ks_rewritten := Some [str ''DEL'', key]\<rparr>;
             let s = notifyKeyspaceEvent ''del'' key d (signalModifiedKey d key s);
             Some (reply (RInt 1) s)
           }
         }
         else do {
           s \<leftarrow> setExpire d key t s;
           let s = signalModifiedKey d key (reply (RInt 1) s);
           Some (incr_dirty (notifyKeyspaceEvent ''expire'' key d s))
         }
       } }"

definition expireCommand :: "byte list \<Rightarrow> byte list \<Rightarrow> ks \<Rightarrow> ks option" where
  "expireCommand key param s = expireGenericCommand key param (ks_now s) UNIT_SECONDS s"

definition expireatCommand :: "byte list \<Rightarrow> byte list \<Rightarrow> ks \<Rightarrow> ks option" where
  "expireatCommand key param s = expireGenericCommand key param 0 UNIT_SECONDS s"

definition pexpireCommand :: "byte list \<Rightarrow> byte list \<Rightarrow> ks \<Rightarrow> ks option" where
  "pexpireCommand key param s = expireGenericCommand key param (ks_now s) UNIT_MILLISECONDS s"

definition pexpireatCommand :: "byte list \<Rightarrow> byte list \<Rightarrow> ks \<Rightarrow> ks option" where
  "pexpireatCommand key param s = expireGenericCommand key param 0 UNIT_MILLISECONDS s"

definition ttlGenericCommand :: "byte list \<Rightarrow> bool \<Rightarrow> ks \<Rightarrow> ks option" where
  "ttlGenericCommand key output_ms s = do {
     let d = ks_cur s;
     (ob, s) \<leftarrow> lookupKeyReadWithFlags d key s;
     if ob = None then Some (reply (RInt (- 2)) s)
     else do {
       expire \<leftarrow> getExpire d key s;
       let ttl = (if expire \<noteq> - 1 then (let t = expire - ks_now s in if t < 0 then 0 else t) else - 1);
       Some (reply (RInt (if ttl = - 1 then - 1 else if output_ms then ttl else (ttl + 500) div 1000)) s)
     } }"

definition persistCommand :: "byte list \<Rightarrow> ks \<Rightarrow> ks option" where
  "persistCommand key s =
     (if db_dict (ks_db s (ks_cur s)) key = None then Some (reply (RInt 0) s)
      else do {
        (removed, s) \<leftarrow> removeExpire (ks_cur s) key s;
        Some (if removed then incr_dirty (reply (RInt 1) s) else reply (RInt 0) s) })"

fun touch_loop :: "byte list list \<Rightarrow> nat \<Rightarrow> ks \<Rightarrow> (nat \<times> ks) option" where
  "touch_loop [] touched s = Some (touched, s)"
| "touch_loop (key # keys) touched s = do {
     (ob, s) \<leftarrow> lookupKeyRead (ks_cur s) key s;
     touch_loop keys (if ob \<noteq> None then touched + 1 else touched) s }"

definition touchCommand :: "byte list list \<Rightarrow> ks \<Rightarrow> ks option" where
  "touchCommand keys s = do { (touched, s) \<leftarrow> touch_loop keys 0 s; Some (reply (RInt (int touched)) s) }"

section \<open>The invariant\<close>

text \<open>Only keys that exist have an expire time.\<close>

definition ks_inv :: "ks \<Rightarrow> bool" where
  "ks_inv s \<longleftrightarrow> (\<forall>d key. db_dict (ks_db s d) key = None \<longrightarrow> db_expires (ks_db s d) key = None)"

named_theorems ks_ops \<open>the operations on the key space keep the invariant\<close>

lemma ks_inv_simps [simp]:
  "ks_inv (reply r s) = ks_inv s" "ks_inv (signalModifiedKey d key s) = ks_inv s"
  "ks_inv (notifyKeyspaceEvent ev key d s) = ks_inv s" "ks_inv (incr_dirty s) = ks_inv s"
  "ks_inv (propagateExpire d key s) = ks_inv s"
  "ks_inv (s\<lparr>ks_expired := n\<rparr>) = ks_inv s" "ks_inv (s\<lparr>ks_hits := n\<rparr>) = ks_inv s"
  "ks_inv (s\<lparr>ks_misses := n\<rparr>) = ks_inv s" "ks_inv (s\<lparr>ks_dirty := n\<rparr>) = ks_inv s"
  "ks_inv (s\<lparr>ks_ready := l\<rparr>) = ks_inv s" "ks_inv (s\<lparr>ks_rewritten := w\<rparr>) = ks_inv s"
  "ks_inv (s\<lparr>ks_cur := d\<rparr>) = ks_inv s"
  by (simp_all add: ks_inv_def reply_def signalModifiedKey_def notifyKeyspaceEvent_def incr_dirty_def propagateExpire_def)

lemma dbDelete_inv [ks_ops]: "dbDelete d key s = (b, s') \<Longrightarrow> ks_inv s \<Longrightarrow> ks_inv s'"
  by (auto simp: dbDelete_def ks_inv_def upd_db_def)

lemma dbDelete_snd_inv [simp]: "ks_inv s \<Longrightarrow> ks_inv (snd (dbDelete d key s))"
  by (simp add: dbDelete_inv [OF surjective_pairing])

lemma removeExpire_inv [ks_ops]: "removeExpire d key s = Some (b, s') \<Longrightarrow> ks_inv s \<Longrightarrow> ks_inv s'"
  by (auto simp: removeExpire_def ks_inv_def upd_db_def split: if_splits)

lemma setExpire_inv [ks_ops]: "setExpire d key t s = Some s' \<Longrightarrow> ks_inv s \<Longrightarrow> ks_inv s'"
  by (auto simp: setExpire_def ks_inv_def upd_db_def split: if_splits)

lemma dbAdd_inv [ks_ops]: "dbAdd d key v s = Some s' \<Longrightarrow> ks_inv s \<Longrightarrow> ks_inv s'"
  by (auto simp: dbAdd_def ks_inv_def upd_db_def Let_def split: if_splits robj.splits obj_type.splits)

lemma dbOverwrite_inv [ks_ops]: "dbOverwrite d key v s = Some s' \<Longrightarrow> ks_inv s \<Longrightarrow> ks_inv s'"
  by (auto simp: dbOverwrite_def ks_inv_def upd_db_def split: if_splits)

lemma expireIfNeeded_inv [ks_ops]: "expireIfNeeded d key s = Some (b, s') \<Longrightarrow> ks_inv s \<Longrightarrow> ks_inv s'"
  by (auto simp: expireIfNeeded_def Let_def split: if_splits elim!: option_bind_SomeE dest!: dbDelete_inv)

lemma lookupKeyWrite_inv [ks_ops]: "lookupKeyWrite d key s = Some (ob, s') \<Longrightarrow> ks_inv s \<Longrightarrow> ks_inv s'"
  by (auto simp: lookupKeyWrite_def elim!: option_bind_SomeE dest!: ks_ops)

lemma lookupKeyReadWithFlags_inv [ks_ops]:
  "lookupKeyReadWithFlags d key s = Some (ob, s') \<Longrightarrow> ks_inv s \<Longrightarrow> ks_inv s'"
  by (auto simp: lookupKeyReadWithFlags_def Let_def split: if_splits elim!: option_bind_SomeE dest!: ks_ops)

lemma lookupKeyRead_inv [ks_ops]: "lookupKeyRead d key s = Some (ob, s') \<Longrightarrow> ks_inv s \<Longrightarrow> ks_inv s'"
  unfolding lookupKeyRead_def by (rule lookupKeyReadWithFlags_inv)

lemma lookupKeyReadOrReply_inv [ks_ops]: "lookupKeyReadOrReply key r s = Some (ob, s') \<Longrightarrow> ks_inv s \<Longrightarrow> ks_inv s'"
  by (auto simp: lookupKeyReadOrReply_def split: if_splits elim!: option_bind_SomeE dest!: ks_ops)

lemma lookupKeyWriteOrReply_inv [ks_ops]: "lookupKeyWriteOrReply key r s = Some (ob, s') \<Longrightarrow> ks_inv s \<Longrightarrow> ks_inv s'"
  by (auto simp: lookupKeyWriteOrReply_def split: if_splits elim!: option_bind_SomeE dest!: ks_ops)

lemma setKey_inv [ks_ops]: "setKey d key v s = Some s' \<Longrightarrow> ks_inv s \<Longrightarrow> ks_inv s'"
  by (auto simp: setKey_def split: if_splits elim!: option_bind_SomeE dest!: ks_ops)

lemma getLongLong_inv [ks_ops]: "getLongLongFromObjectOrReply ob msg s = Some (v, s') \<Longrightarrow> ks_inv s \<Longrightarrow> ks_inv s'"
  by (auto simp: getLongLongFromObjectOrReply_def split: if_splits elim!: option_bind_SomeE)

lemma selectDb_inv [ks_ops]: "selectDb i s = Some s' \<Longrightarrow> ks_inv s \<Longrightarrow> ks_inv s'"
  by (auto simp: selectDb_def split: if_splits)

lemma del_loop_inv: "del_loop keys n s = Some (m, s') \<Longrightarrow> ks_inv s \<Longrightarrow> ks_inv s'"
proof (induction keys arbitrary: n s)
  case (Cons key keys)
  obtain b s1 where s1: "expireIfNeeded (ks_cur s) key s = Some (b, s1)"
    using Cons.prems(1) by (auto elim!: option_bind_SomeE)
  obtain ok s2 where s2: "dbDelete (ks_cur s1) key s1 = (ok, s2)" by (cases "dbDelete (ks_cur s1) key s1")
  have "ks_inv s2" using s1 s2 Cons.prems(2) by (blast dest: ks_ops)
  then show ?case using Cons.prems(1) s1 s2 Cons.IH by (auto split: if_splits)
qed simp

lemma exists_loop_inv: "exists_loop keys n s = Some (m, s') \<Longrightarrow> ks_inv s \<Longrightarrow> ks_inv s'"
  by (induction keys arbitrary: n s) (auto elim!: option_bind_SomeE dest!: ks_ops)

lemma touch_loop_inv: "touch_loop keys n s = Some (m, s') \<Longrightarrow> ks_inv s \<Longrightarrow> ks_inv s'"
  by (induction keys arbitrary: n s) (auto elim!: option_bind_SomeE dest!: ks_ops)

lemma rename_inv: "renameGenericCommand a b nx s = Some s' \<Longrightarrow> ks_inv s \<Longrightarrow> ks_inv s'"
  by (auto simp: renameGenericCommand_def Let_def split: if_splits option.splits elim!: option_bind_SomeE
      dest!: ks_ops)

lemma move_inv: "moveCommand a b s = Some s' \<Longrightarrow> ks_inv s \<Longrightarrow> ks_inv s'"
  by (auto simp: moveCommand_def Let_def split: if_splits option.splits elim!: option_bind_SomeE
      dest!: ks_ops)

lemma expireGeneric_inv: "expireGenericCommand key p base u s = Some s' \<Longrightarrow> ks_inv s \<Longrightarrow> ks_inv s'"
  by (auto simp: expireGenericCommand_def Let_def split: if_splits option.splits prod.splits elim!: option_bind_SomeE
      dest!: ks_ops)

lemma ttl_inv: "ttlGenericCommand key ms s = Some s' \<Longrightarrow> ks_inv s \<Longrightarrow> ks_inv s'"
  by (auto simp: ttlGenericCommand_def Let_def split: if_splits elim!: option_bind_SomeE dest!: ks_ops)

lemma persist_inv: "persistCommand key s = Some s' \<Longrightarrow> ks_inv s \<Longrightarrow> ks_inv s'"
  by (auto simp: persistCommand_def split: if_splits elim!: option_bind_SomeE dest!: ks_ops)

end
