(* ===== verification/TString.thy ===== *)
theory TString
  imports Keyspace
begin

text \<open>
  \<open>t_string.c\<close>: the commands on string values, on the state of theory Keyspace. The argument
  vector of a command is given by its entries. \<open>incrbyfloatCommand\<close> works on \<open>long double\<close>
  values and is not modelled.
\<close>

section \<open>SET and GET\<close>

definition checkType :: "robj \<Rightarrow> ks \<Rightarrow> (byte list, ks) sum" where
  "checkType ob s = (case ob of OString b \<Rightarrow> Inl b | OColl _ _ \<Rightarrow> Inr (reply RWrongType s))"

text \<open>
  The size is a \<open>long long\<close>, converted from a sum of type \<open>size_t\<close>: a sum above \<open>2 ^ 63\<close>
  becomes negative.
\<close>

definition size_as_ll :: "nat \<Rightarrow> int" where
  "size_as_ll n = sint (of_nat n :: u64)"

definition checkStringLength :: "nat \<Rightarrow> ks \<Rightarrow> bool \<times> ks" where
  "checkStringLength n s =
     (if size_as_ll n > 512 * 1024 * 1024
      then (False, reply (RError ''string exceeds maximum allowed size (512MB)'') s) else (True, s))"

record set_flags =
  set_nx :: bool
  set_xx :: bool
  set_ex :: bool
  set_px :: bool

definition no_flags :: set_flags where
  "no_flags = \<lparr>set_nx = False, set_xx = False, set_ex = False, set_px = False\<rparr>"

definition set_apply :: "nat \<Rightarrow> byte list \<Rightarrow> byte list \<Rightarrow> int option \<Rightarrow> kreply option \<Rightarrow> ks \<Rightarrow> ks option" where
  "set_apply d key val ms ok_reply s = do {
     s \<leftarrow> setKey d key (OString val) s;
     let s = incr_dirty s;
     s \<leftarrow> (case ms of Some ms \<Rightarrow> do { t \<leftarrow> ll_ok (ks_now s + ms); setExpire d key t s } | None \<Rightarrow> Some s);
     let s = notifyKeyspaceEvent ''set'' key d s;
     let s = (if ms \<noteq> None then notifyKeyspaceEvent ''expire'' key d s else s);
     Some (reply (case ok_reply of Some r \<Rightarrow> r | None \<Rightarrow> ROk) s) }"

definition set_conditional ::
  "set_flags \<Rightarrow> nat \<Rightarrow> byte list \<Rightarrow> byte list \<Rightarrow> int option \<Rightarrow> kreply option \<Rightarrow> kreply option \<Rightarrow> ks \<Rightarrow> ks option" where
  "set_conditional flags d key val ms ok_reply abort_reply s = do {
     (nx_fails, s) \<leftarrow> (if set_nx flags then map_option (\<lambda>(ob, s). (ob \<noteq> None, s)) (lookupKeyWrite d key s)
       else Some (False, s));
     (fails, s) \<leftarrow> (if nx_fails then Some (True, s)
       else if set_xx flags then map_option (\<lambda>(ob, s). (ob = None, s)) (lookupKeyWrite d key s)
       else Some (False, s));
     if fails then Some (reply (case abort_reply of Some r \<Rightarrow> r | None \<Rightarrow> RNullBulk) s)
     else set_apply d key val ms ok_reply s }"

definition setGenericCommand ::
  "set_flags \<Rightarrow> byte list \<Rightarrow> byte list \<Rightarrow> byte list option \<Rightarrow> time_unit \<Rightarrow> kreply option \<Rightarrow> kreply option \<Rightarrow> ks \<Rightarrow> ks option" where
  "setGenericCommand flags key val expire unit ok_reply abort_reply s =
     (case expire of
        None \<Rightarrow> set_conditional flags (ks_cur s) key val None ok_reply abort_reply s
      | Some e \<Rightarrow> do {
          (v, s) \<leftarrow> getLongLongFromObjectOrReply (Some (OString e)) not_an_integer s;
          case v of
            None \<Rightarrow> Some s
          | Some v \<Rightarrow>
              if v \<le> 0 then Some (reply (RError ''invalid expire time'') s)
              else do {
                ms \<leftarrow> (if unit = UNIT_SECONDS then ll_ok (v * 1000) else Some v);
                set_conditional flags (ks_cur s) key val (Some ms) ok_reply abort_reply s } })"

text \<open>
  The options of SET: the option words are compared with a NUL behind them, so an argument
  counts as an option when its bytes up to the first NUL are the word.
\<close>

definition opt_is :: "byte list \<Rightarrow> string \<Rightarrow> bool" where
  "opt_is a w \<longleftrightarrow> map (\<lambda>b. if 65 \<le> b \<and> b \<le> 90 then b + 32 else b) (takeWhile (\<lambda>b. b \<noteq> 0) a) = str w"

fun set_options :: "byte list list \<Rightarrow> set_flags \<Rightarrow> byte list option \<Rightarrow> time_unit \<Rightarrow>
    (set_flags \<times> byte list option \<times> time_unit) option" where
  "set_options [] flags expire unit = Some (flags, expire, unit)"
| "set_options (a # rest) flags expire unit =
     (if opt_is a ''nx'' \<and> \<not> set_xx flags then set_options rest (flags\<lparr>set_nx := True\<rparr>) expire unit
      else if opt_is a ''xx'' \<and> \<not> set_nx flags then set_options rest (flags\<lparr>set_xx := True\<rparr>) expire unit
      else (case rest of
          [] \<Rightarrow> None
        | e # rest' \<Rightarrow>
            if opt_is a ''ex'' \<and> \<not> set_px flags then set_options rest' (flags\<lparr>set_ex := True\<rparr>) (Some e) UNIT_SECONDS
            else if opt_is a ''px'' \<and> \<not> set_ex flags then set_options rest' (flags\<lparr>set_px := True\<rparr>) (Some e) UNIT_MILLISECONDS
            else None))"

definition setCommand :: "byte list \<Rightarrow> byte list \<Rightarrow> byte list list \<Rightarrow> ks \<Rightarrow> ks option" where
  "setCommand key val opts s =
     (case set_options opts no_flags None UNIT_SECONDS of
        None \<Rightarrow> Some (reply RSyntaxErr s)
      | Some (flags, expire, unit) \<Rightarrow> setGenericCommand flags key val expire unit None None s)"

definition setnxCommand :: "byte list \<Rightarrow> byte list \<Rightarrow> ks \<Rightarrow> ks option" where
  "setnxCommand key val s =
     setGenericCommand (no_flags\<lparr>set_nx := True\<rparr>) key val None UNIT_SECONDS (Some (RInt 1)) (Some (RInt 0)) s"

definition setexCommand :: "byte list \<Rightarrow> byte list \<Rightarrow> byte list \<Rightarrow> ks \<Rightarrow> ks option" where
  "setexCommand key expire val s = setGenericCommand no_flags key val (Some expire) UNIT_SECONDS None None s"

definition psetexCommand :: "byte list \<Rightarrow> byte list \<Rightarrow> byte list \<Rightarrow> ks \<Rightarrow> ks option" where
  "psetexCommand key expire val s = setGenericCommand no_flags key val (Some expire) UNIT_MILLISECONDS None None s"

definition getGenericCommand :: "byte list \<Rightarrow> ks \<Rightarrow> (bool \<times> ks) option" where
  "getGenericCommand key s = do {
     (ob, s) \<leftarrow> lookupKeyReadOrReply key RNullBulk s;
     Some (case ob of
         None \<Rightarrow> (True, s)
       | Some (OColl _ _) \<Rightarrow> (False, reply RWrongType s)
       | Some (OString b) \<Rightarrow> (True, reply (RBulk b) s)) }"

definition getCommand :: "byte list \<Rightarrow> ks \<Rightarrow> ks option" where
  "getCommand key s = map_option snd (getGenericCommand key s)"

definition getsetCommand :: "byte list \<Rightarrow> byte list \<Rightarrow> ks \<Rightarrow> ks option" where
  "getsetCommand key val s = do {
     (ok, s) \<leftarrow> getGenericCommand key s;
     if \<not> ok then Some s
     else do {
       s \<leftarrow> setKey (ks_cur s) key (OString val) s;
       Some (incr_dirty (notifyKeyspaceEvent ''set'' key (ks_cur s) s)) } }"

section \<open>Ranges\<close>

text \<open>
  \<open>sdsnewlen\<close> and \<open>sdsgrowzero\<close> abort the process when the allocation fails; \<open>mem\<close> is the
  largest string that can be allocated.
\<close>

definition sdsgrowzero :: "nat \<Rightarrow> byte list \<Rightarrow> nat \<Rightarrow> byte list option" where
  "sdsgrowzero mem b n = (if n \<le> length b then Some b else if n > mem then None else Some (b @ replicate (n - length b) 0))"

definition setrangeCommand :: "nat \<Rightarrow> byte list \<Rightarrow> byte list \<Rightarrow> byte list \<Rightarrow> ks \<Rightarrow> ks option" where
  "setrangeCommand mem key arg val s = do {
     let d = ks_cur s;
     (v, s) \<leftarrow> getLongLongFromObjectOrReply (Some (OString arg)) not_an_integer s;
     case v of
       None \<Rightarrow> Some s
     | Some offset \<Rightarrow>
         if offset < 0 then Some (reply (RError ''offset is out of range'') s)
         else do {
           let n = nat offset + length val;
           (ob, s) \<leftarrow> lookupKeyWrite d key s;
           (old, s) \<leftarrow> (case ob of
               None \<Rightarrow>
                 if val = [] then Some (None, reply (RInt 0) s)
                 else let (ok, s) = checkStringLength n s in
                   if \<not> ok then Some (None, s)
                   else do {
                     z \<leftarrow> sdsgrowzero mem [] n;
                     s \<leftarrow> dbAdd d key (OString z) s;
                     Some (Some z, s) }
             | Some v \<Rightarrow> (case checkType v s of
                   Inr s \<Rightarrow> Some (None, s)
                 | Inl b \<Rightarrow>
                     if val = [] then Some (None, reply (RInt (int (length b))) s)
                     else let (ok, s) = checkStringLength n s in
                       if \<not> ok then Some (None, s) else Some (Some b, s)));
           case old of
             None \<Rightarrow> Some s
           | Some b \<Rightarrow> do {
               b \<leftarrow> sdsgrowzero mem b n;
               b \<leftarrow> mem_write b (nat offset) val;
               s \<leftarrow> dbOverwrite d key (OString b) s;
               let s = notifyKeyspaceEvent ''setrange'' key d (signalModifiedKey d key s);
               Some (reply (RInt (int (length b))) (incr_dirty s)) }
         } }"

definition getrange_bytes :: "byte list \<Rightarrow> int \<Rightarrow> int \<Rightarrow> byte list" where
  "getrange_bytes b start end' = (
     let n = int (length b) in
     if start < 0 \<and> end' < 0 \<and> start > end' then []
     else
       let start = (if start < 0 then n + start else start);
           end' = (if end' < 0 then n + end' else end');
           start = (if start < 0 then 0 else start);
           end' = (if end' < 0 then 0 else end');
           end' = (if end' \<ge> n then n - 1 else end')
       in if start > end' \<or> n = 0 then [] else take (nat (end' - start + 1)) (drop (nat start) b))"

definition getrangeCommand :: "byte list \<Rightarrow> byte list \<Rightarrow> byte list \<Rightarrow> ks \<Rightarrow> ks option" where
  "getrangeCommand key a1 a2 s = do {
     (v, s) \<leftarrow> getLongLongFromObjectOrReply (Some (OString a1)) not_an_integer s;
     case v of None \<Rightarrow> Some s | Some start \<Rightarrow> do {
       (v, s) \<leftarrow> getLongLongFromObjectOrReply (Some (OString a2)) not_an_integer s;
       case v of None \<Rightarrow> Some s | Some end' \<Rightarrow> do {
         (ob, s) \<leftarrow> lookupKeyReadOrReply key REmptyBulk s;
         Some (case ob of
             None \<Rightarrow> s
           | Some v \<Rightarrow> (case checkType v s of
                 Inr s \<Rightarrow> s
               | Inl b \<Rightarrow> (let r = getrange_bytes b start end' in
                   reply (if r = [] then REmptyBulk else RBulk r) s))) } } }"

section \<open>Several keys\<close>

fun mget_loop :: "byte list list \<Rightarrow> ks \<Rightarrow> ks option" where
  "mget_loop [] s = Some s"
| "mget_loop (key # keys) s = do {
     (ob, s) \<leftarrow> lookupKeyRead (ks_cur s) key s;
     mget_loop keys (reply (case ob of Some (OString b) \<Rightarrow> RBulk b | _ \<Rightarrow> RNullBulk) s) }"

definition mgetCommand :: "byte list list \<Rightarrow> ks \<Rightarrow> ks option" where
  "mgetCommand keys s = mget_loop keys (reply (RMultiLen (length keys)) s)"

fun busy_loop :: "(byte list \<times> byte list) list \<Rightarrow> nat \<Rightarrow> ks \<Rightarrow> (nat \<times> ks) option" where
  "busy_loop [] busykeys s = Some (busykeys, s)"
| "busy_loop ((key, _) # kvs) busykeys s = do {
     (ob, s) \<leftarrow> lookupKeyWrite (ks_cur s) key s;
     busy_loop kvs (if ob \<noteq> None then busykeys + 1 else busykeys) s }"

fun mset_loop :: "(byte list \<times> byte list) list \<Rightarrow> ks \<Rightarrow> ks option" where
  "mset_loop [] s = Some s"
| "mset_loop ((key, val) # kvs) s = do {
     s \<leftarrow> setKey (ks_cur s) key (OString val) s;
     mset_loop kvs (notifyKeyspaceEvent ''set'' key (ks_cur s) s) }"

fun pairs :: "byte list list \<Rightarrow> (byte list \<times> byte list) list option" where
  "pairs [] = Some []"
| "pairs [_] = None"
| "pairs (k # v # rest) = map_option ((#) (k, v)) (pairs rest)"

definition msetGenericCommand :: "byte list list \<Rightarrow> bool \<Rightarrow> ks \<Rightarrow> ks option" where
  "msetGenericCommand args nx s =
     (case pairs args of
        None \<Rightarrow> Some (reply (RError ''wrong number of arguments for MSET'') s)
      | Some kvs \<Rightarrow> do {
          (busykeys, s) \<leftarrow> (if nx then busy_loop kvs 0 s else Some (0, s));
          if busykeys \<noteq> 0 then Some (reply (RInt 0) s)
          else do {
            s \<leftarrow> mset_loop kvs s;
            Some (reply (if nx then RInt 1 else ROk) (s\<lparr>ks_dirty := ks_dirty s + length args div 2\<rparr>)) } })"

section \<open>Counters and APPEND\<close>

definition incrDecrCommand :: "byte list \<Rightarrow> int \<Rightarrow> ks \<Rightarrow> ks option" where
  "incrDecrCommand key incr s = do {
     let d = ks_cur s;
     (ob, s) \<leftarrow> lookupKeyWrite d key s;
     case (case ob of None \<Rightarrow> Inl [] | Some v \<Rightarrow> checkType v s) of
       Inr s \<Rightarrow> Some s
     | Inl _ \<Rightarrow> do {
         (v, s) \<leftarrow> getLongLongFromObjectOrReply ob not_an_integer s;
         case v of
           None \<Rightarrow> Some s
         | Some oldvalue \<Rightarrow>
             if (incr < 0 \<and> oldvalue < 0 \<and> incr < INT64_MIN - oldvalue) \<or>
                (incr > 0 \<and> oldvalue > 0 \<and> incr > INT64_MAX - oldvalue)
             then Some (reply (RError ''increment or decrement would overflow'') s)
             else do {
               v \<leftarrow> ll_ok (oldvalue + incr);
               s \<leftarrow> (if ob = None then dbAdd d key (OString (sdec v)) s else dbOverwrite d key (OString (sdec v)) s);
               let s = notifyKeyspaceEvent ''incrby'' key d (signalModifiedKey d key s);
               Some (reply (RInt v) (incr_dirty s)) } } }"

definition incrCommand :: "byte list \<Rightarrow> ks \<Rightarrow> ks option" where
  "incrCommand key s = incrDecrCommand key 1 s"

definition decrCommand :: "byte list \<Rightarrow> ks \<Rightarrow> ks option" where
  "decrCommand key s = incrDecrCommand key (- 1) s"

definition incrbyCommand :: "byte list \<Rightarrow> byte list \<Rightarrow> ks \<Rightarrow> ks option" where
  "incrbyCommand key arg s = do {
     (v, s) \<leftarrow> getLongLongFromObjectOrReply (Some (OString arg)) not_an_integer s;
     case v of None \<Rightarrow> Some s | Some incr \<Rightarrow> incrDecrCommand key incr s }"

definition decrbyCommand :: "byte list \<Rightarrow> byte list \<Rightarrow> ks \<Rightarrow> ks option" where
  "decrbyCommand key arg s = do {
     (v, s) \<leftarrow> getLongLongFromObjectOrReply (Some (OString arg)) not_an_integer s;
     case v of None \<Rightarrow> Some s | Some incr \<Rightarrow> do { m \<leftarrow> ll_ok (- incr); incrDecrCommand key m s } }"

definition appendCommand :: "nat \<Rightarrow> byte list \<Rightarrow> byte list \<Rightarrow> ks \<Rightarrow> ks option" where
  "appendCommand mem key val s = do {
     let d = ks_cur s;
     (ob, s) \<leftarrow> lookupKeyWrite d key s;
     (r, s) \<leftarrow> (case ob of
         None \<Rightarrow> map_option (\<lambda>s. (Some (length val), s)) (dbAdd d key (OString val) s)
       | Some v \<Rightarrow> (case checkType v s of
             Inr s \<Rightarrow> Some (None, s)
           | Inl b \<Rightarrow> (let (ok, s) = checkStringLength (length b + length val) s in
               if \<not> ok then Some (None, s)
               else if length b + length val > mem then None
               else map_option (\<lambda>s. (Some (length b + length val), s)) (dbOverwrite d key (OString (b @ val)) s))));
     case r of
       None \<Rightarrow> Some s
     | Some totlen \<Rightarrow>
         (let s = notifyKeyspaceEvent ''append'' key d (signalModifiedKey d key s) in
          Some (reply (RInt (int totlen)) (incr_dirty s))) }"

definition strlenCommand :: "byte list \<Rightarrow> ks \<Rightarrow> ks option" where
  "strlenCommand key s = do {
     (ob, s) \<leftarrow> lookupKeyReadOrReply key (RInt 0) s;
     Some (case ob of
         None \<Rightarrow> s
       | Some v \<Rightarrow> (case checkType v s of Inr s \<Rightarrow> s | Inl b \<Rightarrow> reply (RInt (int (length b))) s)) }"

section \<open>Every command keeps the invariant\<close>

lemma checkStringLength_inv [ks_ops]: "checkStringLength n s = (b, s') \<Longrightarrow> ks_inv s \<Longrightarrow> ks_inv s'"
  by (auto simp: checkStringLength_def split: if_splits)

lemma checkType_inv [ks_ops]: "checkType v s = Inr s' \<Longrightarrow> ks_inv s \<Longrightarrow> ks_inv s'"
  by (auto simp: checkType_def split: robj.splits)

lemma set_apply_inv [ks_ops]: "set_apply d k v ms r s = Some s' \<Longrightarrow> ks_inv s \<Longrightarrow> ks_inv s'"
  by (auto simp: set_apply_def Let_def split: if_splits option.splits elim!: option_bind_SomeE dest!: ks_ops)

lemma set_conditional_inv [ks_ops]: "set_conditional f d k v ms r1 r2 s = Some s' \<Longrightarrow> ks_inv s \<Longrightarrow> ks_inv s'"
  by (auto simp: set_conditional_def split: if_splits elim!: option_bind_SomeE dest!: ks_ops)

lemma setGeneric_inv: "setGenericCommand f k v e u r1 r2 s = Some s' \<Longrightarrow> ks_inv s \<Longrightarrow> ks_inv s'"
  by (auto simp: setGenericCommand_def Let_def split: if_splits option.splits elim!: option_bind_SomeE dest!: ks_ops)

lemma getGeneric_inv [ks_ops]: "getGenericCommand k s = Some (b, s') \<Longrightarrow> ks_inv s \<Longrightarrow> ks_inv s'"
  by (auto simp: getGenericCommand_def split: if_splits option.splits robj.splits elim!: option_bind_SomeE dest!: ks_ops)

lemma getset_inv: "getsetCommand k v s = Some s' \<Longrightarrow> ks_inv s \<Longrightarrow> ks_inv s'"
  by (auto simp: getsetCommand_def split: if_splits elim!: option_bind_SomeE dest!: ks_ops)

lemma setrange_inv: "setrangeCommand mem k a v s = Some s' \<Longrightarrow> ks_inv s \<Longrightarrow> ks_inv s'"
  by (auto simp: setrangeCommand_def Let_def split: if_splits option.splits sum.splits prod.splits
      elim!: option_bind_SomeE dest!: ks_ops)

lemma getrange_inv: "getrangeCommand k a b s = Some s' \<Longrightarrow> ks_inv s \<Longrightarrow> ks_inv s'"
  by (auto simp: getrangeCommand_def Let_def split: if_splits option.splits sum.splits
      elim!: option_bind_SomeE dest!: ks_ops)

lemma mget_loop_inv: "mget_loop keys s = Some s' \<Longrightarrow> ks_inv s \<Longrightarrow> ks_inv s'"
proof (induction keys arbitrary: s)
  case (Cons key keys)
  obtain ob s1 where "lookupKeyRead (ks_cur s) key s = Some (ob, s1)"
    using Cons.prems(1) by (auto elim!: option_bind_SomeE)
  then show ?case using Cons by (auto dest!: ks_ops)
qed simp

lemma busy_loop_inv [ks_ops]: "busy_loop kvs n s = Some (m, s') \<Longrightarrow> ks_inv s \<Longrightarrow> ks_inv s'"
  by (induction kvs arbitrary: n s) (auto elim!: option_bind_SomeE dest!: ks_ops)

lemma mset_loop_inv [ks_ops]: "mset_loop kvs s = Some s' \<Longrightarrow> ks_inv s \<Longrightarrow> ks_inv s'"
  by (induction kvs arbitrary: s) (auto elim!: option_bind_SomeE dest!: ks_ops)

lemma mset_inv: "msetGenericCommand args nx s = Some s' \<Longrightarrow> ks_inv s \<Longrightarrow> ks_inv s'"
  by (auto simp: msetGenericCommand_def split: if_splits option.splits elim!: option_bind_SomeE dest!: ks_ops)

lemma incrDecr_inv: "incrDecrCommand k i s = Some s' \<Longrightarrow> ks_inv s \<Longrightarrow> ks_inv s'"
  by (auto simp: incrDecrCommand_def Let_def split: if_splits option.splits sum.splits
      elim!: option_bind_SomeE dest!: ks_ops)

lemma append_inv: "appendCommand mem k v s = Some s' \<Longrightarrow> ks_inv s \<Longrightarrow> ks_inv s'"
  by (auto simp: appendCommand_def Let_def split: if_splits option.splits sum.splits prod.splits
      elim!: option_bind_SomeE dest!: ks_ops)

lemma strlen_inv: "strlenCommand k s = Some s' \<Longrightarrow> ks_inv s \<Longrightarrow> ks_inv s'"
  by (auto simp: strlenCommand_def split: if_splits option.splits sum.splits elim!: option_bind_SomeE dest!: ks_ops)

end
