(* ===== verification/KeyspaceProps.thy ===== *)
theory KeyspaceProps
  imports TString
begin

text \<open>
  Properties of the commands on keys and strings (theories Keyspace and TString): no
  assertion fails and the invariant holds after every history of commands, keys disappear
  exactly when their time has come, counters and ranges are exact.
\<close>

section \<open>Lookups\<close>

text \<open>The state behind \<open>expireIfNeeded\<close>, and whether the key had expired.\<close>

definition expired :: "nat \<Rightarrow> byte list \<Rightarrow> ks \<Rightarrow> bool" where
  "expired d key s = (case db_expires (ks_db s d) key of None \<Rightarrow> False
     | Some t \<Rightarrow> 0 \<le> t \<and> \<not> ks_loading s \<and> (case ks_lua s of Some start \<Rightarrow> start | None \<Rightarrow> ks_now s) > t)"

definition purge :: "nat \<Rightarrow> byte list \<Rightarrow> ks \<Rightarrow> ks" where
  "purge d key s = (if expired d key s \<and> \<not> ks_slave s
     then snd (dbDelete d key (notifyKeyspaceEvent ''expired'' key d (propagateExpire d key (s\<lparr>ks_expired := ks_expired s + 1\<rparr>))))
     else s)"

lemma getExpire_eq: "ks_inv s \<Longrightarrow> getExpire d key s = Some (case db_expires (ks_db s d) key of None \<Rightarrow> - 1 | Some t \<Rightarrow> t)"
  by (auto simp: getExpire_def ks_inv_def split: option.split)

lemma ks_inv_dict: "ks_inv s \<Longrightarrow> db_expires (ks_db s d) key = Some t \<Longrightarrow> \<exists>v. db_dict (ks_db s d) key = Some v"
  by (cases "db_dict (ks_db s d) key") (auto simp: ks_inv_def)

lemma expireIfNeeded_eq: "ks_inv s \<Longrightarrow> expireIfNeeded d key s = Some (expired d key s, purge d key s)"
  by (auto simp: expireIfNeeded_def getExpire_eq expired_def purge_def Let_def dbDelete_def
      notifyKeyspaceEvent_def propagateExpire_def dest: ks_inv_dict split: option.splits)

lemma purge_simps [simp]:
  "ks_cur (purge d key s) = ks_cur s" "ks_now (purge d key s) = ks_now s" "ks_slave (purge d key s) = ks_slave s"
  "ks_loading (purge d key s) = ks_loading s" "ks_lua (purge d key s) = ks_lua s" "ks_replies (purge d key s) = ks_replies s"
  "ks_ro_client (purge d key s) = ks_ro_client s" "ks_signals (purge d key s) = ks_signals s"
  "ks_dbnum (purge d key s) = ks_dbnum s"
  by (simp_all add: purge_def dbDelete_def upd_db_def notifyKeyspaceEvent_def propagateExpire_def)

lemma purge_dict: "db_dict (ks_db (purge d key s) d') =
    (if d' = d \<and> expired d key s \<and> \<not> ks_slave s then (db_dict (ks_db s d'))(key := None) else db_dict (ks_db s d'))"
  by (simp add: purge_def dbDelete_def upd_db_def notifyKeyspaceEvent_def propagateExpire_def)

lemma purge_expires: "db_expires (ks_db (purge d key s) d') =
    (if d' = d \<and> expired d key s \<and> \<not> ks_slave s then (db_expires (ks_db s d'))(key := None) else db_expires (ks_db s d'))"
  by (simp add: purge_def dbDelete_def upd_db_def notifyKeyspaceEvent_def propagateExpire_def)

lemma purge_inv [simp]: "ks_inv s \<Longrightarrow> ks_inv (purge d key s)"
  using expireIfNeeded_eq expireIfNeeded_inv by blast

lemma lookupKeyWrite_eq:
  "ks_inv s \<Longrightarrow> lookupKeyWrite d key s = Some (db_dict (ks_db (purge d key s) d) key, purge d key s)"
  by (simp add: lookupKeyWrite_def expireIfNeeded_eq lookupKey_def)

lemma lookupKeyWriteOrReply_eq:
  "ks_inv s \<Longrightarrow> lookupKeyWriteOrReply key r s = (let s' = purge (ks_cur s) key s; ob = db_dict (ks_db s' (ks_cur s)) key
     in Some (ob, if ob = None then reply r s' else s'))"
  by (simp add: lookupKeyWriteOrReply_def lookupKeyWrite_eq Let_def)

lemma lookupRead_total: "ks_inv s \<Longrightarrow> \<exists>ob s'. lookupKeyReadWithFlags d key s = Some (ob, s')"
  by (simp add: lookupKeyReadWithFlags_def expireIfNeeded_eq Let_def)

lemma lookupReadOrReply_total: "ks_inv s \<Longrightarrow> \<exists>ob s'. lookupKeyReadOrReply key r s = Some (ob, s')"
  using lookupRead_total [of s "ks_cur s" key] by (auto simp: lookupKeyReadOrReply_def lookupKeyRead_def)

lemma setKey_total: "ks_inv s \<Longrightarrow> \<exists>s'. setKey d key v s = Some s' \<and> db_dict (ks_db s' d) key = Some v
    \<and> ks_cur s' = ks_cur s \<and> ks_now s' = ks_now s"
  by (auto simp: setKey_def lookupKeyWrite_eq dbAdd_def dbOverwrite_def removeExpire_def upd_db_def Let_def
      signalModifiedKey_def split: robj.split obj_type.split)

section \<open>Histories of commands\<close>

datatype kcmd = CDel "byte list list" | CExists "byte list list" | CSelect "byte list" | CType "byte list"
  | CRename "byte list" "byte list" bool | CMove "byte list" "byte list"
  | CExpire "byte list" "byte list" | CExpireat "byte list" "byte list"
  | CPexpire "byte list" "byte list" | CPexpireat "byte list" "byte list"
  | CTtl "byte list" bool | CPersist "byte list" | CTouch "byte list list"
  | CSet "byte list" "byte list" "byte list list" | CSetnx "byte list" "byte list"
  | CSetex "byte list" "byte list" "byte list" | CPsetex "byte list" "byte list" "byte list"
  | CGet "byte list" | CGetset "byte list" "byte list"
  | CSetrange "byte list" "byte list" "byte list" | CGetrange "byte list" "byte list" "byte list"
  | CMget "byte list list" | CMset "byte list list" bool
  | CIncr "byte list" | CDecr "byte list" | CIncrby "byte list" "byte list" | CDecrby "byte list" "byte list"
  | CAppend "byte list" "byte list" | CStrlen "byte list" | CTick nat

fun run_command :: "nat \<Rightarrow> kcmd \<Rightarrow> ks \<Rightarrow> ks option" where
  "run_command mem (CDel keys) s = delCommand keys s"
| "run_command mem (CExists keys) s = existsCommand keys s"
| "run_command mem (CSelect a) s = selectCommand a s"
| "run_command mem (CType k) s = typeCommand k s"
| "run_command mem (CRename a b nx) s = renameGenericCommand a b nx s"
| "run_command mem (CMove k a) s = moveCommand k a s"
| "run_command mem (CExpire k a) s = expireCommand k a s"
| "run_command mem (CExpireat k a) s = expireatCommand k a s"
| "run_command mem (CPexpire k a) s = pexpireCommand k a s"
| "run_command mem (CPexpireat k a) s = pexpireatCommand k a s"
| "run_command mem (CTtl k ms) s = ttlGenericCommand k ms s"
| "run_command mem (CPersist k) s = persistCommand k s"
| "run_command mem (CTouch keys) s = touchCommand keys s"
| "run_command mem (CSet k v opts) s = setCommand k v opts s"
| "run_command mem (CSetnx k v) s = setnxCommand k v s"
| "run_command mem (CSetex k e v) s = setexCommand k e v s"
| "run_command mem (CPsetex k e v) s = psetexCommand k e v s"
| "run_command mem (CGet k) s = getCommand k s"
| "run_command mem (CGetset k v) s = getsetCommand k v s"
| "run_command mem (CSetrange k a v) s = setrangeCommand mem k a v s"
| "run_command mem (CGetrange k a b) s = getrangeCommand k a b s"
| "run_command mem (CMget keys) s = mgetCommand keys s"
| "run_command mem (CMset args nx) s = msetGenericCommand args nx s"
| "run_command mem (CIncr k) s = incrCommand k s"
| "run_command mem (CDecr k) s = decrCommand k s"
| "run_command mem (CIncrby k a) s = incrbyCommand k a s"
| "run_command mem (CDecrby k a) s = decrbyCommand k a s"
| "run_command mem (CAppend k v) s = appendCommand mem k v s"
| "run_command mem (CStrlen k) s = strlenCommand k s"
| "run_command mem (CTick n) s = Some (s\<lparr>ks_now := ks_now s + int n\<rparr>)"

lemmas command_invs = rename_inv move_inv expireGeneric_inv ttl_inv persist_inv setGeneric_inv getset_inv
  setrange_inv getrange_inv mget_loop_inv mset_inv incrDecr_inv append_inv strlen_inv del_loop_inv
  exists_loop_inv touch_loop_inv

lemma run_command_inv:
  assumes "run_command mem c s = Some s'" "ks_inv s"
  shows "ks_inv s'"
proof (cases c)
  case (CSelect a)
  then show ?thesis using assms
    by (auto simp: selectCommand_def split: if_splits option.splits elim!: option_bind_SomeE dest!: ks_ops)
next
  case (CTick n)
  then show ?thesis using assms by (auto simp: ks_inv_def)
qed (use assms in \<open>auto simp: delCommand_def existsCommand_def typeCommand_def expireCommand_def expireatCommand_def
    pexpireCommand_def pexpireatCommand_def touchCommand_def setCommand_def setnxCommand_def setexCommand_def psetexCommand_def
    getCommand_def mgetCommand_def incrCommand_def decrCommand_def incrbyCommand_def decrbyCommand_def
    split: option.splits prod.splits elim!: option_bind_SomeE dest!: ks_ops command_invs\<close>)

section \<open>No assertion fails\<close>

text \<open>
  The arithmetic a command does on its arguments must not overflow, and a string of the
  maximal size can be allocated.
\<close>

definition time_ok :: "byte list \<Rightarrow> int \<Rightarrow> time_unit \<Rightarrow> bool" where
  "time_ok a base u = (case string2ll a of None \<Rightarrow> True | Some t \<Rightarrow>
     (let t' = (if u = UNIT_SECONDS then t * 1000 else t) in
      INT64_MIN \<le> t' \<and> t' \<le> INT64_MAX \<and> INT64_MIN \<le> t' + base \<and> t' + base \<le> INT64_MAX))"

fun arith_ok :: "kcmd \<Rightarrow> ks \<Rightarrow> bool" where
  "arith_ok (CExpire k a) s = time_ok a (ks_now s) UNIT_SECONDS"
| "arith_ok (CExpireat k a) s = time_ok a 0 UNIT_SECONDS"
| "arith_ok (CPexpire k a) s = time_ok a (ks_now s) UNIT_MILLISECONDS"
| "arith_ok (CPexpireat k a) s = time_ok a 0 UNIT_MILLISECONDS"
| "arith_ok (CSet k v opts) s = (case set_options opts no_flags None UNIT_SECONDS of
     Some (_, Some e, u) \<Rightarrow> time_ok e (ks_now s) u | _ \<Rightarrow> True)"
| "arith_ok (CSetex k e v) s = time_ok e (ks_now s) UNIT_SECONDS"
| "arith_ok (CPsetex k e v) s = time_ok e (ks_now s) UNIT_MILLISECONDS"
| "arith_ok (CDecrby k a) s = (string2ll a \<noteq> Some INT64_MIN)"
| "arith_ok (CSetrange k a v) s = (case string2ll a of Some t \<Rightarrow> t + int (length v) < 2 ^ 63 | None \<Rightarrow> True)"
| "arith_ok (CAppend k v) s = (case db_dict (ks_db s (ks_cur s)) k of
     Some (OString b) \<Rightarrow> length b + length v < 2 ^ 63 | _ \<Rightarrow> True)"
| "arith_ok c s = True"

lemma getLongLong_eq:
  "getLongLongFromObjectOrReply (Some (OString a)) msg s = Some (string2ll a, if string2ll a = None then reply (RError msg) s else s)"
  by (simp add: getLongLongFromObjectOrReply_def getLongLongFromObject_def)

lemma size_as_ll_small: "n < 2 ^ 63 \<Longrightarrow> size_as_ll n = int n"
proof -
  assume n: "n < 2 ^ 63"
  have "sint (word_of_int (int n) :: u64) = signed_take_bit 63 (int n)"
    by (subst sint_sbintrunc') simp
  also have "\<dots> = int n" using n by (intro signed_take_bit_int_eq_self) auto
  finally show ?thesis by (simp add: size_as_ll_def)
qed

lemma string2ll_range: "string2ll b = Some v \<Longrightarrow> INT64_MIN \<le> v \<and> v \<le> INT64_MAX"
  by (simp add: string2ll_iff)

lemma del_loop_total: "ks_inv s \<Longrightarrow> \<exists>r. del_loop keys n s = Some r"
proof (induction keys arbitrary: n s)
  case (Cons key keys)
  obtain ok s2 where s2: "dbDelete (ks_cur s) key (purge (ks_cur s) key s) = (ok, s2)" by fastforce
  then have "ks_inv s2" using Cons.prems dbDelete_inv purge_inv by blast
  then show ?case using Cons.IH Cons.prems s2 by (simp add: expireIfNeeded_eq)
qed simp

lemma exists_loop_total: "ks_inv s \<Longrightarrow> \<exists>r. exists_loop keys n s = Some r"
  by (induction keys arbitrary: n s) (auto simp: expireIfNeeded_eq)

lemma read_step: "ks_inv s \<Longrightarrow> \<exists>ob s'. lookupKeyRead d key s = Some (ob, s') \<and> ks_inv s'"
  using lookupRead_total [of s d key] lookupKeyRead_inv unfolding lookupKeyRead_def by blast

lemma touch_loop_total: "ks_inv s \<Longrightarrow> \<exists>r. touch_loop keys n s = Some r"
proof (induction keys arbitrary: n s)
  case (Cons key keys)
  then show ?case using read_step [OF Cons.prems, of "ks_cur s" key] by auto
qed simp

lemma mget_loop_total: "ks_inv s \<Longrightarrow> \<exists>r. mget_loop keys s = Some r"
proof (induction keys arbitrary: s)
  case (Cons key keys)
  then show ?case using read_step [OF Cons.prems, of "ks_cur s" key] by auto
qed simp

lemma busy_loop_total: "ks_inv s \<Longrightarrow> \<exists>m s'. busy_loop kvs n s = Some (m, s') \<and> ks_inv s'"
  by (induction kvs arbitrary: n s) (auto simp: lookupKeyWrite_eq)

lemma mset_loop_total: "ks_inv s \<Longrightarrow> \<exists>r. mset_loop kvs s = Some r"
proof (induction kvs arbitrary: s)
  case (Cons kv kvs)
  obtain k v where kv: "kv = (k, v)" by (cases kv)
  obtain s1 where s1: "setKey (ks_cur s) k (OString v) s = Some s1" using setKey_total [OF Cons.prems] by blast
  have "ks_inv s1" using setKey_inv [OF s1 Cons.prems] .
  then show ?case using Cons.IH kv s1 by simp
qed simp

lemma rename_total: "ks_inv s \<Longrightarrow> \<exists>s'. renameGenericCommand a b nx s = Some s'"
  by (auto simp: renameGenericCommand_def lookupKeyWriteOrReply_eq lookupKeyWrite_eq getExpire_eq Let_def dbAdd_def
      setExpire_def dbDelete_def upd_db_def split: option.splits robj.split obj_type.split)

lemma move_total: "ks_inv s \<Longrightarrow> \<exists>s'. moveCommand a b s = Some s'"
  by (auto simp: moveCommand_def lookupKeyWrite_eq getExpire_eq Let_def dbAdd_def
      setExpire_def dbDelete_def upd_db_def split: option.splits robj.split obj_type.split)

lemma expireGeneric_total:
  "ks_inv s \<Longrightarrow> time_ok a base u \<Longrightarrow> \<exists>s'. expireGenericCommand k a base u s = Some s'"
  by (auto simp: expireGenericCommand_def getLongLong_eq lookupKeyWrite_eq ll_ok_def time_ok_def Let_def setExpire_def
      dbDelete_def split: option.splits if_splits)

lemma ttl_total: "ks_inv s \<Longrightarrow> \<exists>s'. ttlGenericCommand k ms s = Some s'"
proof -
  assume s: "ks_inv s"
  obtain ob s1 where s1: "lookupKeyReadWithFlags (ks_cur s) k s = Some (ob, s1)" using lookupRead_total [OF s] by blast
  have "ks_inv s1" using lookupKeyReadWithFlags_inv [OF s1 s] .
  then show ?thesis using s1 by (simp add: ttlGenericCommand_def Let_def getExpire_eq)
qed

lemma persist_total: "\<exists>s'. persistCommand k s = Some s'"
  by (auto simp: persistCommand_def removeExpire_def)

lemma set_apply_total:
  assumes "ks_inv s" "case ms of Some m \<Rightarrow> INT64_MIN \<le> ks_now s + m \<and> ks_now s + m \<le> INT64_MAX | None \<Rightarrow> True"
  shows "\<exists>s'. set_apply d k v ms r s = Some s'"
proof -
  obtain s1 where "setKey d k (OString v) s = Some s1" "db_dict (ks_db s1 d) k = Some (OString v)" "ks_now s1 = ks_now s"
    using setKey_total [OF assms(1)] by metis
  then show ?thesis using assms(2)
    by (auto simp: set_apply_def Let_def ll_ok_def setExpire_def incr_dirty_def split: option.split)
qed

lemma set_conditional_total:
  assumes "ks_inv s" "case ms of Some m \<Rightarrow> INT64_MIN \<le> ks_now s + m \<and> ks_now s + m \<le> INT64_MAX | None \<Rightarrow> True"
  shows "\<exists>s'. set_conditional f d k v ms r1 r2 s = Some s'"
proof -
  have "\<exists>s'. set_apply d k v ms r1 t = Some s'" if "t = s \<or> t = purge d k s \<or> t = purge d k (purge d k s)" for t
    using that assms by (intro set_apply_total) (auto split: option.splits)
  then show ?thesis using assms(1) by (simp add: set_conditional_def lookupKeyWrite_eq)
qed

lemma setGeneric_total:
  assumes "ks_inv s" "case e of Some a \<Rightarrow> time_ok a (ks_now s) u | None \<Rightarrow> True"
  shows "\<exists>s'. setGenericCommand f k v e u r1 r2 s = Some s'"
proof (cases e)
  case None
  then show ?thesis using set_conditional_total [OF assms(1), of None] by (simp add: setGenericCommand_def)
next
  case (Some a)
  show ?thesis
  proof (cases "string2ll a")
    case None
    then show ?thesis using Some by (simp add: setGenericCommand_def getLongLong_eq)
  next
    case (Some t)
    let ?ms = "if u = UNIT_SECONDS then t * 1000 else t"
    have r: "INT64_MIN \<le> ?ms" "?ms \<le> INT64_MAX" "INT64_MIN \<le> ks_now s + ?ms" "ks_now s + ?ms \<le> INT64_MAX"
      using assms(2) \<open>e = Some a\<close> Some by (auto simp: time_ok_def Let_def add.commute)
    have "\<exists>s'. set_conditional f (ks_cur s) k v (Some ?ms) r1 r2 s = Some s'"
      using r by (intro set_conditional_total assms(1)) simp
    then show ?thesis using \<open>e = Some a\<close> Some r
      by (cases u) (simp_all add: setGenericCommand_def getLongLong_eq ll_ok_def)
  qed
qed

lemma get_total: "ks_inv s \<Longrightarrow> \<exists>b s'. getGenericCommand k s = Some (b, s')"
  using lookupReadOrReply_total [of s k RNullBulk] by (auto simp: getGenericCommand_def split: option.splits robj.splits)

lemma getset_total: "ks_inv s \<Longrightarrow> \<exists>s'. getsetCommand k v s = Some s'"
proof -
  assume s: "ks_inv s"
  obtain b s1 where s1: "getGenericCommand k s = Some (b, s1)" using get_total [OF s] by blast
  have "ks_inv s1" using getGeneric_inv [OF s1 s] .
  then obtain s2 where "setKey (ks_cur s1) k (OString v) s1 = Some s2" using setKey_total by blast
  then show ?thesis using s1 by (simp add: getsetCommand_def)
qed

lemma incrDecr_total:
  assumes "ks_inv s" "INT64_MIN \<le> i" "i \<le> INT64_MAX"
  shows "\<exists>s'. incrDecrCommand k i s = Some s'"
  using assms
  by (auto simp: incrDecrCommand_def lookupKeyWrite_eq checkType_def getLongLong_eq getLongLongFromObjectOrReply_def
      getLongLongFromObject_def ll_ok_def dbAdd_def dbOverwrite_def Let_def split: option.splits robj.splits
      dest!: string2ll_range)

lemma append_total:
  assumes "ks_inv s" "2 ^ 29 \<le> mem" "arith_ok (CAppend k v) s"
  shows "\<exists>s'. appendCommand mem k v s = Some s'"
  using assms
  by (auto simp: appendCommand_def lookupKeyWrite_eq checkType_def checkStringLength_def size_as_ll_small purge_dict
      dbAdd_def dbOverwrite_def Let_def split: option.splits robj.splits if_splits)


lemma setrange_total:
  assumes s: "ks_inv s" and mem: "2 ^ 29 \<le> mem" and ok: "arith_ok (CSetrange k a v) s"
  shows "\<exists>s'. setrangeCommand mem k a v s = Some s'"
proof (cases "string2ll a")
  case None
  then show ?thesis by (simp add: setrangeCommand_def getLongLong_eq Let_def)
next
  case (Some t)
  show ?thesis
  proof (cases "t < 0")
    case True
    then show ?thesis using Some by (simp add: setrangeCommand_def getLongLong_eq Let_def)
  next
    case False
    let ?n = "nat t + length v"
    have n: "size_as_ll ?n = int ?n" using ok Some False by (intro size_as_ll_small) simp
    have grow: "\<exists>z. sdsgrowzero mem b ?n = Some z \<and> ?n \<le> length z" if "?n \<le> 2 ^ 29" for b
      using that mem by (simp add: sdsgrowzero_def)
    have ow: "\<exists>r. do { b \<leftarrow> sdsgrowzero mem b ?n; b \<leftarrow> mem_write b (nat t) v; s \<leftarrow> dbOverwrite d k (OString b) s'; f b s } = Some r"
      if "?n \<le> 2 ^ 29" "db_dict (ks_db s' d) k \<noteq> None" "\<And>b s. \<exists>s'. f b s = Some s'" for b d s' f
      using grow [OF that(1), of b] that(2,3) by (auto simp: mem_write_def dbOverwrite_def)
    show ?thesis
    proof (cases "db_dict (ks_db (purge (ks_cur s) k s) (ks_cur s)) k")
      case None
      obtain z where z: "?n \<le> 2 ^ 29 \<longrightarrow> sdsgrowzero mem [] ?n = Some z" using grow by blast
      show ?thesis using None Some False s n z
        by (auto simp: setrangeCommand_def getLongLong_eq Let_def lookupKeyWrite_eq checkStringLength_def dbAdd_def upd_db_def
            intro!: ow)
    next
      case (Some ob)
      then show ?thesis using \<open>string2ll a = Some t\<close> False s n
        by (cases ob) (auto simp: setrangeCommand_def getLongLong_eq Let_def lookupKeyWrite_eq checkType_def checkStringLength_def
            intro!: ow)
    qed
  qed
qed

lemma run_command_total:
  assumes s: "ks_inv s" and mem: "2 ^ 29 \<le> mem" and ok: "arith_ok c s"
  shows "\<exists>s'. run_command mem c s = Some s'"
proof (cases c)
  case (CDel keys)
  then show ?thesis using del_loop_total [OF s, of keys 0] by (auto simp: delCommand_def)
next
  case (CExists keys)
  then show ?thesis using exists_loop_total [OF s, of keys 0] by (auto simp: existsCommand_def)
next
  case (CSelect a)
  then show ?thesis by (auto simp: selectCommand_def getLongLong_eq split: option.split)
next
  case (CType k)
  then show ?thesis using lookupRead_total [OF s, of "ks_cur s" k] by (auto simp: typeCommand_def)
next
  case (CTouch keys)
  then show ?thesis using touch_loop_total [OF s, of keys 0] by (auto simp: touchCommand_def)
next
  case (CSet k v opts)
  show ?thesis
  proof (cases "set_options opts no_flags None UNIT_SECONDS")
    case None
    then show ?thesis using CSet by (simp add: setCommand_def)
  next
    case (Some r)
    obtain f e u where r: "r = (f, e, u)" by (cases r)
    have "case e of Some a \<Rightarrow> time_ok a (ks_now s) u | None \<Rightarrow> True" using ok CSet Some r by (cases e) auto
    then show ?thesis using setGeneric_total [OF s] CSet Some r by (simp add: setCommand_def)
  qed
next
  case (CGet k)
  then show ?thesis using get_total [OF s, of k] by (auto simp: getCommand_def)
next
  case (CGetrange k a b)
  then show ?thesis using lookupReadOrReply_total [OF s, of k REmptyBulk]
    by (auto simp: getrangeCommand_def getLongLong_eq split: option.split)
next
  case (CMget keys)
  then show ?thesis using mget_loop_total [of "reply (RMultiLen (length keys)) s" keys] s by (auto simp: mgetCommand_def)
next
  case (CMset args nx)
  show ?thesis
  proof (cases "pairs args")
    case None
    then show ?thesis using CMset by (simp add: msetGenericCommand_def)
  next
    case (Some kvs)
    then show ?thesis using CMset busy_loop_total [OF s, of kvs 0] mset_loop_total [of _ kvs] s
      by (fastforce simp: msetGenericCommand_def)
  qed
next
  case (CIncrby k a)
  then show ?thesis using incrDecr_total [OF s] string2ll_range [of a]
    by (auto simp: incrbyCommand_def getLongLong_eq split: option.split)
next
  case (CDecrby k a)
  show ?thesis
  proof (cases "string2ll a")
    case None
    then show ?thesis using CDecrby by (simp add: decrbyCommand_def getLongLong_eq)
  next
    case (Some i)
    have "INT64_MIN \<le> - i" "- i \<le> INT64_MAX" using string2ll_range [OF Some] ok CDecrby Some by auto
    then show ?thesis using CDecrby Some incrDecr_total [OF s, of "- i" k]
      by (simp add: decrbyCommand_def getLongLong_eq ll_ok_def)
  qed
next
  case (CStrlen k)
  then show ?thesis using lookupReadOrReply_total [OF s, of k "RInt 0"] by (auto simp: strlenCommand_def)
qed (use s mem ok in \<open>auto simp: rename_total move_total expireGeneric_total ttl_total persist_total setGeneric_total getset_total
    setrange_total append_total incrDecr_total expireCommand_def expireatCommand_def pexpireCommand_def pexpireatCommand_def
    setnxCommand_def setexCommand_def psetexCommand_def incrCommand_def decrCommand_def\<close>)


definition ks0 :: ks where
  "ks0 = \<lparr>ks_db = (\<lambda>_. \<lparr>db_dict = Map.empty, db_expires = Map.empty\<rparr>), ks_dbnum = 16, ks_cur = 0, ks_now = 1000000,
     ks_loading = False, ks_slave = False, ks_lua = None, ks_ro_client = False, ks_cluster = False, ks_dirty = 0,
     ks_hits = 0, ks_misses = 0, ks_expired = 0, ks_ready = [], ks_signals = [], ks_events = [], ks_propagated = [],
     ks_rewritten = None, ks_replies = []\<rparr>"


section \<open>Expiry, counters and ranges\<close>

lemma setKey_eq:
  assumes "ks_inv s" "\<not> ks_slave s"
  obtains s' where "setKey d key v s = Some s'" "db_dict (ks_db s' d) = (db_dict (ks_db s d))(key \<mapsto> v)"
    "db_expires (ks_db s' d) = (db_expires (ks_db s d))(key := None)" "ks_now s' = ks_now s" "ks_slave s' = ks_slave s"
    "ks_loading s' = ks_loading s" "ks_lua s' = ks_lua s" "ks_cur s' = ks_cur s" "ks_replies s' = ks_replies s"
  using assms
  by (atomize_elim) (auto simp: setKey_def lookupKeyWrite_eq dbAdd_def dbOverwrite_def removeExpire_def upd_db_def Let_def
      signalModifiedKey_def purge_dict purge_expires fun_eq_iff split: robj.split obj_type.split)

text \<open>
  C22. A key set with PSETEX on a master lives exactly as long as asked: read at any later
  time, GET returns the value as long as the deadline (the time of the command plus the
  milliseconds) has not passed, and the null reply afterwards, when the key is gone from the
  dictionary.
\<close>

theorem psetex_get:
  assumes "ks_inv s" "\<not> ks_slave s" "\<not> ks_loading s" "ks_lua s = None" "0 < ms" "0 \<le> ks_now s"
    "ks_now s + ms \<le> INT64_MAX"
  shows "\<exists>s'. psetexCommand key (sdec ms) val s = Some s' \<and> ks_replies s' = ks_replies s @ [ROk]
    \<and> (\<exists>s''. getCommand key (s'\<lparr>ks_now := ks_now s + int n\<rparr>) = Some s''
        \<and> ks_replies s'' = ks_replies s @ [ROk, if int n \<le> ms then RBulk val else RNullBulk]
        \<and> (db_dict (ks_db s'' (ks_cur s)) key = None \<longleftrightarrow> ms < int n))"
proof -
  obtain s1 where s1: "setKey (ks_cur s) key (OString val) s = Some s1"
    "db_dict (ks_db s1 (ks_cur s)) = (db_dict (ks_db s (ks_cur s)))(key \<mapsto> OString val)"
    "ks_now s1 = ks_now s" "ks_slave s1 = ks_slave s" "ks_loading s1 = ks_loading s" "ks_lua s1 = ks_lua s"
    "ks_cur s1 = ks_cur s" "ks_replies s1 = ks_replies s"
    by (rule setKey_eq [OF assms(1,2), of "ks_cur s" key "OString val"]) blast
  have ms: "string2ll (sdec ms) = Some ms" using assms(5,6,7) by (simp add: string2ll_iff)
  define s2 where "s2 = reply ROk (notifyKeyspaceEvent ''expire'' key (ks_cur s) (notifyKeyspaceEvent ''set'' key (ks_cur s)
    (upd_db (ks_cur s) (\<lambda>x. x\<lparr>db_expires := (db_expires x)(key \<mapsto> ks_now s + ms)\<rparr>) (incr_dirty s1))))"
  have set: "psetexCommand key (sdec ms) val s = Some s2"
    using assms(5,6,7) s1 ms
    by (simp add: psetexCommand_def setGenericCommand_def getLongLong_eq set_conditional_def no_flags_def set_apply_def Let_def
        ll_ok_def setExpire_def incr_dirty_def s2_def)
  have inv: "ks_inv s2" using setGeneric_inv [OF set [unfolded psetexCommand_def] assms(1)] .
  let ?s = "s2\<lparr>ks_now := ks_now s + int n\<rparr>"
  have i: "ks_inv ?s" using inv by (simp add: ks_inv_def)
  have f: "db_dict (ks_db ?s (ks_cur s)) key = Some (OString val)" "db_expires (ks_db ?s (ks_cur s)) key = Some (ks_now s + ms)"
      "ks_cur ?s = ks_cur s" "ks_slave ?s = False" "ks_loading ?s = False" "ks_lua ?s = None" "ks_replies ?s = ks_replies s @ [ROk]"
    using s1 assms(2-4) by (simp_all add: s2_def reply_def notifyKeyspaceEvent_def upd_db_def incr_dirty_def)
  have ex: "expired (ks_cur s) key ?s \<longleftrightarrow> ms < int n" using f assms(5,6) by (simp add: expired_def)
  have "\<exists>s''. getCommand key ?s = Some s'' \<and> ks_replies s'' = ks_replies s @ [ROk, if int n \<le> ms then RBulk val else RNullBulk]
        \<and> (db_dict (ks_db s'' (ks_cur s)) key = None \<longleftrightarrow> ms < int n)"
    using f ex purge_simps [of "ks_cur s" key ?s] purge_dict [of "ks_cur s" key ?s "ks_cur s"]
    by (auto simp: getCommand_def getGenericCommand_def lookupKeyReadOrReply_def lookupKeyRead_def lookupKeyReadWithFlags_def
        expireIfNeeded_eq [OF i] lookupKey_def Let_def reply_def)
  then show ?thesis using set by (intro exI [of _ s2]) (simp add: s2_def reply_def notifyKeyspaceEvent_def upd_db_def incr_dirty_def s1)
qed

theorem psetex_get_witness:
  "\<exists>s'. psetexCommand [1] (sdec 50) [7] ks0 = Some s'
    \<and> (\<exists>s''. getCommand [1] (s'\<lparr>ks_now := ks_now ks0 + int 50\<rparr>) = Some s'' \<and> ks_replies s'' = [ROk, RBulk [7]])
    \<and> (\<exists>s''. getCommand [1] (s'\<lparr>ks_now := ks_now ks0 + int 51\<rparr>) = Some s'' \<and> ks_replies s'' = [ROk, RNullBulk])"
proof -
  have "ks_inv ks0" by (simp add: ks_inv_def ks0_def)
  then show ?thesis
    using psetex_get [of ks0 50 "[1]" "[7]" 50] psetex_get [of ks0 50 "[1]" "[7]" 51] by (auto simp: ks0_def)
qed

text \<open>
  C23. INCRBY is exact or refused: on a string that is the decimal notation of a 64-bit
  integer, the new value is the mathematical sum, written back, replied and signalled to
  the watchers, whenever the sum is a 64-bit integer; otherwise the client gets an error and
  nothing changes. The overflow test of the code never lets a signed addition overflow.
\<close>

theorem incrby_exact:
  assumes "ks_inv s" "db_dict (ks_db s (ks_cur s)) key = Some (OString (sdec v))" "\<not> expired (ks_cur s) key s"
    "INT64_MIN \<le> v" "v \<le> INT64_MAX" "INT64_MIN \<le> i" "i \<le> INT64_MAX"
  shows "\<exists>s'. incrbyCommand key (sdec i) s = Some s' \<and>
    (if INT64_MIN \<le> v + i \<and> v + i \<le> INT64_MAX then
       db_dict (ks_db s' (ks_cur s)) = (db_dict (ks_db s (ks_cur s)))(key \<mapsto> OString (sdec (v + i)))
       \<and> ks_replies s' = ks_replies s @ [RInt (v + i)] \<and> ks_signals s' = ks_signals s @ [(ks_cur s, key)]
     else s' = reply (RError ''increment or decrement would overflow'') s)"
proof -
  have p: "purge (ks_cur s) key s = s" using assms(3) by (simp add: purge_def)
  have v: "string2ll (sdec v) = Some v" "string2ll (sdec i) = Some i" using assms(4-) by (simp_all add: string2ll_iff)
  have t: "(i < 0 \<and> v < 0 \<and> i < INT64_MIN - v) \<or> (i > 0 \<and> v > 0 \<and> i > INT64_MAX - v)
      \<longleftrightarrow> \<not> (INT64_MIN \<le> v + i \<and> v + i \<le> INT64_MAX)"
    using assms(4-) by linarith
  show ?thesis
  proof (cases "INT64_MIN \<le> v + i \<and> v + i \<le> INT64_MAX")
    case True
    then have f: "\<not> ((i < 0 \<and> v < 0 \<and> i < INT64_MIN - v) \<or> (i > 0 \<and> v > 0 \<and> i > INT64_MAX - v))" using t by blast
    show ?thesis
      unfolding incrbyCommand_def incrDecrCommand_def
      using assms(1,2) p v f True
      by (simp add: getLongLong_eq lookupKeyWrite_eq checkType_def ll_ok_def dbOverwrite_def Let_def upd_db_def
          reply_def incr_dirty_def notifyKeyspaceEvent_def signalModifiedKey_def)
  next
    case False
    then have f: "(i < 0 \<and> v < 0 \<and> i < INT64_MIN - v) \<or> (i > 0 \<and> v > 0 \<and> i > INT64_MAX - v)" using t by blast
    show ?thesis
      unfolding if_not_P [OF False] incrbyCommand_def incrDecrCommand_def
      using assms(1,2) p v f
      by (simp add: getLongLong_eq lookupKeyWrite_eq checkType_def Let_def)
  qed
qed

theorem incrby_exact_witness:
  "let s = upd_db 0 (\<lambda>x. x\<lparr>db_dict := [[1] \<mapsto> OString (sdec INT64_MAX)]\<rparr>) ks0 in
   incrbyCommand [1] (sdec 1) s = Some (reply (RError ''increment or decrement would overflow'') s)
   \<and> (\<exists>s'. incrbyCommand [1] (sdec (- 7)) s = Some s' \<and> ks_replies s' = [RInt (INT64_MAX - 7)])"
proof -
  let ?s = "upd_db 0 (\<lambda>x. x\<lparr>db_dict := [[1] \<mapsto> OString (sdec INT64_MAX)]\<rparr>) ks0"
  have s: "ks_inv ?s" "db_dict (ks_db ?s (ks_cur ?s)) [1] = Some (OString (sdec INT64_MAX))" "\<not> expired (ks_cur ?s) [1] ?s"
    by (simp_all add: ks_inv_def ks0_def upd_db_def expired_def)
  have r: "ks_replies ?s = []" by (simp add: upd_db_def ks0_def)
  show ?thesis unfolding Let_def
    using incrby_exact [OF s, of 1] incrby_exact [OF s, of "- 7"] r by auto
qed

text \<open>
  C24. The size limit of SETRANGE can be bypassed. The sum of the offset and the length is
  computed in an unsigned type and checked in a signed one, so with the largest offset it
  is negative and passes the test against 512 MB: the command goes on to allocate \<open>2 ^ 63\<close>
  bytes and the process aborts, whereas an offset of \<open>2 ^ 30\<close> is refused with an error.
\<close>

theorem setrange_limit_bypassed:
  assumes "mem < 2 ^ 63"
  shows "setrangeCommand mem key (sdec INT64_MAX) [b] ks0 = None
    \<and> (\<exists>s'. setrangeCommand mem key (sdec (2 ^ 30)) [b] ks0 = Some s'
         \<and> ks_replies s' = [RError ''string exceeds maximum allowed size (512MB)''])"
proof -
  have i: "ks_inv ks0" and p: "purge d key ks0 = ks0" for d by (simp_all add: ks_inv_def ks0_def purge_def expired_def)
  have n: "string2ll (sdec INT64_MAX) = Some INT64_MAX" "string2ll (sdec (2 ^ 30)) = Some (2 ^ 30)"
    by (simp_all add: string2ll_iff)
  have "size_as_ll (2 ^ 63) < 0" by (simp add: size_as_ll_def)
  then have a: "size_as_ll (nat INT64_MAX + length [b]) < 0" by simp
  have "setrangeCommand mem key (sdec INT64_MAX) [b] ks0 = None"
    using a assms n(1) p i
    by (simp add: setrangeCommand_def getLongLong_eq lookupKeyWrite_eq checkStringLength_def sdsgrowzero_def Let_def ks0_def [THEN arg_cong [of _ _ ks_db]])
  moreover have "size_as_ll (nat (2 ^ 30) + length [b]) = 2 ^ 30 + 1" by (subst size_as_ll_small) simp_all
  ultimately show ?thesis
    using n(2) p i
    by (simp add: setrangeCommand_def getLongLong_eq lookupKeyWrite_eq checkStringLength_def Let_def reply_def
        ks0_def [THEN arg_cong [of _ _ ks_db]] ks0_def [THEN arg_cong [of _ _ ks_replies]])
qed

theorem setrange_limit_bypassed_witness: "setrangeCommand (2 ^ 40) [1] (sdec INT64_MAX) [7] ks0 = None"
  using setrange_limit_bypassed [of "2 ^ 40" "[1]" 7] by simp

text \<open>
  C25. MOVE is invisible to WATCH: whatever the command does, it signals no modified key, so a
  transaction that watches a key which MOVE takes out of its database, or the key MOVE
  creates in the other one, is not aborted.
\<close>

theorem move_not_signalled:
  assumes "ks_inv s" "moveCommand key arg s = Some s'"
  shows "ks_signals s' = ks_signals s"
  using assms
  by (auto simp: moveCommand_def lookupKeyWrite_eq getExpire_eq Let_def dbAdd_def setExpire_def dbDelete_def upd_db_def reply_def
      incr_dirty_def split: if_splits option.splits robj.splits obj_type.splits elim!: option_bind_SomeE)

theorem move_not_signalled_witness:
  "let s = upd_db 0 (\<lambda>x. x\<lparr>db_dict := [[1] \<mapsto> OString [7]]\<rparr>) ks0 in
   \<exists>s'. moveCommand [1] (sdec 3) s = Some s' \<and> db_dict (ks_db s' 0) [1] = None \<and> db_dict (ks_db s' 3) [1] = Some (OString [7])
     \<and> ks_signals s' = []"
proof -
  let ?s = "upd_db 0 (\<lambda>x. x\<lparr>db_dict := [[1] \<mapsto> OString [7]]\<rparr>) ks0"
  have i: "ks_inv ?s" "ks_signals ?s = []" by (simp_all add: ks_inv_def ks0_def upd_db_def)
  have n: "string2ll (sdec 3) = Some 3" by (simp add: string2ll_iff)
  have "\<exists>s'. moveCommand [1] (sdec 3) ?s = Some s' \<and> db_dict (ks_db s' 0) [1] = None \<and> db_dict (ks_db s' 3) [1] = Some (OString [7])"
    using i n by (simp add: moveCommand_def lookupKeyWrite_eq getExpire_eq purge_def expired_def ks0_def upd_db_def selectDb_def
        dbAdd_def dbDelete_def reply_def incr_dirty_def Let_def)
  then show ?thesis unfolding Let_def using move_not_signalled [OF i(1)] i(2) by metis
qed

end
