(* ===== verification/Crc.thy ===== *)
theory Crc
  imports Prelude
begin

text \<open>
  The checksums of \<open>crc16.c\<close> (cluster key slots) and \<open>crc64.c\<close> (RDB and DUMP
  payloads). Both are table driven: one table lookup per input byte. The theory
  transcribes the tables and the loops and relates them to the bit-at-a-time
  division that defines the two CRCs.
\<close>

unbundle bit_operations_syntax

section \<open>CRC16 (crc16.c)\<close>

definition crc16tab :: "u16 list" where
  "crc16tab = [
    0x0000, 0x1021, 0x2042, 0x3063, 0x4084, 0x50a5, 0x60c6, 0x70e7,
    0x8108, 0x9129, 0xa14a, 0xb16b, 0xc18c, 0xd1ad, 0xe1ce, 0xf1ef,
    0x1231, 0x0210, 0x3273, 0x2252, 0x52b5, 0x4294, 0x72f7, 0x62d6,
    0x9339, 0x8318, 0xb37b, 0xa35a, 0xd3bd, 0xc39c, 0xf3ff, 0xe3de,
    0x2462, 0x3443, 0x0420, 0x1401, 0x64e6, 0x74c7, 0x44a4, 0x5485,
    0xa56a, 0xb54b, 0x8528, 0x9509, 0xe5ee, 0xf5cf, 0xc5ac, 0xd58d,
    0x3653, 0x2672, 0x1611, 0x0630, 0x76d7, 0x66f6, 0x5695, 0x46b4,
    0xb75b, 0xa77a, 0x9719, 0x8738, 0xf7df, 0xe7fe, 0xd79d, 0xc7bc,
    0x48c4, 0x58e5, 0x6886, 0x78a7, 0x0840, 0x1861, 0x2802, 0x3823,
    0xc9cc, 0xd9ed, 0xe98e, 0xf9af, 0x8948, 0x9969, 0xa90a, 0xb92b,
    0x5af5, 0x4ad4, 0x7ab7, 0x6a96, 0x1a71, 0x0a50, 0x3a33, 0x2a12,
    0xdbfd, 0xcbdc, 0xfbbf, 0xeb9e, 0x9b79, 0x8b58, 0xbb3b, 0xab1a,
    0x6ca6, 0x7c87, 0x4ce4, 0x5cc5, 0x2c22, 0x3c03, 0x0c60, 0x1c41,
    0xedae, 0xfd8f, 0xcdec, 0xddcd, 0xad2a, 0xbd0b, 0x8d68, 0x9d49,
    0x7e97, 0x6eb6, 0x5ed5, 0x4ef4, 0x3e13, 0x2e32, 0x1e51, 0x0e70,
    0xff9f, 0xefbe, 0xdfdd, 0xcffc, 0xbf1b, 0xaf3a, 0x9f59, 0x8f78,
    0x9188, 0x81a9, 0xb1ca, 0xa1eb, 0xd10c, 0xc12d, 0xf14e, 0xe16f,
    0x1080, 0x00a1, 0x30c2, 0x20e3, 0x5004, 0x4025, 0x7046, 0x6067,
    0x83b9, 0x9398, 0xa3fb, 0xb3da, 0xc33d, 0xd31c, 0xe37f, 0xf35e,
    0x02b1, 0x1290, 0x22f3, 0x32d2, 0x4235, 0x5214, 0x6277, 0x7256,
    0xb5ea, 0xa5cb, 0x95a8, 0x8589, 0xf56e, 0xe54f, 0xd52c, 0xc50d,
    0x34e2, 0x24c3, 0x14a0, 0x0481, 0x7466, 0x6447, 0x5424, 0x4405,
    0xa7db, 0xb7fa, 0x8799, 0x97b8, 0xe75f, 0xf77e, 0xc71d, 0xd73c,
    0x26d3, 0x36f2, 0x0691, 0x16b0, 0x6657, 0x7676, 0x4615, 0x5634,
    0xd94c, 0xc96d, 0xf90e, 0xe92f, 0x99c8, 0x89e9, 0xb98a, 0xa9ab,
    0x5844, 0x4865, 0x7806, 0x6827, 0x18c0, 0x08e1, 0x3882, 0x28a3,
    0xcb7d, 0xdb5c, 0xeb3f, 0xfb1e, 0x8bf9, 0x9bd8, 0xabbb, 0xbb9a,
    0x4a75, 0x5a54, 0x6a37, 0x7a16, 0x0af1, 0x1ad0, 0x2ab3, 0x3a92,
    0xfd2e, 0xed0f, 0xdd6c, 0xcd4d, 0xbdaa, 0xad8b, 0x9de8, 0x8dc9,
    0x7c26, 0x6c07, 0x5c64, 0x4c45, 0x3ca2, 0x2c83, 0x1ce0, 0x0cc1,
    0xef1f, 0xff3e, 0xcf5d, 0xdf7c, 0xaf9b, 0xbfba, 0x8fd9, 0x9ff8,
    0x6e17, 0x7e36, 0x4e55, 0x5e74, 0x2e93, 0x3eb2, 0x0ed1, 0x1ef0]"

definition crc16_step :: "u16 \<Rightarrow> byte \<Rightarrow> u16" where
  "crc16_step crc b =
     push_bit 8 crc XOR crc16tab ! unat ((drop_bit 8 crc XOR scast b) AND 0x00FF)"

definition crc16 :: "byte list \<Rightarrow> u16" where
  "crc16 buf = foldl crc16_step 0 buf"

section \<open>CRC64 (crc64.c)\<close>

definition crc64_tab :: "u64 list" where
  "crc64_tab = [
    0x0000000000000000, 0x7ad870c830358979, 0xf5b0e190606b12f2, 0x8f689158505e9b8b,
    0xc038e5739841b68f, 0xbae095bba8743ff6, 0x358804e3f82aa47d, 0x4f50742bc81f2d04,
    0xab28ecb46814fe75, 0xd1f09c7c5821770c, 0x5e980d24087fec87, 0x24407dec384a65fe,
    0x6b1009c7f05548fa, 0x11c8790fc060c183, 0x9ea0e857903e5a08, 0xe478989fa00bd371,
    0x7d08ff3b88be6f81, 0x07d08ff3b88be6f8, 0x88b81eabe8d57d73, 0xf2606e63d8e0f40a,
    0xbd301a4810ffd90e, 0xc7e86a8020ca5077, 0x4880fbd87094cbfc, 0x32588b1040a14285,
    0xd620138fe0aa91f4, 0xacf86347d09f188d, 0x2390f21f80c18306, 0x594882d7b0f40a7f,
    0x1618f6fc78eb277b, 0x6cc0863448deae02, 0xe3a8176c18803589, 0x997067a428b5bcf0,
    0xfa11fe77117cdf02, 0x80c98ebf2149567b, 0x0fa11fe77117cdf0, 0x75796f2f41224489,
    0x3a291b04893d698d, 0x40f16bccb908e0f4, 0xcf99fa94e9567b7f, 0xb5418a5cd963f206,
    0x513912c379682177, 0x2be1620b495da80e, 0xa489f35319033385, 0xde51839b2936bafc,
    0x9101f7b0e12997f8, 0xebd98778d11c1e81, 0x64b116208142850a, 0x1e6966e8b1770c73,
    0x8719014c99c2b083, 0xfdc17184a9f739fa, 0x72a9e0dcf9a9a271, 0x08719014c99c2b08,
    0x4721e43f0183060c, 0x3df994f731b68f75, 0xb29105af61e814fe, 0xc849756751dd9d87,
    0x2c31edf8f1d64ef6, 0x56e99d30c1e3c78f, 0xd9810c6891bd5c04, 0xa3597ca0a188d57d,
    0xec09088b6997f879, 0x96d1784359a27100, 0x19b9e91b09fcea8b, 0x636199d339c963f2,
    0xdf7adabd7a6e2d6f, 0xa5a2aa754a5ba416, 0x2aca3b2d1a053f9d, 0x50124be52a30b6e4,
    0x1f423fcee22f9be0, 0x659a4f06d21a1299, 0xeaf2de5e82448912, 0x902aae96b271006b,
    0x74523609127ad31a, 0x0e8a46c1224f5a63, 0x81e2d7997211c1e8, 0xfb3aa75142244891,
    0xb46ad37a8a3b6595, 0xceb2a3b2ba0eecec, 0x41da32eaea507767, 0x3b024222da65fe1e,
    0xa2722586f2d042ee, 0xd8aa554ec2e5cb97, 0x57c2c41692bb501c, 0x2d1ab4dea28ed965,
    0x624ac0f56a91f461, 0x1892b03d5aa47d18, 0x97fa21650afae693, 0xed2251ad3acf6fea,
    0x095ac9329ac4bc9b, 0x7382b9faaaf135e2, 0xfcea28a2faafae69, 0x8632586aca9a2710,
    0xc9622c4102850a14, 0xb3ba5c8932b0836d, 0x3cd2cdd162ee18e6, 0x460abd1952db919f,
    0x256b24ca6b12f26d, 0x5fb354025b277b14, 0xd0dbc55a0b79e09f, 0xaa03b5923b4c69e6,
    0xe553c1b9f35344e2, 0x9f8bb171c366cd9b, 0x10e3202993385610, 0x6a3b50e1a30ddf69,
    0x8e43c87e03060c18, 0xf49bb8b633338561, 0x7bf329ee636d1eea, 0x012b592653589793,
    0x4e7b2d0d9b47ba97, 0x34a35dc5ab7233ee, 0xbbcbcc9dfb2ca865, 0xc113bc55cb19211c,
    0x5863dbf1e3ac9dec, 0x22bbab39d3991495, 0xadd33a6183c78f1e, 0xd70b4aa9b3f20667,
    0x985b3e827bed2b63, 0xe2834e4a4bd8a21a, 0x6debdf121b863991, 0x1733afda2bb3b0e8,
    0xf34b37458bb86399, 0x8993478dbb8deae0, 0x06fbd6d5ebd3716b, 0x7c23a61ddbe6f812,
    0x3373d23613f9d516, 0x49aba2fe23cc5c6f, 0xc6c333a67392c7e4, 0xbc1b436e43a74e9d,
    0x95ac9329ac4bc9b5, 0xef74e3e19c7e40cc, 0x601c72b9cc20db47, 0x1ac40271fc15523e,
    0x5594765a340a7f3a, 0x2f4c0692043ff643, 0xa02497ca54616dc8, 0xdafce7026454e4b1,
    0x3e847f9dc45f37c0, 0x445c0f55f46abeb9, 0xcb349e0da4342532, 0xb1eceec59401ac4b,
    0xfebc9aee5c1e814f, 0x8464ea266c2b0836, 0x0b0c7b7e3c7593bd, 0x71d40bb60c401ac4,
    0xe8a46c1224f5a634, 0x927c1cda14c02f4d, 0x1d148d82449eb4c6, 0x67ccfd4a74ab3dbf,
    0x289c8961bcb410bb, 0x5244f9a98c8199c2, 0xdd2c68f1dcdf0249, 0xa7f41839ecea8b30,
    0x438c80a64ce15841, 0x3954f06e7cd4d138, 0xb63c61362c8a4ab3, 0xcce411fe1cbfc3ca,
    0x83b465d5d4a0eece, 0xf96c151de49567b7, 0x76048445b4cbfc3c, 0x0cdcf48d84fe7545,
    0x6fbd6d5ebd3716b7, 0x15651d968d029fce, 0x9a0d8ccedd5c0445, 0xe0d5fc06ed698d3c,
    0xaf85882d2576a038, 0xd55df8e515432941, 0x5a3569bd451db2ca, 0x20ed197575283bb3,
    0xc49581ead523e8c2, 0xbe4df122e51661bb, 0x3125607ab548fa30, 0x4bfd10b2857d7349,
    0x04ad64994d625e4d, 0x7e7514517d57d734, 0xf11d85092d094cbf, 0x8bc5f5c11d3cc5c6,
    0x12b5926535897936, 0x686de2ad05bcf04f, 0xe70573f555e26bc4, 0x9ddd033d65d7e2bd,
    0xd28d7716adc8cfb9, 0xa85507de9dfd46c0, 0x273d9686cda3dd4b, 0x5de5e64efd965432,
    0xb99d7ed15d9d8743, 0xc3450e196da80e3a, 0x4c2d9f413df695b1, 0x36f5ef890dc31cc8,
    0x79a59ba2c5dc31cc, 0x037deb6af5e9b8b5, 0x8c157a32a5b7233e, 0xf6cd0afa9582aa47,
    0x4ad64994d625e4da, 0x300e395ce6106da3, 0xbf66a804b64ef628, 0xc5bed8cc867b7f51,
    0x8aeeace74e645255, 0xf036dc2f7e51db2c, 0x7f5e4d772e0f40a7, 0x05863dbf1e3ac9de,
    0xe1fea520be311aaf, 0x9b26d5e88e0493d6, 0x144e44b0de5a085d, 0x6e963478ee6f8124,
    0x21c640532670ac20, 0x5b1e309b16452559, 0xd476a1c3461bbed2, 0xaeaed10b762e37ab,
    0x37deb6af5e9b8b5b, 0x4d06c6676eae0222, 0xc26e573f3ef099a9, 0xb8b627f70ec510d0,
    0xf7e653dcc6da3dd4, 0x8d3e2314f6efb4ad, 0x0256b24ca6b12f26, 0x788ec2849684a65f,
    0x9cf65a1b368f752e, 0xe62e2ad306bafc57, 0x6946bb8b56e467dc, 0x139ecb4366d1eea5,
    0x5ccebf68aecec3a1, 0x2616cfa09efb4ad8, 0xa97e5ef8cea5d153, 0xd3a62e30fe90582a,
    0xb0c7b7e3c7593bd8, 0xca1fc72bf76cb2a1, 0x45775673a732292a, 0x3faf26bb9707a053,
    0x70ff52905f188d57, 0x0a2722586f2d042e, 0x854fb3003f739fa5, 0xff97c3c80f4616dc,
    0x1bef5b57af4dc5ad, 0x61372b9f9f784cd4, 0xee5fbac7cf26d75f, 0x9487ca0fff135e26,
    0xdbd7be24370c7322, 0xa10fceec0739fa5b, 0x2e675fb4576761d0, 0x54bf2f7c6752e8a9,
    0xcdcf48d84fe75459, 0xb71738107fd2dd20, 0x387fa9482f8c46ab, 0x42a7d9801fb9cfd2,
    0x0df7adabd7a6e2d6, 0x772fdd63e7936baf, 0xf8474c3bb7cdf024, 0x829f3cf387f8795d,
    0x66e7a46c27f3aa2c, 0x1c3fd4a417c62355, 0x935745fc4798b8de, 0xe98f353477ad31a7,
    0xa6df411fbfb21ca3, 0xdc0731d78f8795da, 0x536fa08fdfd90e51, 0x29b7d047efec8728]"

definition crc64_step :: "u64 \<Rightarrow> byte \<Rightarrow> u64" where
  "crc64_step crc b = crc64_tab ! unat ((ucast crc :: byte) XOR b) XOR drop_bit 8 crc"

definition crc64 :: "u64 \<Rightarrow> byte list \<Rightarrow> u64" where
  "crc64 crc s = foldl crc64_step crc s"

section \<open>The defining divisions\<close>

text \<open>
  The parameters named in the comments of the two files: CRC16 is XMODEM
  (polynomial \<open>0x1021\<close>, most significant bit first), CRC64 is the Jones polynomial
  \<open>0xad93d23594c935a9\<close> with reflected input and output, hence least significant bit
  first with the reversed polynomial.
\<close>

definition crc16_bit :: "u16 \<Rightarrow> u16" where
  "crc16_bit c = push_bit 1 c XOR (if bit c 15 then 0x1021 else 0)"

definition crc16_spec :: "u16 \<Rightarrow> byte list \<Rightarrow> u16" where
  "crc16_spec = foldl (\<lambda>c b. (crc16_bit ^^ 8) (c XOR push_bit 8 (ucast b)))"

definition crc64_bit :: "u64 \<Rightarrow> u64" where
  "crc64_bit c = drop_bit 1 c XOR (if bit c 0 then 0x95ac9329ac4bc9b5 else 0)"

definition crc64_spec :: "u64 \<Rightarrow> byte list \<Rightarrow> u64" where
  "crc64_spec = foldl (\<lambda>c b. (crc64_bit ^^ 8) (c XOR ucast b))"

lemma crc16_bit_xor: "crc16_bit (a XOR b) = crc16_bit a XOR crc16_bit b"
  by (rule bit_word_eqI) (auto simp: crc16_bit_def bit_simps)

lemma crc64_bit_xor: "crc64_bit (a XOR b) = crc64_bit a XOR crc64_bit b"
  by (rule bit_word_eqI) (auto simp: crc64_bit_def bit_simps)

lemma crc16_bits_xor: "(crc16_bit ^^ n) (a XOR b) = (crc16_bit ^^ n) a XOR (crc16_bit ^^ n) b"
  by (induction n) (simp_all add: crc16_bit_xor)

lemma crc64_bits_xor: "(crc64_bit ^^ n) (a XOR b) = (crc64_bit ^^ n) a XOR (crc64_bit ^^ n) b"
  by (induction n) (simp_all add: crc64_bit_xor)

lemma crc16_bits_low:
  assumes "\<And>i. i < n \<Longrightarrow> \<not> bit c (15 - i)" and "n \<le> 16"
  shows "(crc16_bit ^^ n) c = push_bit n c"
  using assms
proof (induction n)
  case (Suc n)
  then have IH: "(crc16_bit ^^ n) c = push_bit n c" and b: "\<not> bit c (15 - n)" by auto
  have "(crc16_bit ^^ Suc n) c = crc16_bit (push_bit n c)" using IH by simp
  also have "\<dots> = push_bit (Suc n) c"
    using b Suc.prems(2) by (simp add: crc16_bit_def bit_push_bit_iff push_bit_push_bit)
  finally show ?case .
qed simp

lemma crc64_bits_high:
  assumes "\<And>i. i < n \<Longrightarrow> \<not> bit c i"
  shows "(crc64_bit ^^ n) c = drop_bit n c"
  using assms
proof (induction n)
  case (Suc n)
  then have IH: "(crc64_bit ^^ n) c = drop_bit n c" and b: "\<not> bit c n" by auto
  have "(crc64_bit ^^ Suc n) c = crc64_bit (drop_bit n c)" using IH by simp
  also have "\<dots> = drop_bit (Suc n) c"
    using b by (simp add: crc64_bit_def bit_drop_bit_eq)
  finally show ?case .
qed simp

section \<open>The tables are the divisions of single bytes\<close>

text \<open>
  Both byte steps are linear over \<open>XOR\<close>, so a table is the span of its eight
  entries at powers of two; only those eight are computed bit by bit.
\<close>

fun xor_span :: "'a::len word list \<Rightarrow> 'a word list" where
  "xor_span [] = [0]"
| "xor_span (p # ps) = xor_span ps @ map (\<lambda>x. p XOR x) (xor_span ps)"

lemma map_xor_span:
  assumes "f 0 = 0" and "\<And>a b. f (a XOR b) = f a XOR f b"
  shows "map f (xor_span ps) = xor_span (map f ps)"
proof (induction ps)
  case (Cons p ps)
  have "map (\<lambda>x. f p XOR f x) (xor_span ps) = map (\<lambda>x. f p XOR x) (map f (xor_span ps))"
    by simp
  with Cons assms(2) show ?case by (simp add: comp_def)
qed (simp add: assms(1))

lemma funpow_8: "(f ^^ 8) x = f (f (f (f (f (f (f (f x)))))))"
  by (simp add: numeral_eq_Suc)

lemma crc16_bits_0 [simp]: "(crc16_bit ^^ n) 0 = 0"
  by (induction n) (auto simp: crc16_bit_def)

lemma crc64_bits_0 [simp]: "(crc64_bit ^^ n) 0 = 0"
  by (induction n) (auto simp: crc64_bit_def)

lemma bytes_span16:
  "map (\<lambda>i. push_bit 8 (of_nat i)) [0..<256]
     = xor_span [0x8000, 0x4000, 0x2000, 0x1000, 0x800, 0x400, 0x200, 0x100 :: u16]"
  by (simp add: upt_rec)

lemma bytes_span64:
  "map of_nat [0..<256] = xor_span [128, 64, 32, 16, 8, 4, 2, 1 :: u64]"
  by (simp add: upt_rec)

lemma crc16tab_eq: "crc16tab = map (\<lambda>i. (crc16_bit ^^ 8) (push_bit 8 (of_nat i))) [0..<256]"
proof -
  have "map (\<lambda>i. (crc16_bit ^^ 8) (push_bit 8 (of_nat i))) [0..<256]
      = map (crc16_bit ^^ 8) (map (\<lambda>i. push_bit 8 (of_nat i)) [0..<256])"
    by simp
  also have "\<dots> = xor_span (map (crc16_bit ^^ 8)
      [0x8000, 0x4000, 0x2000, 0x1000, 0x800, 0x400, 0x200, 0x100])"
    by (simp only: bytes_span16) (rule map_xor_span, simp_all add: crc16_bits_xor)
  also have "\<dots> = crc16tab"
    by (simp add: funpow_8 crc16_bit_def crc16tab_def)
  finally show ?thesis by simp
qed

lemma crc64_tab_eq: "crc64_tab = map (\<lambda>i. (crc64_bit ^^ 8) (of_nat i)) [0..<256]"
proof -
  have "map (\<lambda>i. (crc64_bit ^^ 8) (of_nat i)) [0..<256]
      = map (crc64_bit ^^ 8) (map of_nat [0..<256])"
    by simp
  also have "\<dots> = xor_span (map (crc64_bit ^^ 8) [128, 64, 32, 16, 8, 4, 2, 1])"
    by (simp only: bytes_span64) (rule map_xor_span, simp_all add: crc64_bits_xor)
  also have "\<dots> = crc64_tab"
    by (simp add: funpow_8 crc64_bit_def crc64_tab_def)
  finally show ?thesis by simp
qed

lemma crc16tab_nth: "i < 256 \<Longrightarrow> crc16tab ! i = (crc16_bit ^^ 8) (push_bit 8 (of_nat i))"
  by (simp add: crc16tab_eq)

lemma crc64_tab_nth: "i < 256 \<Longrightarrow> crc64_tab ! i = (crc64_bit ^^ 8) (of_nat i)"
  by (simp add: crc64_tab_eq)

section \<open>The table-driven loops compute the divisions\<close>

lemma crc16_step_spec: "crc16_step c b = (crc16_bit ^^ 8) (c XOR push_bit 8 (ucast b))"
proof -
  let ?i = "(drop_bit 8 c XOR scast b) AND 0x00FF"
  have m: "(0x00FF :: u16) = mask 8" by (simp add: mask_eq_exp_minus_1)
  have lt: "unat ?i < 256"
    using and_mask_less' [of 8 "drop_bit 8 c XOR scast b"] by (simp add: m word_less_nat_alt)
  have hi: "push_bit 8 ?i XOR (c AND mask 8) = c XOR push_bit 8 (ucast b)"
    by (rule bit_word_eqI) (auto simp: m bit_simps)
  have lo: "(crc16_bit ^^ 8) (c AND mask 8) = push_bit 8 c"
  proof -
    have "(crc16_bit ^^ 8) (c AND mask 8) = push_bit 8 (c AND mask 8)"
      by (rule crc16_bits_low) (auto simp: bit_simps)
    also have "\<dots> = push_bit 8 c" by (rule bit_word_eqI) (auto simp: bit_simps)
    finally show ?thesis .
  qed
  have "crc16_step c b = (crc16_bit ^^ 8) (c AND mask 8) XOR (crc16_bit ^^ 8) (push_bit 8 ?i)"
    using lt by (simp add: crc16_step_def crc16tab_nth lo)
  also have "\<dots> = (crc16_bit ^^ 8) (push_bit 8 ?i XOR (c AND mask 8))"
    by (simp add: crc16_bits_xor xor.commute)
  finally show ?thesis by (simp only: hi)
qed

lemma crc64_step_spec: "crc64_step c b = (crc64_bit ^^ 8) (c XOR ucast b)"
proof -
  let ?i = "(ucast c :: byte) XOR b"
  have lt: "unat ?i < 256" by (rule order_less_le_trans [OF unsigned_less]) simp
  have hi: "(c XOR ucast b) = (c AND NOT (mask 8)) XOR ucast ?i"
    by (rule bit_word_eqI) (auto simp: bit_simps)
  have "(crc64_bit ^^ 8) (c AND NOT (mask 8)) = drop_bit 8 (c AND NOT (mask 8))"
    by (rule crc64_bits_high) (auto simp: bit_simps)
  also have "\<dots> = drop_bit 8 c"
    by (rule bit_word_eqI) (auto simp: bit_simps dest: bit_imp_le_length)
  finally have lo: "(crc64_bit ^^ 8) (c AND NOT (mask 8)) = drop_bit 8 c" .
  show ?thesis
    using lt by (simp add: crc64_step_def crc64_tab_nth hi crc64_bits_xor lo xor.commute
        del: unsigned_xor_eq)
qed

lemma crc16_eq_spec: "crc16 = crc16_spec 0"
  by (rule ext) (simp add: crc16_def crc16_spec_def crc16_step_spec [abs_def])

lemma crc64_eq_spec: "crc64 = crc64_spec"
  by (intro ext) (simp add: crc64_def crc64_spec_def crc64_step_spec [abs_def])

lemma crc64_append: "crc64 c (xs @ ys) = crc64 (crc64 c xs) ys"
  by (simp add: crc64_def)

section \<open>Burst errors\<close>

lemma crc64_bit_eq_0: "crc64_bit c = 0 \<Longrightarrow> c = 0"
proof -
  assume 0: "crc64_bit c = 0"
  have nb: "\<not> bit c 0"
  proof
    assume b: "bit c 0"
    have "bit (crc64_bit c) 63"
      using b bit_imp_le_length [of c 64] by (auto simp: crc64_bit_def bit_simps)
    with 0 show False by simp
  qed
  have "\<not> bit c i" for i
  proof (cases i)
    case (Suc j)
    have "bit (crc64_bit c) j = bit c (Suc j)"
      using nb by (simp add: crc64_bit_def bit_simps)
    with 0 Suc show ?thesis by simp
  qed (use nb in simp)
  then show "c = 0" by (simp add: bit_eq_iff)
qed

lemma word_xor_cancel: "a XOR c = b XOR c \<Longrightarrow> a = (b :: 'a::len word)"
proof -
  assume "a XOR c = b XOR c"
  then have "(a XOR c) XOR c = (b XOR c) XOR c" by simp
  then show "a = b" by (simp add: xor.assoc)
qed

lemma crc64_bits_inj: "(crc64_bit ^^ n) a = (crc64_bit ^^ n) b \<Longrightarrow> a = b"
proof -
  assume "(crc64_bit ^^ n) a = (crc64_bit ^^ n) b"
  then have "(crc64_bit ^^ n) (a XOR b) = 0" by (simp add: crc64_bits_xor)
  then have "a XOR b = 0"
    by (induction n) (auto dest: crc64_bit_eq_0)
  then have "a XOR b = b XOR b" by simp
  then show "a = b" by (rule word_xor_cancel)
qed

lemma crc64_bits_add: "(crc64_bit ^^ (m + n)) c = (crc64_bit ^^ m) ((crc64_bit ^^ n) c)"
  by (simp add: funpow_add)

fun le_word :: "byte list \<Rightarrow> u64" where
  "le_word [] = 0"
| "le_word (b # bs) = ucast b XOR push_bit 8 (le_word bs)"

lemma bit_le_word: "bit (le_word bs) i \<Longrightarrow> i < 8 * length bs"
proof (induction bs arbitrary: i)
  case (Cons b bs)
  show ?case
  proof (cases "i < 8")
    case False
    with Cons.prems have "bit (le_word bs) (i - 8)"
      using bit_imp_le_length [of b i] by (auto simp: bit_simps)
    from Cons.IH [OF this] show ?thesis using False by simp
  qed simp
qed simp

lemma le_word_inj: "length bs = length cs \<Longrightarrow> length bs \<le> 8 \<Longrightarrow> le_word bs = le_word cs \<Longrightarrow> bs = cs"
proof (induction bs cs rule: list_induct2)
  case (Cons b bs c cs)
  have eq: "bit (ucast b XOR push_bit 8 (le_word bs)) i
      = bit (ucast c XOR push_bit 8 (le_word cs)) i" for i
    using Cons.prems(2) by simp
  have "b = c"
  proof (rule bit_word_eqI)
    fix i assume "i < LENGTH(8)"
    with eq [of i] show "bit b i = bit c i" by (simp add: bit_simps)
  qed
  moreover have "le_word bs = le_word cs"
  proof (rule bit_word_eqI)
    fix i :: nat assume "i < LENGTH(64)"
    show "bit (le_word bs) i = bit (le_word cs) i"
    proof (cases "i < 8 * length bs")
      case True
      then have "i + 8 < 64" using Cons.prems(1) by simp
      with eq [of "i + 8"] show ?thesis
        using bit_imp_le_length [of b "i + 8"] bit_imp_le_length [of c "i + 8"]
        by (auto simp: bit_simps)
    next
      case False
      then show ?thesis using bit_le_word [of bs i] bit_le_word [of cs i] Cons.hyps by auto
    qed
  qed
  ultimately show ?case using Cons by simp
qed simp

lemma crc64_block:
  "length bs \<le> 8 \<Longrightarrow> crc64 c bs = (crc64_bit ^^ (8 * length bs)) (c XOR le_word bs)"
proof (induction bs arbitrary: c)
  case (Cons b bs)
  let ?w = "le_word bs"
  have "drop_bit 8 (push_bit 8 ?w) = ?w"
  proof (rule bit_word_eqI)
    fix i :: nat assume "i < LENGTH(64)"
    show "bit (drop_bit 8 (push_bit 8 ?w)) i = bit ?w i"
      using Cons.prems bit_le_word [of bs i] by (auto simp: bit_simps)
  qed
  moreover have "(crc64_bit ^^ 8) (push_bit 8 ?w) = drop_bit 8 (push_bit 8 ?w)"
    by (rule crc64_bits_high) (auto simp: bit_simps)
  ultimately have w: "(crc64_bit ^^ 8) (push_bit 8 ?w) = ?w" by simp
  have "crc64 c (b # bs) = crc64 ((crc64_bit ^^ 8) (c XOR ucast b)) bs"
    by (simp add: crc64_def crc64_step_spec)
  also have "\<dots> = (crc64_bit ^^ (8 * length bs)) ((crc64_bit ^^ 8) (c XOR ucast b) XOR ?w)"
    using Cons by simp
  also have "(crc64_bit ^^ 8) (c XOR ucast b) XOR ?w
      = (crc64_bit ^^ 8) (c XOR (ucast b XOR push_bit 8 ?w))"
    by (simp add: crc64_bits_xor w xor.assoc)
  also have "(crc64_bit ^^ (8 * length bs)) \<dots>
      = (crc64_bit ^^ (8 * length bs + 8)) (c XOR le_word (b # bs))"
    by (simp add: crc64_bits_add)
  finally show ?case by (simp add: algebra_simps)
qed (simp add: crc64_def)

lemma crc64_state_inj: "crc64 a s = crc64 b s \<Longrightarrow> a = b"
proof (induction s arbitrary: a b)
  case (Cons x s)
  then have "crc64_step a x = crc64_step b x" by (auto simp: crc64_def)
  then have "a XOR ucast x = b XOR ucast x"
    by (simp only: crc64_step_spec) (rule crc64_bits_inj)
  then show ?case by (rule word_xor_cancel)
qed (simp add: crc64_def)

section \<open>Properties\<close>

text \<open>
  C7. The table-driven checksums are the polynomial divisions they stand for: on every
  input, \<open>crc16\<close> is the XMODEM CRC (polynomial \<open>0x1021\<close>, initial value 0) and
  \<open>crc64\<close> continues the reflected Jones CRC from any intermediate value.
\<close>

theorem crc_tables_correct: "crc16 buf = crc16_spec 0 buf \<and> crc64 c s = crc64_spec c s"
  by (simp add: crc16_eq_spec crc64_eq_spec)

text \<open>
  C6. \<open>crc64\<close>, the checksum at the end of RDB files and DUMP payloads, detects every
  corruption that is confined to eight consecutive bytes, wherever it occurs and
  whatever surrounds it.
\<close>

theorem crc64_detects_bursts:
  assumes "length bs = length cs" and "length bs \<le> 8" and "bs \<noteq> cs"
  shows "crc64 c (pre @ bs @ post) \<noteq> crc64 c (pre @ cs @ post)"
proof
  assume "crc64 c (pre @ bs @ post) = crc64 c (pre @ cs @ post)"
  then have "crc64 (crc64 c pre) bs = crc64 (crc64 c pre) cs"
    using crc64_state_inj by (simp add: crc64_append)
  then have "crc64 c pre XOR le_word bs = crc64 c pre XOR le_word cs"
    using assms(1,2) crc64_bits_inj by (simp add: crc64_block)
  then have "le_word bs XOR crc64 c pre = le_word cs XOR crc64 c pre" by (simp add: xor.commute)
  then have "le_word bs = le_word cs" by (rule word_xor_cancel)
  then show False using le_word_inj assms by blast
qed

theorem crc64_detects_bursts_witness:
  "crc64 0 (str ''REDIS'' @ [0, 1, 2] @ str ''end'') \<noteq> crc64 0 (str ''REDIS'' @ [0, 1, 3] @ str ''end'')"
  by (rule crc64_detects_bursts) simp_all


end
