(* ===== verification/Bytes.thy ===== *)
theory Bytes
  imports Prelude
begin

text \<open>
  Integers in memory. The sources store integers of 2, 4 and 8 bytes through
  \<open>memcpy\<close> followed by \<open>memrev16ifbe\<close>, \<open>memrev32ifbe\<close>, \<open>memrev64ifbe\<close>
  (\<open>endianconv.h\<close>), so that the stored image is little endian on every host. This
  theory gives that image (\<open>le_bytes\<close>), its unsigned and signed readings, the round
  trip between them, and the byte reversal functions of \<open>endianconv.c\<close>.
\<close>

section \<open>Little-endian images\<close>

fun le_bytes :: "nat \<Rightarrow> int \<Rightarrow> byte list" where
  "le_bytes 0 v = []"
| "le_bytes (Suc n) v = word_of_int v # le_bytes n (v div 256)"

fun le_uint :: "byte list \<Rightarrow> int" where
  "le_uint [] = 0"
| "le_uint (b # bs) = uint b + 256 * le_uint bs"

definition le_sint :: "byte list \<Rightarrow> int" where
  "le_sint bs = signed_take_bit (8 * length bs - 1) (le_uint bs)"

lemma length_le_bytes [simp]: "length (le_bytes n v) = n"
  by (induction n arbitrary: v) auto

lemma le_uint_bounds: "0 \<le> le_uint bs \<and> le_uint bs < 256 ^ length bs"
proof (induction bs)
  case (Cons b bs)
  have "uint b < 256" using uint_lt2p [of b] by simp
  with Cons show ?case by auto
qed simp

lemma le_uint_le_bytes: "le_uint (le_bytes n v) = v mod 256 ^ n"
proof (induction n arbitrary: v)
  case (Suc n)
  have "v mod 256 ^ Suc n = v mod 256 + 256 * (v div 256 mod 256 ^ n)"
    by (simp add: zmod_zmult2_eq mult.commute)
  then show ?case using Suc by (simp add: uint_word_of_int)
qed simp

lemma le_bytes_le_uint: "le_bytes (length bs) (le_uint bs) = bs"
proof (induction bs)
  case (Cons b bs)
  have b: "0 \<le> uint b" "uint b < 256" using uint_lt2p [of b] by auto
  have w: "(word_of_int (256 * x) :: byte) = 0" for x :: int
    by transfer (simp add: take_bit_eq_mod)
  have "(word_of_int (uint b + 256 * le_uint bs) :: byte) = b"
    using w [of "le_uint bs"] by (simp only: wi_hom_add [symmetric]) simp
  moreover have "(uint b + 256 * le_uint bs) div 256 = le_uint bs"
    using b by simp
  ultimately show ?case using Cons by simp
qed simp

lemma le_bytes_inj: "length bs = length cs \<Longrightarrow> le_uint bs = le_uint cs \<Longrightarrow> bs = cs"
  by (metis le_bytes_le_uint)

lemma le_sint_le_bytes:
  assumes "0 < n" and "- (2 ^ (8 * n - 1)) \<le> v" and "v < 2 ^ (8 * n - 1)"
  shows "le_sint (le_bytes n v) = v"
proof -
  have "(256 :: int) ^ n = 2 ^ (8 * n)" by (simp add: power_mult)
  then have "le_uint (le_bytes n v) = take_bit (8 * n) v"
    by (simp add: le_uint_le_bytes take_bit_eq_mod)
  then have "le_sint (le_bytes n v) = signed_take_bit (8 * n - 1) v"
    using assms(1) by (simp add: le_sint_def signed_take_bit_take_bit) linarith
  also have "\<dots> = v"
    using assms(2,3) by (simp add: signed_take_bit_int_eq_self)
  finally show ?thesis .
qed

lemma le_sint_bounds:
  "bs \<noteq> [] \<Longrightarrow> - (2 ^ (8 * length bs - 1)) \<le> le_sint bs \<and> le_sint bs < 2 ^ (8 * length bs - 1)"
  by (simp add: le_sint_def signed_take_bit_int_greater_eq_minus_exp signed_take_bit_int_less_exp)

section \<open>Byte reversal (endianconv.c)\<close>

definition swap_bytes :: "nat \<Rightarrow> nat \<Rightarrow> byte list \<Rightarrow> byte list option" where
  "swap_bytes i j x =
     (if i < length x \<and> j < length x then Some (x[i := x ! j, j := x ! i]) else None)"

definition memrev16 :: "byte list \<Rightarrow> byte list option" where
  "memrev16 x = swap_bytes 0 1 x"

definition memrev32 :: "byte list \<Rightarrow> byte list option" where
  "memrev32 x = do { x \<leftarrow> swap_bytes 0 3 x; swap_bytes 1 2 x }"

definition memrev64 :: "byte list \<Rightarrow> byte list option" where
  "memrev64 x = do {
     x \<leftarrow> swap_bytes 0 7 x; x \<leftarrow> swap_bytes 1 6 x; x \<leftarrow> swap_bytes 2 5 x;
     swap_bytes 3 4 x }"

text \<open>
  \<open>intrev16\<close>, \<open>intrev32\<close> and \<open>intrev64\<close> apply the reversal to the memory image of
  a local variable. On the little-endian hosts modelled here that image is
  \<open>le_bytes\<close>.
\<close>

definition intrev16 :: "u16 \<Rightarrow> u16 option" where
  "intrev16 v = map_option (word_of_int \<circ> le_uint) (memrev16 (le_bytes 2 (uint v)))"

definition intrev32 :: "u32 \<Rightarrow> u32 option" where
  "intrev32 v = map_option (word_of_int \<circ> le_uint) (memrev32 (le_bytes 4 (uint v)))"

definition intrev64 :: "u64 \<Rightarrow> u64 option" where
  "intrev64 v = map_option (word_of_int \<circ> le_uint) (memrev64 (le_bytes 8 (uint v)))"

lemma list_of_length:
  "length x = 2 \<Longrightarrow> \<exists>a b. x = [a, b]"
  "length x = 4 \<Longrightarrow> \<exists>a b c d. x = [a, b, c, d]"
  "length x = 8 \<Longrightarrow> \<exists>a b c d e f g h. x = [a, b, c, d, e, f, g, h]"
  by (auto simp: numeral_eq_Suc length_Suc_conv)

lemma memrev16_rev: "length x = 2 \<Longrightarrow> memrev16 x = Some (rev x)"
  using list_of_length(1) [of x] by (auto simp: memrev16_def swap_bytes_def)

lemma memrev32_rev: "length x = 4 \<Longrightarrow> memrev32 x = Some (rev x)"
  using list_of_length(2) [of x] by (auto simp: memrev32_def swap_bytes_def numeral_eq_Suc)

lemma memrev64_rev: "length x = 8 \<Longrightarrow> memrev64 x = Some (rev x)"
  using list_of_length(3) [of x] by (auto simp: memrev64_def swap_bytes_def numeral_eq_Suc)

end
