(* ===== verification/Interfaces.thy ===== *)
theory Interfaces
  imports Prelude
begin

text \<open>
  Contracts between components. A provider promises its laws once, in an
  interpretation on its own model; a client's lemmas are proved once, inside the
  locale, and apply to every provider.
\<close>

section \<open>Containers of distinct members\<close>

text \<open>
  What the set commands rely on from the two representations of a set value
  (\<open>intset.c\<close> and the keys of a \<open>dict.c\<close> table): \<open>add\<close> and \<open>remove\<close> return the new
  container and whether it changed, \<open>isin\<close> tests membership (and may reorganise the
  container, as a hash table does while it is rehashed). \<open>ok\<close> is the domain of the
  members, \<open>cap\<close> the number of members up to which \<open>add\<close> is defined.
\<close>

datatype 'a set_call = Add 'a | Remove 'a | Find 'a

fun call_arg :: "'a set_call \<Rightarrow> 'a" where
  "call_arg (Add x) = x"
| "call_arg (Remove x) = x"
| "call_arg (Find x) = x"

fun store_call :: "('s \<Rightarrow> 'a \<Rightarrow> ('s \<times> bool) option) \<Rightarrow> ('s \<Rightarrow> 'a \<Rightarrow> ('s \<times> bool) option) \<Rightarrow>
    ('s \<Rightarrow> 'a \<Rightarrow> ('s \<times> bool) option) \<Rightarrow> 's \<Rightarrow> 'a set_call \<Rightarrow> ('s \<times> bool) option" where
  "store_call add remove isin s (Add x) = add s x"
| "store_call add remove isin s (Remove x) = remove s x"
| "store_call add remove isin s (Find x) = isin s x"

text \<open>A lookup that leaves the container as it is.\<close>

definition readonly :: "('s \<Rightarrow> 'a \<Rightarrow> 'b option) \<Rightarrow> 's \<Rightarrow> 'a \<Rightarrow> ('s \<times> 'b) option" where
  "readonly f s x = map_option (Pair s) (f s x)"

text \<open>A history of calls on a container, with the answer of each call.\<close>

fun store_run :: "('s \<Rightarrow> 'a \<Rightarrow> ('s \<times> bool) option) \<Rightarrow> ('s \<Rightarrow> 'a \<Rightarrow> ('s \<times> bool) option) \<Rightarrow>
    ('s \<Rightarrow> 'a \<Rightarrow> ('s \<times> bool) option) \<Rightarrow> 's \<Rightarrow> 'a set_call list \<Rightarrow> ('s \<times> bool list) option" where
  "store_run add remove isin s [] = Some (s, [])"
| "store_run add remove isin s (c # cs) = do {
     (s, b) \<leftarrow> store_call add remove isin s c;
     (s, bs) \<leftarrow> store_run add remove isin s cs;
     Some (s, b # bs)
   }"

fun set_answer :: "'a set \<Rightarrow> 'a set_call \<Rightarrow> 'a set \<times> bool" where
  "set_answer S (Add x) = (insert x S, x \<notin> S)"
| "set_answer S (Remove x) = (S - {x}, x \<in> S)"
| "set_answer S (Find x) = (S, x \<in> S)"

fun set_run :: "'a set \<Rightarrow> 'a set_call list \<Rightarrow> 'a set \<times> bool list" where
  "set_run S [] = (S, [])"
| "set_run S (c # cs) = (let (S', b) = set_answer S c; (S'', bs) = set_run S' cs in (S'', b # bs))"

locale set_store =
  fixes add :: "'s \<Rightarrow> 'a \<Rightarrow> ('s \<times> bool) option"
    and remove :: "'s \<Rightarrow> 'a \<Rightarrow> ('s \<times> bool) option"
    and isin :: "'s \<Rightarrow> 'a \<Rightarrow> ('s \<times> bool) option"
    and members :: "'s \<Rightarrow> 'a set"
    and inv :: "'s \<Rightarrow> bool"
    and ok :: "'a \<Rightarrow> bool"
    and cap :: nat
  assumes finite_members: "inv s \<Longrightarrow> finite (members s)"
    and add_law: "inv s \<Longrightarrow> ok x \<Longrightarrow> card (members s) < cap \<Longrightarrow>
      \<exists>s'. add s x = Some (s', x \<notin> members s) \<and> inv s' \<and> members s' = insert x (members s)"
    and remove_law: "inv s \<Longrightarrow> ok x \<Longrightarrow>
      \<exists>s'. remove s x = Some (s', x \<in> members s) \<and> inv s' \<and> members s' = members s - {x}"
    and find_law: "inv s \<Longrightarrow> ok x \<Longrightarrow> 
      \<exists>s'. isin s x = Some (s', x \<in> members s) \<and> inv s' \<and> members s' = members s"
begin

lemma add_then_find:
  assumes "inv s" and "ok x" and "ok y" and "card (members s) < cap"
  shows "\<exists>s' b. add s x = Some (s', b) \<and> inv s'
    \<and> (\<exists>s''. isin s' y = Some (s'', y = x \<or> y \<in> members s))"
proof -
  obtain s' where s': "add s x = Some (s', x \<notin> members s)" "inv s'" "members s' = insert x (members s)"
    using add_law [OF assms(1,2,4)] by blast
  moreover obtain s'' where "isin s' y = Some (s'', y \<in> members s')"
    using find_law [OF s'(2) assms(3)] by blast
  ultimately show ?thesis by auto
qed

lemma add_remove:
  assumes "inv s" and "ok x" and "card (members s) < cap" and "x \<notin> members s"
  shows "\<exists>s1 s2. add s x = Some (s1, True) \<and> remove s1 x = Some (s2, True) \<and> inv s2
    \<and> members s2 = members s"
proof -
  obtain s1 where "add s x = Some (s1, x \<notin> members s)" "inv s1" "members s1 = insert x (members s)"
    using add_law [OF assms(1-3)] by blast
  moreover from this obtain s2 where "remove s1 x = Some (s2, x \<in> members s1)" "inv s2"
      "members s2 = members s1 - {x}"
    using remove_law [OF _ assms(2)] by blast
  ultimately show ?thesis using assms(4) by auto
qed

text \<open>Any history of calls answers as a mathematical set does.\<close>

lemma run_refines:
  assumes "inv s" and "\<forall>c \<in> set cs. ok (call_arg c)" and "card (members s) + length cs \<le> cap"
  shows "\<exists>s'. store_run add remove isin s cs = Some (s', snd (set_run (members s) cs)) \<and> inv s'
    \<and> members s' = fst (set_run (members s) cs)"
  using assms
proof (induction cs arbitrary: s)
  case (Cons c cs)
  let ?S = "fst (set_answer (members s) c)"
  have "\<exists>s'. store_call add remove isin s c = Some (s', snd (set_answer (members s) c)) \<and> inv s'
      \<and> members s' = ?S"
    using add_law [of s "call_arg c"] remove_law [of s "call_arg c"] find_law [of s "call_arg c"]
      Cons.prems by (cases c) auto
  then obtain s1 where s1: "store_call add remove isin s c = Some (s1, snd (set_answer (members s) c))"
      "inv s1" "members s1 = ?S" by blast
  have "card ?S \<le> card (members s) + 1"
    using finite_members [OF Cons.prems(1)]
    by (cases c) (auto simp: card_insert_if intro: le_SucI card_mono)
  then have "\<exists>s'. store_run add remove isin s1 cs = Some (s', snd (set_run (members s1) cs)) \<and> inv s'
      \<and> members s' = fst (set_run (members s1) cs)"
    using Cons.prems s1 by (intro Cons.IH) auto
  then show ?case using s1 by (auto simp: split_def Let_def)
qed simp

end

section \<open>Key/value tables\<close>

text \<open>
  What the database, the hash type, the registry of clients' subscriptions and the
  other users of \<open>dict.c\<close> rely on. \<open>add\<close> refuses a key that is present, \<open>replace\<close>
  overwrites it, and both say whether the key was new; \<open>delete\<close> says whether the key
  was there; \<open>fetch\<close> returns the value.
\<close>

datatype ('k, 'v) map_call = MAdd 'k 'v | MReplace 'k 'v | MDelete 'k | MFetch 'k

datatype 'v map_answer = Changed bool | Fetched "'v option"

fun map_store_call :: "('s \<Rightarrow> 'k \<Rightarrow> 'v \<Rightarrow> ('s \<times> bool) option) \<Rightarrow> ('s \<Rightarrow> 'k \<Rightarrow> 'v \<Rightarrow> ('s \<times> bool) option) \<Rightarrow>
    ('s \<Rightarrow> 'k \<Rightarrow> ('s \<times> bool) option) \<Rightarrow> ('s \<Rightarrow> 'k \<Rightarrow> ('s \<times> 'v option) option) \<Rightarrow>
    's \<Rightarrow> ('k, 'v) map_call \<Rightarrow> ('s \<times> 'v map_answer) option" where
  "map_store_call add replace delete fetch s (MAdd k v) = map_option (apsnd Changed) (add s k v)"
| "map_store_call add replace delete fetch s (MReplace k v) = map_option (apsnd Changed) (replace s k v)"
| "map_store_call add replace delete fetch s (MDelete k) = map_option (apsnd Changed) (delete s k)"
| "map_store_call add replace delete fetch s (MFetch k) = map_option (apsnd Fetched) (fetch s k)"

fun map_store_run :: "('s \<Rightarrow> 'k \<Rightarrow> 'v \<Rightarrow> ('s \<times> bool) option) \<Rightarrow> ('s \<Rightarrow> 'k \<Rightarrow> 'v \<Rightarrow> ('s \<times> bool) option) \<Rightarrow>
    ('s \<Rightarrow> 'k \<Rightarrow> ('s \<times> bool) option) \<Rightarrow> ('s \<Rightarrow> 'k \<Rightarrow> ('s \<times> 'v option) option) \<Rightarrow>
    's \<Rightarrow> ('k, 'v) map_call list \<Rightarrow> ('s \<times> 'v map_answer list) option" where
  "map_store_run add replace delete fetch s [] = Some (s, [])"
| "map_store_run add replace delete fetch s (c # cs) = do {
     (s, b) \<leftarrow> map_store_call add replace delete fetch s c;
     (s, bs) \<leftarrow> map_store_run add replace delete fetch s cs;
     Some (s, b # bs)
   }"

fun map_step :: "('k \<rightharpoonup> 'v) \<Rightarrow> ('k, 'v) map_call \<Rightarrow> ('k \<rightharpoonup> 'v) \<times> 'v map_answer" where
  "map_step m (MAdd k v) = (if m k = None then m(k \<mapsto> v) else m, Changed (m k = None))"
| "map_step m (MReplace k v) = (m(k \<mapsto> v), Changed (m k = None))"
| "map_step m (MDelete k) = (m(k := None), Changed (m k \<noteq> None))"
| "map_step m (MFetch k) = (m, Fetched (m k))"

fun map_run :: "('k \<rightharpoonup> 'v) \<Rightarrow> ('k, 'v) map_call list \<Rightarrow> ('k \<rightharpoonup> 'v) \<times> 'v map_answer list" where
  "map_run m [] = (m, [])"
| "map_run m (c # cs) = (let (m', b) = map_step m c; (m'', bs) = map_run m' cs in (m'', b # bs))"

locale map_store =
  fixes add :: "'s \<Rightarrow> 'k \<Rightarrow> 'v \<Rightarrow> ('s \<times> bool) option"
    and replace :: "'s \<Rightarrow> 'k \<Rightarrow> 'v \<Rightarrow> ('s \<times> bool) option"
    and delete :: "'s \<Rightarrow> 'k \<Rightarrow> ('s \<times> bool) option"
    and fetch :: "'s \<Rightarrow> 'k \<Rightarrow> ('s \<times> 'v option) option"
    and absmap :: "'s \<Rightarrow> ('k \<rightharpoonup> 'v)"
    and inv :: "'s \<Rightarrow> bool"
    and cap :: nat
  assumes finite_dom: "inv s \<Longrightarrow> finite (dom (absmap s))"
    and add_law: "inv s \<Longrightarrow> card (dom (absmap s)) < cap \<Longrightarrow>
      \<exists>s'. add s k v = Some (s', absmap s k = None) \<and> inv s'
        \<and> absmap s' = (if absmap s k = None then (absmap s)(k \<mapsto> v) else absmap s)"
    and replace_law: "inv s \<Longrightarrow> card (dom (absmap s)) < cap \<Longrightarrow>
      \<exists>s'. replace s k v = Some (s', absmap s k = None) \<and> inv s' \<and> absmap s' = (absmap s)(k \<mapsto> v)"
    and delete_law: "inv s \<Longrightarrow>
      \<exists>s'. delete s k = Some (s', absmap s k \<noteq> None) \<and> inv s' \<and> absmap s' = (absmap s)(k := None)"
    and fetch_law: "inv s \<Longrightarrow>
      \<exists>s'. fetch s k = Some (s', absmap s k) \<and> inv s' \<and> absmap s' = absmap s"
begin

lemma call_refines:
  assumes "inv s" and "card (dom (absmap s)) < cap"
  shows "\<exists>s'. map_store_call add replace delete fetch s c = Some (s', snd (map_step (absmap s) c)) \<and> inv s'
    \<and> absmap s' = fst (map_step (absmap s) c)"
proof (cases c)
  case (MAdd k v)
  then show ?thesis using add_law [OF assms, of k v] by auto
next
  case (MReplace k v)
  then show ?thesis using replace_law [OF assms, of k v] by auto
next
  case (MDelete k)
  then show ?thesis using delete_law [OF assms(1), of k] by auto
next
  case (MFetch k)
  then show ?thesis using fetch_law [OF assms(1), of k] by auto
qed

lemma map_step_card:
  assumes "finite (dom m)"
  shows "card (dom (fst (map_step m c))) \<le> card (dom m) + 1"
  using assms by (cases c) (auto simp: card_insert_if card_Diff1_le le_SucI)

text \<open>Any history of calls answers as a mathematical map does.\<close>

lemma map_run_refines:
  assumes "inv s" and "card (dom (absmap s)) + length cs \<le> cap"
  shows "\<exists>s'. map_store_run add replace delete fetch s cs = Some (s', snd (map_run (absmap s) cs)) \<and> inv s'
    \<and> absmap s' = fst (map_run (absmap s) cs)"
  using assms
proof (induction cs arbitrary: s)
  case (Cons c cs)
  obtain s1 where s1: "map_store_call add replace delete fetch s c = Some (s1, snd (map_step (absmap s) c))"
      "inv s1" "absmap s1 = fst (map_step (absmap s) c)"
    using call_refines [OF Cons.prems(1)] Cons.prems(2) by auto
  have "card (dom (absmap s1)) \<le> card (dom (absmap s)) + 1"
    unfolding s1(3) by (rule map_step_card [OF finite_dom [OF Cons.prems(1)]])
  then have "\<exists>s'. map_store_run add replace delete fetch s1 cs = Some (s', snd (map_run (absmap s1) cs)) \<and> inv s'
      \<and> absmap s' = fst (map_run (absmap s1) cs)"
    using Cons.prems(2) s1(2) by (intro Cons.IH) auto
  then show ?case using s1 by (auto simp: split_def Let_def)
qed simp

end

text \<open>A table whose values carry no information is a container of its keys.\<close>

locale key_table = map_store add replace delete fetch absmap inv cap
  for add :: "'s \<Rightarrow> 'k \<Rightarrow> unit \<Rightarrow> ('s \<times> bool) option" and replace delete fetch absmap inv cap

sublocale key_table \<subseteq> keys: set_store "\<lambda>s x. add s x ()" delete
  "\<lambda>s x. map_option (apsnd (\<lambda>v. v \<noteq> None)) (fetch s x)" "\<lambda>s. dom (absmap s)" inv "\<lambda>_. True" cap
proof unfold_locales
  fix s x assume "inv s"
  then show "finite (dom (absmap s))" by (rule finite_dom)
  show "\<exists>s'. delete s x = Some (s', x \<in> dom (absmap s)) \<and> inv s' \<and> dom (absmap s') = dom (absmap s) - {x}"
    using delete_law [OF \<open>inv s\<close>, of x] by (auto simp: dom_def)
  show "\<exists>s'. map_option (apsnd (\<lambda>v. v \<noteq> None)) (fetch s x) = Some (s', x \<in> dom (absmap s)) \<and> inv s'
      \<and> dom (absmap s') = dom (absmap s)"
    using fetch_law [OF \<open>inv s\<close>, of x] by (auto simp: dom_def)
next
  fix s x assume "inv s" and "card (dom (absmap s)) < cap"
  then show "\<exists>s'. add s x () = Some (s', x \<notin> dom (absmap s)) \<and> inv s' \<and> dom (absmap s') = insert x (dom (absmap s))"
    using add_law [of s x "()"] by (auto simp: domIff insert_absorb)
qed

end
