(* ===== verification/Intset.thy ===== *)
theory Intset
  imports Bytes Interfaces
begin

text \<open>
  \<open>intset.c\<close>: a set of integers stored as a sorted array of 2, 4 or 8 byte cells in
  one allocation. The array starts with the narrowest cells; inserting a number that
  does not fit rewrites the whole array in wider cells, back to front and in place.

  The model keeps the bytes: \<open>contents\<close> is the flexible array member, and every access
  goes through the bounds-checked memory primitives, so that a result \<open>Some\<close> means that
  no access left the allocation. The fields \<open>encoding\<close> and \<open>length\<close> are the values of
  the \<open>uint32_t\<close> fields; sizes that the code computes in 32 bits are computed in
  \<open>32 word\<close>. The argument \<open>junk\<close> stands for the indeterminate bytes of a grown block.
\<close>

record intset =
  is_encoding :: nat
  is_length :: nat
  contents :: "byte list"

abbreviation INTSET_ENC_INT16 :: nat where "INTSET_ENC_INT16 \<equiv> 2"
abbreviation INTSET_ENC_INT32 :: nat where "INTSET_ENC_INT32 \<equiv> 4"
abbreviation INTSET_ENC_INT64 :: nat where "INTSET_ENC_INT64 \<equiv> 8"

section \<open>Operations\<close>

definition intsetValueEncoding :: "int \<Rightarrow> nat" where
  "intsetValueEncoding v =
     (if v < INT32_MIN \<or> v > INT32_MAX then INTSET_ENC_INT64
      else if v < INT16_MIN \<or> v > INT16_MAX then INTSET_ENC_INT32
      else INTSET_ENC_INT16)"

definition intsetGetEncoded :: "intset \<Rightarrow> nat \<Rightarrow> nat \<Rightarrow> int option" where
  "intsetGetEncoded is pos enc =
     (if enc = INTSET_ENC_INT64 then map_option le_sint (mem_read (contents is) (pos * 8) 8)
      else if enc = INTSET_ENC_INT32 then map_option le_sint (mem_read (contents is) (pos * 4) 4)
      else map_option le_sint (mem_read (contents is) (pos * 2) 2))"

definition intset_get :: "intset \<Rightarrow> nat \<Rightarrow> int option" where
  "intset_get is pos = intsetGetEncoded is pos (is_encoding is)"

definition intset_set :: "intset \<Rightarrow> nat \<Rightarrow> int \<Rightarrow> intset option" where
  "intset_set is pos v = do {
     c \<leftarrow>
       (if is_encoding is = INTSET_ENC_INT64 then mem_write (contents is) (pos * 8) (le_bytes 8 v)
        else if is_encoding is = INTSET_ENC_INT32 then mem_write (contents is) (pos * 4) (le_bytes 4 v)
        else mem_write (contents is) (pos * 2) (le_bytes 2 v));
     Some (is\<lparr>contents := c\<rparr>)
   }"

definition intsetNew :: intset where
  "intsetNew = \<lparr>is_encoding = INTSET_ENC_INT16, is_length = 0, contents = []\<rparr>"

definition intsetResize :: "(nat \<Rightarrow> byte) \<Rightarrow> intset \<Rightarrow> nat \<Rightarrow> intset" where
  "intsetResize junk is len = (
     let size = unat (of_nat len * of_nat (is_encoding is) :: u32)
     in is\<lparr>contents := zrealloc junk size (contents is)\<rparr>)"

text \<open>
  The binary search. The C code adds the two non-negative \<open>int\<close> bounds as
  \<open>unsigned int\<close>, so the sum does not wrap.
\<close>

function intsetSearch_loop ::
  "intset \<Rightarrow> int \<Rightarrow> int \<Rightarrow> int \<Rightarrow> int \<Rightarrow> int \<Rightarrow> (int \<times> int \<times> int) option" where
  "intsetSearch_loop is v lo hi mid cur =
     (if hi \<ge> lo then
        let mid = (lo + hi) div 2 in
        (case intset_get is (nat mid) of
           None \<Rightarrow> None
         | Some cur \<Rightarrow>
             if v > cur then intsetSearch_loop is v (mid + 1) hi mid cur
             else if v < cur then intsetSearch_loop is v lo (mid - 1) mid cur
             else Some (lo, mid, cur))
      else Some (lo, mid, cur))"
  by pat_completeness auto
termination
  by (relation "measure (\<lambda>(is, v, lo, hi, mid, cur). nat (hi - lo + 1))") auto

declare intsetSearch_loop.simps [simp del]

definition intsetSearch :: "intset \<Rightarrow> int \<Rightarrow> (bool \<times> nat) option" where
  "intsetSearch is v =
     (if is_length is = 0 then Some (False, 0)
      else do {
        last \<leftarrow> intset_get is (is_length is - 1);
        if v > last then Some (False, is_length is)
        else do {
          first \<leftarrow> intset_get is 0;
          if v < first then Some (False, 0)
          else do {
            (lo, mid, cur) \<leftarrow> intsetSearch_loop is v 0 (int (is_length is) - 1) (- 1) (- 1);
            if v = cur then Some (True, nat mid) else Some (False, nat lo)
          }
        }
      })"

text \<open>\<open>while(length--) _intsetSet(is,length+prepend,_intsetGetEncoded(is,length,curenc))\<close>\<close>

fun intsetUpgrade_loop :: "intset \<Rightarrow> nat \<Rightarrow> nat \<Rightarrow> nat \<Rightarrow> intset option" where
  "intsetUpgrade_loop is curenc prepend 0 = Some is"
| "intsetUpgrade_loop is curenc prepend (Suc len) = do {
     v \<leftarrow> intsetGetEncoded is len curenc;
     is \<leftarrow> intset_set is (len + prepend) v;
     intsetUpgrade_loop is curenc prepend len
   }"

definition intsetUpgradeAndAdd :: "(nat \<Rightarrow> byte) \<Rightarrow> intset \<Rightarrow> int \<Rightarrow> intset option" where
  "intsetUpgradeAndAdd junk is v = (
     let curenc = is_encoding is;
         newenc = intsetValueEncoding v;
         prepend = (if v < 0 then 1 else 0);
         is = is\<lparr>is_encoding := newenc\<rparr>;
         is = intsetResize junk is (is_length is + 1)
     in do {
          is \<leftarrow> intsetUpgrade_loop is curenc prepend (is_length is);
          is \<leftarrow> (if prepend = 1 then intset_set is 0 v else intset_set is (is_length is) v);
          Some (is\<lparr>is_length := is_length is + 1\<rparr>)
        })"

definition intsetMoveTail :: "intset \<Rightarrow> nat \<Rightarrow> nat \<Rightarrow> intset option" where
  "intsetMoveTail is from to = (
     let bytes = (of_nat (is_length is) - of_nat from :: u32);
         enc = is_encoding is
     in do {
          c \<leftarrow>
            (if enc = INTSET_ENC_INT64 then
               memmove (contents is) (to * 8) (from * 8) (unat (bytes * 8))
             else if enc = INTSET_ENC_INT32 then
               memmove (contents is) (to * 4) (from * 4) (unat (bytes * 4))
             else
               memmove (contents is) (to * 2) (from * 2) (unat (bytes * 2)));
          Some (is\<lparr>contents := c\<rparr>)
        })"

definition intsetAdd :: "(nat \<Rightarrow> byte) \<Rightarrow> intset \<Rightarrow> int \<Rightarrow> (intset \<times> bool) option" where
  "intsetAdd junk is v = (
     let valenc = intsetValueEncoding v in
     if valenc > is_encoding is then do {
       is \<leftarrow> intsetUpgradeAndAdd junk is v;
       Some (is, True)
     } else do {
       (found, pos) \<leftarrow> intsetSearch is v;
       if found then Some (is, False)
       else do {
         let is = intsetResize junk is (is_length is + 1);
         is \<leftarrow> (if pos < is_length is then intsetMoveTail is pos (pos + 1) else Some is);
         is \<leftarrow> intset_set is pos v;
         Some (is\<lparr>is_length := is_length is + 1\<rparr>, True)
       }
     })"

definition intsetRemove :: "(nat \<Rightarrow> byte) \<Rightarrow> intset \<Rightarrow> int \<Rightarrow> (intset \<times> bool) option" where
  "intsetRemove junk is v = (
     let valenc = intsetValueEncoding v in
     if valenc \<le> is_encoding is then do {
       (found, pos) \<leftarrow> intsetSearch is v;
       if found then do {
         let len = is_length is;
         is \<leftarrow> (if pos < len - 1 then intsetMoveTail is (pos + 1) pos else Some is);
         let is = intsetResize junk is (len - 1);
         Some (is\<lparr>is_length := len - 1\<rparr>, True)
       } else Some (is, False)
     } else Some (is, False))"

definition intsetFind :: "intset \<Rightarrow> int \<Rightarrow> bool option" where
  "intsetFind is v = (
     let valenc = intsetValueEncoding v in
     if valenc \<le> is_encoding is then map_option fst (intsetSearch is v) else Some False)"

text \<open>\<open>rand()\<close> of the C library is the argument \<open>r\<close>; a division by zero is \<open>None\<close>.\<close>

definition intsetRandom :: "nat \<Rightarrow> intset \<Rightarrow> int option" where
  "intsetRandom r is = (if is_length is = 0 then None else intset_get is (r mod is_length is))"

text \<open>\<open>Some None\<close> is the return value 0.\<close>

definition intsetGet :: "intset \<Rightarrow> nat \<Rightarrow> int option option" where
  "intsetGet is pos =
     (if pos < is_length is then map_option Some (intset_get is pos) else Some None)"

definition intsetLen :: "intset \<Rightarrow> nat" where
  "intsetLen is = is_length is"

definition intsetBlobLen :: "intset \<Rightarrow> nat" where
  "intsetBlobLen is = 8 + unat (of_nat (is_length is) * of_nat (is_encoding is) :: u32)"

section \<open>Representation\<close>

definition enc_range :: "nat \<Rightarrow> int \<Rightarrow> bool" where
  "enc_range enc v \<longleftrightarrow> - (2 ^ (8 * enc - 1)) \<le> v \<and> v < 2 ^ (8 * enc - 1)"

definition enc_ok :: "nat \<Rightarrow> bool" where
  "enc_ok enc \<longleftrightarrow> enc = 2 \<or> enc = 4 \<or> enc = 8"

text \<open>The numbers a well-formed intset holds, read off its bytes.\<close>

definition intset_elems :: "intset \<Rightarrow> int list" where
  "intset_elems is = map le_sint (chunks (is_encoding is) (is_length is) (contents is))"

definition intset_repr :: "intset \<Rightarrow> int list \<Rightarrow> bool" where
  "intset_repr is vs \<longleftrightarrow> enc_ok (is_encoding is) \<and> length vs = is_length is
     \<and> contents is = concat (map (le_bytes (is_encoding is)) vs)
     \<and> (\<forall>v \<in> set vs. enc_range (is_encoding is) v) \<and> is_length is * 8 < 2 ^ 32"

definition intset_wf :: "intset \<Rightarrow> bool" where
  "intset_wf is \<longleftrightarrow> enc_ok (is_encoding is) \<and> length (contents is) = is_length is * is_encoding is
     \<and> is_length is * 8 < 2 ^ 32 \<and> sorted_wrt (<) (intset_elems is)"

lemma enc_range_le_sint: "enc_ok enc \<Longrightarrow> enc_range enc v \<Longrightarrow> le_sint (le_bytes enc v) = v"
  by (rule le_sint_le_bytes) (auto simp: enc_ok_def enc_range_def)

lemma le_sint_enc_range: "enc_ok enc \<Longrightarrow> length c = enc \<Longrightarrow> enc_range enc (le_sint c)"
proof -
  assume "enc_ok enc" and c: "length c = enc"
  then have "c \<noteq> []" by (auto simp: enc_ok_def)
  from le_sint_bounds [OF this] show ?thesis by (simp add: enc_range_def c)
qed

lemma le_bytes_le_sint:
  assumes ok: "enc_ok enc" and c: "length c = enc"
  shows "le_bytes enc (le_sint c) = c"
  unfolding c [symmetric]
proof (rule le_bytes_inj)
  have "le_uint (le_bytes (length c) (le_sint c)) = le_sint c mod 256 ^ length c"
    by (rule le_uint_le_bytes)
  also have "\<dots> = take_bit (8 * length c) (signed_take_bit (8 * length c - 1) (le_uint c))"
    by (simp add: take_bit_eq_mod power_mult le_sint_def)
  also have "\<dots> = take_bit (8 * length c) (le_uint c)"
    using ok c by (auto simp: enc_ok_def take_bit_signed_take_bit)
  also have "\<dots> = le_uint c"
    using le_uint_bounds [of c] by (simp add: take_bit_eq_mod power_mult)
  finally show "le_uint (le_bytes (length c) (le_sint c)) = le_uint c" .
qed simp

lemma cells_le_bytes [simp]: "cells enc (map (le_bytes enc) vs)"
  by (simp add: cells_def)

lemma repr_elems: "intset_repr is vs \<Longrightarrow> intset_elems is = vs"
proof -
  assume r: "intset_repr is vs"
  then have "chunks (is_encoding is) (is_length is) (contents is) = map (le_bytes (is_encoding is)) vs"
    using chunks_concat [OF cells_le_bytes, of "is_encoding is" vs] by (simp add: intset_repr_def)
  with r show ?thesis
    by (simp add: intset_elems_def intset_repr_def enc_range_le_sint map_idI)
qed

lemma wf_repr: "intset_wf is \<longleftrightarrow> intset_repr is (intset_elems is) \<and> sorted_wrt (<) (intset_elems is)"
proof -
  have "intset_repr is (intset_elems is)"
    if w: "enc_ok (is_encoding is)" "length (contents is) = is_length is * is_encoding is"
      "is_length is * 8 < 2 ^ 32"
  proof -
    let ?cs = "chunks (is_encoding is) (is_length is) (contents is)"
    have c: "cells (is_encoding is) ?cs" using w(2) by (rule cells_chunks)
    then have "map (le_bytes (is_encoding is)) (intset_elems is) = ?cs"
      using w(1) by (auto simp: intset_elems_def cells_def le_bytes_le_sint intro!: map_idI)
    then have "contents is = concat (map (le_bytes (is_encoding is)) (intset_elems is))"
      using concat_chunks [OF w(2)] by simp
    moreover have "\<forall>v \<in> set (intset_elems is). enc_range (is_encoding is) v"
      using c w(1) by (auto simp: intset_elems_def cells_def intro!: le_sint_enc_range)
    ultimately show ?thesis using w by (simp add: intset_repr_def intset_elems_def)
  qed
  moreover have "length (contents is) = is_length is * is_encoding is"
    if "intset_repr is vs" for vs
    using that length_concat_cells [OF cells_le_bytes, of "is_encoding is" vs]
    by (simp add: intset_repr_def)
  ultimately show ?thesis
    by (auto simp: intset_wf_def intset_repr_def)
qed

lemma get_encoded:
  assumes "enc_ok enc"
  shows "intsetGetEncoded is pos enc = map_option le_sint (mem_read (contents is) (pos * enc) enc)"
  using assms by (auto simp: intsetGetEncoded_def enc_ok_def)

lemma set_encoded:
  assumes "enc_ok (is_encoding is)"
  shows "intset_set is pos v = map_option (\<lambda>c. is\<lparr>contents := c\<rparr>)
    (mem_write (contents is) (pos * is_encoding is) (le_bytes (is_encoding is) v))"
  using assms by (auto simp: intset_set_def enc_ok_def map_option_case split: option.splits)

lemma repr_get: "intset_repr is vs \<Longrightarrow> pos < length vs \<Longrightarrow> intset_get is pos = Some (vs ! pos)"
  by (simp add: intset_get_def get_encoded intset_repr_def mem_read_cell enc_range_le_sint)

section \<open>Search\<close>

definition split_at :: "int list \<Rightarrow> int \<Rightarrow> nat \<Rightarrow> bool" where
  "split_at vs v p \<longleftrightarrow> p \<le> length vs \<and> (\<forall>x \<in> set (take p vs). x < v) \<and> (\<forall>x \<in> set (drop p vs). v < x)"

lemma split_atI:
  assumes "p \<le> length vs" and "\<And>i. i < p \<Longrightarrow> vs ! i < v"
    and "\<And>i. p \<le> i \<Longrightarrow> i < length vs \<Longrightarrow> v < vs ! i"
  shows "split_at vs v p"
  using assms by (auto simp: split_at_def in_set_conv_nth)

lemma split_at_notin: "split_at vs v p \<Longrightarrow> v \<notin> set vs"
  using append_take_drop_id [of p vs] by (metis Un_iff less_irrefl set_append split_at_def)

lemma search_loop:
  assumes r: "intset_repr is vs" and s: "sorted_wrt (<) vs"
    and "0 \<le> lo" and "hi < int (length vs)" and "lo \<le> hi + 1"
    and below: "\<And>i. int i < lo \<Longrightarrow> i < length vs \<Longrightarrow> vs ! i < v"
    and above: "\<And>i. hi < int i \<Longrightarrow> i < length vs \<Longrightarrow> v < vs ! i"
    and fresh: "hi < lo \<Longrightarrow> cur \<noteq> v"
  shows "\<exists>lo' mid' cur'. intsetSearch_loop is v lo hi mid cur = Some (lo', mid', cur')
    \<and> (if cur' = v then nat mid' < length vs \<and> vs ! nat mid' = v else split_at vs v (nat lo'))"
  using assms(3-)
proof (induction "nat (hi - lo + 1)" arbitrary: lo hi mid cur rule: less_induct)
  case less
  show ?case
  proof (cases "hi \<ge> lo")
    case False
    then have eq: "hi = lo - 1" using less.prems(3) by simp
    have "split_at vs v (nat lo)"
      using less.prems(1,2,4,5) eq by (intro split_atI) auto
    then show ?thesis
      using False less.prems(6) by (simp add: intsetSearch_loop.simps [of "is"])
  next
    case True
    let ?m = "(lo + hi) div 2"
    have m: "lo \<le> ?m" "?m \<le> hi" using True by auto
    then have m': "nat ?m < length vs" "int (nat ?m) = ?m" using less.prems(1,2) by auto
    let ?c = "vs ! nat ?m"
    have step: "intsetSearch_loop is v lo hi mid cur =
        (if v > ?c then intsetSearch_loop is v (?m + 1) hi ?m ?c
         else if v < ?c then intsetSearch_loop is v lo (?m - 1) ?m ?c
         else Some (lo, ?m, ?c))"
      using True m' by (simp add: intsetSearch_loop.simps [of "is" v lo] repr_get [OF r] Let_def)
    consider "v > ?c" | "v < ?c" | "v = ?c" by linarith
    then show ?thesis
    proof cases
      case 1
      have "vs ! i < v" if "int i < ?m + 1" "i < length vs" for i
      proof (cases "i = nat ?m")
        case False
        then have "i < nat ?m" using that(1) m' by linarith
        then show ?thesis using sorted_wrt_nth_less [OF s, of i "nat ?m"] m'(1) 1 by simp
      qed (use 1 in simp)
      moreover have "intsetSearch_loop is v lo hi mid cur
          = intsetSearch_loop is v (?m + 1) hi ?m ?c" using 1 by (simp add: step)
      moreover have "?c \<noteq> v" using 1 by simp
      ultimately show ?thesis
        by (simp only:) (rule less.hyps, use less.prems m in auto)
    next
      case 2
      have "v < vs ! i" if "?m - 1 < int i" "i < length vs" for i
      proof (cases "i = nat ?m")
        case False
        then have "nat ?m < i" using that(1) m' by linarith
        then show ?thesis using sorted_wrt_nth_less [OF s, of "nat ?m" i] that(2) 2 by simp
      qed (use 2 in simp)
      moreover have "intsetSearch_loop is v lo hi mid cur
          = intsetSearch_loop is v lo (?m - 1) ?m ?c" using 2 by (simp add: step)
      moreover have "?c \<noteq> v" using 2 by simp
      ultimately show ?thesis
        by (simp only:) (rule less.hyps, use less.prems m in auto)
    next
      case 3
      then have "intsetSearch_loop is v lo hi mid cur = Some (lo, ?m, ?c)" unfolding step by simp
      with 3 m'(1) show ?thesis by (intro exI [of _ lo] exI [of _ ?m] exI [of _ ?c]) simp
    qed
  qed
qed

lemma search_spec:
  assumes r: "intset_repr is vs" and s: "sorted_wrt (<) vs"
  shows "\<exists>pos. intsetSearch is v = Some (v \<in> set vs, pos)
    \<and> (if v \<in> set vs then pos < length vs \<and> vs ! pos = v else split_at vs v pos)"
proof (cases "vs = []")
  case True
  with r show ?thesis by (simp add: intsetSearch_def intset_repr_def split_at_def)
next
  case False
  have "is_length is = length vs" using r by (simp add: intset_repr_def)
  with False have len: "is_length is = length vs" "0 < length vs" by simp_all
  let ?hi = "vs ! (length vs - 1)"
  have le_hi: "x \<le> ?hi" and ge_lo: "vs ! 0 \<le> x" if x: "x \<in> set vs" for x
  proof -
    from x obtain i where i: "i < length vs" "vs ! i = x" by (auto simp: in_set_conv_nth)
    show "x \<le> ?hi"
    proof (cases "i = length vs - 1")
      case False
      then have "i < length vs - 1" "length vs - 1 < length vs" using i(1) by linarith+
      then show ?thesis using sorted_wrt_nth_less [OF s] i(2) less_imp_le by blast
    qed (use i in simp)
    show "vs ! 0 \<le> x" using sorted_wrt_nth_less [OF s, of 0 i] i by (cases "i = 0") auto
  qed
  consider "v > ?hi" | "v \<le> ?hi" "v < vs ! 0" | "v \<le> ?hi" "vs ! 0 \<le> v" by linarith
  then show ?thesis
  proof cases
    case 1
    then have "v \<notin> set vs" "split_at vs v (length vs)" using le_hi by (fastforce simp: split_at_def)+
    with 1 len show ?thesis by (simp add: intsetSearch_def repr_get [OF r])
  next
    case 2
    then have "v \<notin> set vs" "split_at vs v 0" using ge_lo by (fastforce simp: split_at_def)+
    with 2 len show ?thesis by (simp add: intsetSearch_def repr_get [OF r] not_less)
  next
    case 3
    obtain lo' mid' cur' where l:
        "intsetSearch_loop is v 0 (int (length vs) - 1) (- 1) (- 1) = Some (lo', mid', cur')"
        "if cur' = v then nat mid' < length vs \<and> vs ! nat mid' = v else split_at vs v (nat lo')"
      using search_loop [OF r s, of 0 "int (length vs) - 1" v "- 1" "- 1"] len by auto
    then have "v \<in> set vs \<longleftrightarrow> v = cur'"
      by (cases "cur' = v") (auto dest: split_at_notin)
    with 3 len l show ?thesis
      by (simp add: intsetSearch_def repr_get [OF r] not_less)
  qed
qed

section \<open>Insertion and removal\<close>

lemma enc_size:
  assumes "enc_ok enc" and "len * 8 < 2 ^ 32"
  shows "unat (of_nat len * of_nat enc :: u32) = len * enc"
proof -
  have "enc \<le> 8" using assms(1) by (auto simp: enc_ok_def)
  then have "len * enc \<le> len * 8" by simp
  with assms(2) have "len * enc < 2 ^ 32" by linarith
  then show ?thesis by (simp add: unat_of_nat flip: of_nat_mult)
qed

lemma resize_contents:
  assumes "enc_ok (is_encoding is)" and "len * 8 < 2 ^ 32"
  shows "intsetResize junk is len
    = is\<lparr>contents := zrealloc junk (len * is_encoding is) (contents is)\<rparr>"
  using enc_size [OF assms] by (simp add: intsetResize_def)

lemma move_tail:
  assumes "enc_ok (is_encoding is)" and "from \<le> is_length is" and "is_length is * 8 < 2 ^ 32"
  shows "intsetMoveTail is from to = map_option (\<lambda>c. is\<lparr>contents := c\<rparr>)
    (memmove (contents is) (to * is_encoding is) (from * is_encoding is)
       ((is_length is - from) * is_encoding is))"
proof -
  let ?n = "is_length is - from"
  have b: "(of_nat (is_length is) - of_nat from :: u32) = of_nat ?n"
    using assms(2) by (simp add: of_nat_diff)
  have k: "unat (of_nat ?n * of_nat k :: u32) = ?n * k" if "k \<le> 8" for k
  proof -
    have "?n * k \<le> is_length is * 8" using that by (intro mult_le_mono) auto
    with assms(3) have "?n * k < 2 ^ 32" by linarith
    then show ?thesis by (simp add: unat_of_nat flip: of_nat_mult)
  qed
  show ?thesis
    using assms(1) k [of 2] k [of 4] k [of 8]
    by (auto simp: intsetMoveTail_def b enc_ok_def Let_def map_option_case split: option.splits)
qed

lemma insert_cell:
  assumes "cells k cs" and "length j = k" and "length c = k" and "p \<le> length cs"
  shows "Option.bind (memmove (concat (cs @ [j])) (Suc p * k) (p * k) ((length cs - p) * k))
      (\<lambda>m. mem_write m (p * k) c) = Some (concat (take p cs @ c # drop p cs))"
proof -
  let ?t = "drop p cs"
  let ?d = "take (Suc p) (cs @ [j]) @ ?t"
  have r: "mem_read (concat (cs @ [j])) (p * k) ((length cs - p) * k) = Some (concat ?t)"
    using mem_read_cells [of k "cs @ [j]" p "length cs - p"] assms by simp
  have "mem_write (concat (cs @ [j])) (Suc p * k) (concat ?t)
      = Some (concat (take (Suc p) (cs @ [j]) @ ?t @ drop (Suc p + length ?t) (cs @ [j])))"
    using assms by (intro mem_write_cells) auto
  then have w: "mem_write (concat (cs @ [j])) (Suc p * k) (concat ?t) = Some (concat ?d)"
    using assms(4) by simp
  have "mem_write (concat ?d) (p * k) c = Some (concat (?d[p := c]))"
    using assms by (intro mem_write_cell) (auto simp: min_def)
  moreover have "?d[p := c] = take p cs @ c # ?t"
    using assms(4) by (cases "p = length cs") (auto simp: upd_conv_take_nth_drop min_def take_Suc_conv_app_nth nth_append)
  ultimately show ?thesis by (simp only: memmove_def r w Option.bind.simps)
qed

lemma take_length_append: "n = length xs \<Longrightarrow> take n (xs @ ys) = xs"
  by simp

lemma delete_cell:
  assumes "cells k cs" and "p < length cs"
  shows "\<exists>m. memmove (concat cs) (p * k) (Suc p * k) ((length cs - Suc p) * k) = Some m
    \<and> take ((length cs - 1) * k) m = concat (take p cs @ drop (Suc p) cs)"
proof -
  let ?t = "drop (Suc p) cs"
  let ?d = "take p cs @ ?t @ drop (p + length ?t) cs"
  have r: "mem_read (concat cs) (Suc p * k) ((length cs - Suc p) * k) = Some (concat ?t)"
    using mem_read_cells [of k cs "Suc p" "length cs - Suc p"] assms by simp
  have w: "mem_write (concat cs) (p * k) (concat ?t) = Some (concat ?d)"
    using assms by (intro mem_write_cells) auto
  have "take ((length cs - 1) * k) (concat ?d) = concat (take (length cs - 1) ?d)"
    using assms(1) by (intro take_concat_cells) simp
  also have "take (length cs - 1) ?d = take p cs @ ?t"
  proof -
    have l: "length cs - 1 = length (take p cs @ ?t)" using assms(2) by simp
    show ?thesis
      using take_length_append [OF l] by (simp only: append_assoc)
  qed
  finally show ?thesis by (simp only: memmove_def r w Option.bind.simps) auto
qed

lemma value_encoding:
  assumes "INT64_MIN \<le> v" and "v \<le> INT64_MAX"
  shows "enc_ok (intsetValueEncoding v)"
    and "enc_ok enc \<Longrightarrow> intsetValueEncoding v \<le> enc \<longleftrightarrow> enc_range enc v"
  using assms by (auto simp: intsetValueEncoding_def enc_ok_def enc_range_def)

lemma repr_length: "intset_repr is vs \<Longrightarrow> length (contents is) = length vs * is_encoding is"
  using length_concat_cells [OF cells_le_bytes, of "is_encoding is" vs] by (simp add: intset_repr_def)

lemma add_in_place:
  assumes r: "intset_repr is vs" and p: "split_at vs v p" and v: "enc_range (is_encoding is) v"
    and room: "Suc (is_length is) * 8 < 2 ^ 32"
  shows "\<exists>is'. Option.bind
      (let is = intsetResize junk is (is_length is + 1) in
         if p < is_length is then intsetMoveTail is p (p + 1) else Some is)
      (\<lambda>is. Option.bind (intset_set is p v) (\<lambda>is. Some (is\<lparr>is_length := is_length is + 1\<rparr>)))
      = Some is' \<and> intset_repr is' (take p vs @ v # drop p vs)"
proof -
  let ?k = "is_encoding is"
  let ?cs = "map (le_bytes ?k) vs"
  let ?j = "map junk [length vs * ?k..<Suc (length vs) * ?k]"
  have ok: "enc_ok ?k" and len: "is_length is = length vs" and c: "contents is = concat ?cs"
    using r by (simp_all add: intset_repr_def)
  have le: "p \<le> length vs" using p by (simp add: split_at_def)
  let ?is = "is\<lparr>contents := concat (?cs @ [?j])\<rparr>"
  have rs: "intsetResize junk is (is_length is + 1) = ?is"
    using resize_contents [OF ok, of "Suc (is_length is)" junk] room repr_length [OF r] len c
    by (simp add: zrealloc_grow)
  let ?res = "concat (take p ?cs @ le_bytes ?k v # drop p ?cs)"
  have "Option.bind
      (if p < length vs then memmove (concat (?cs @ [?j])) (Suc p * ?k) (p * ?k) ((length vs - p) * ?k)
       else Some (concat (?cs @ [?j])))
      (\<lambda>m. mem_write m (p * ?k) (le_bytes ?k v)) = Some ?res"
  proof (cases "p < length vs")
    case True
    then show ?thesis using insert_cell [of ?k ?cs ?j "le_bytes ?k v" p] le by simp
  next
    case False
    then have "p = length vs" using le by simp
    then show ?thesis
      using mem_write_cell [of ?k "?cs @ [?j]" "le_bytes ?k v" p] by (simp add: list_update_append)
  qed
  then have "Option.bind (if p < length vs then intsetMoveTail ?is p (p + 1) else Some ?is)
      (\<lambda>is. intset_set is p v) = Some (is\<lparr>contents := ?res\<rparr>)"
    using le len room ok
    by (auto simp: move_tail set_encoded split: if_splits elim!: option_bind_SomeE)
  then have "Option.bind (if p < length vs then intsetMoveTail ?is p (p + 1) else Some ?is)
      (\<lambda>is. Option.bind (intset_set is p v) (\<lambda>is. Some (is\<lparr>is_length := is_length is + 1\<rparr>)))
      = Some (is\<lparr>contents := ?res, is_length := Suc (length vs)\<rparr>)"
    by (simp add: bind_assoc [symmetric] len)
  moreover have "intset_repr (is\<lparr>contents := ?res, is_length := Suc (length vs)\<rparr>)
      (take p vs @ v # drop p vs)"
    using r v room le by (auto simp: intset_repr_def take_map drop_map dest: in_set_takeD in_set_dropD)
  ultimately show ?thesis using rs len by (auto simp: Let_def)
qed

lemma upgrade_loop:
  assumes "cells k' cs" and "length us + pre \<le> length cs" and "enc_ok k" and "enc_ok k'" and "k \<le> k'"
    and "take (length us * k) (concat cs) = concat (map (le_bytes k) us)"
    and "\<forall>u \<in> set us. enc_range k u" and "is_encoding is = k'"
  shows "intsetUpgrade_loop (is\<lparr>contents := concat cs\<rparr>) k pre (length us)
    = Some (is\<lparr>contents := concat (take pre cs @ map (le_bytes k') us @ drop (length us + pre) cs)\<rparr>)"
  using assms(1,2,6,7)
proof (induction us arbitrary: cs rule: rev_induct)
  case (snoc u us)
  let ?m = "length us"
  let ?cs = "cs[?m + pre := le_bytes k' u]"
  have len: "?m + pre < length cs" using snoc.prems(2) by simp
  have "?m * k + k \<le> length cs * k'"
    using snoc.prems(2) assms(5) mult_le_mono [of "Suc ?m" "length cs" k k'] by simp
  then have room: "?m * k + k \<le> length (concat cs)"
    using length_concat_cells [OF snoc.prems(1)] by simp
  have "mem_read (concat cs) (?m * k) k = mem_read (take (?m * k + k) (concat cs)) (?m * k) k"
    using room by (simp add: mem_read_take)
  also have "take (?m * k + k) (concat cs) = concat (map (le_bytes k) (us @ [u]))"
    using snoc.prems(3) by (simp add: algebra_simps)
  also have "mem_read \<dots> (?m * k) k = Some (le_bytes k u)"
    using mem_read_cell [of k "map (le_bytes k) (us @ [u])" ?m] by (simp add: nth_append)
  finally have get: "intsetGetEncoded (is\<lparr>contents := concat cs\<rparr>) ?m k = Some u"
    using assms(3) snoc.prems(4) by (simp add: get_encoded enc_range_le_sint)
  have set: "intset_set (is\<lparr>contents := concat cs\<rparr>) (?m + pre) u = Some (is\<lparr>contents := concat ?cs\<rparr>)"
    using mem_write_cell [OF snoc.prems(1), of "le_bytes k' u" "?m + pre"] len assms(4,8)
    by (simp add: set_encoded)
  have "?m * k \<le> (?m + pre) * k'" using assms(5) by (intro mult_le_mono) auto
  then have keep: "take (?m * k) (concat ds) = take (?m * k) (concat (take (?m + pre) ds))"
    if "cells k' ds" for ds :: "byte list list"
    using take_concat_cells [OF that, of "?m + pre"] by (metis min_def take_take)
  have "take (?m * k) (concat ?cs) = take (?m * k) (concat cs)"
    using keep [of ?cs] keep [OF snoc.prems(1)] snoc.prems(1) by simp
  also have "\<dots> = take (?m * k) (concat (map (le_bytes k) (us @ [u])))"
    by (subst snoc.prems(3) [symmetric]) (simp add: min_def)
  also have "\<dots> = concat (map (le_bytes k) us)"
    using take_concat_cells [of k "map (le_bytes k) (us @ [u])" ?m] by simp
  finally have "intsetUpgrade_loop (is\<lparr>contents := concat ?cs\<rparr>) k pre ?m
      = Some (is\<lparr>contents := concat (take pre ?cs @ map (le_bytes k') us @ drop (?m + pre) ?cs)\<rparr>)"
    using snoc.prems len by (intro snoc.IH) auto
  moreover have "drop (?m + pre) ?cs = le_bytes k' u # drop (Suc (?m + pre)) cs"
    using len by (simp add: drop_update_swap Cons_nth_drop_Suc [symmetric])
  ultimately show ?case using get set by simp
qed simp

lemma upgrade_and_add:
  assumes r: "intset_repr is vs" and v: "INT64_MIN \<le> v" "v \<le> INT64_MAX"
    and big: "\<not> enc_range (is_encoding is) v" and room: "Suc (is_length is) * 8 < 2 ^ 32"
  shows "\<exists>is'. intsetUpgradeAndAdd junk is v = Some is'
    \<and> intset_repr is' (if v < 0 then v # vs else vs @ [v])"
proof -
  let ?k = "is_encoding is"
  let ?k' = "intsetValueEncoding v"
  let ?pre = "if v < 0 then 1 else 0 :: nat"
  let ?n = "length vs"
  have ok: "enc_ok ?k" and len: "is_length is = ?n" and c: "contents is = concat (map (le_bytes ?k) vs)"
    and rg: "\<forall>u \<in> set vs. enc_range ?k u"
    using r by (simp_all add: intset_repr_def)
  have ok': "enc_ok ?k'" and "\<not> ?k' \<le> ?k" and fits: "enc_range ?k' v"
    using value_encoding [OF v] ok big by auto
  then have lt: "?k \<le> ?k'" by simp
  let ?c = "zrealloc junk (Suc ?n * ?k') (contents is)"
  have "length ?c = Suc ?n * ?k'" by simp
  then obtain cs where cs: "cells ?k' cs" "concat cs = ?c" "length cs = Suc ?n"
    using cells_chunks concat_chunks length_chunks by blast
  have pre: "take (?n * ?k) (concat cs) = concat (map (le_bytes ?k) vs)"
  proof -
    have "length (contents is) = ?n * ?k" by (rule repr_length [OF r])
    moreover have "?n * ?k \<le> Suc ?n * ?k'" using lt by (intro mult_le_mono) auto
    ultimately show ?thesis by (simp add: cs(2) c zrealloc_grow)
  qed
  let ?is = "is\<lparr>is_encoding := ?k'\<rparr>"
  have rs: "intsetResize junk ?is (Suc ?n) = ?is\<lparr>contents := concat cs\<rparr>"
    using resize_contents [of ?is "Suc ?n" junk] ok' room len by (simp add: cs(2))
  have wide: "\<forall>u \<in> set vs. enc_range ?k' u"
    using rg lt ok ok' by (auto simp: enc_range_def enc_ok_def split: if_splits)
  let ?ds = "take ?pre cs @ map (le_bytes ?k') vs @ drop (?n + ?pre) cs"
  have loop: "intsetUpgrade_loop (?is\<lparr>contents := concat cs\<rparr>) ?k ?pre ?n = Some (?is\<lparr>contents := concat ?ds\<rparr>)"
    using cs(1,3) ok ok' lt pre rg by (intro upgrade_loop) auto
  have dl: "length ?ds = Suc ?n" "cells ?k' ?ds" using cs(1,3) by auto
  let ?p = "if v < 0 then 0 else ?n"
  let ?vs = "if v < 0 then v # vs else vs @ [v]"
  have upd: "?ds[?p := le_bytes ?k' v] = map (le_bytes ?k') ?vs"
  proof -
    have "length (drop ?n cs) = 1" using cs(3) by simp
    then obtain d where "drop ?n cs = [d]" by (metis One_nat_def length_0_conv length_Suc_conv)
    moreover obtain e es where "cs = e # es" using cs(3) by (cases cs) auto
    ultimately show ?thesis using cs(3) by (auto simp: list_update_append)
  qed
  have "mem_write (concat ?ds) (?p * ?k') (le_bytes ?k' v) = Some (concat (?ds[?p := le_bytes ?k' v]))"
    using dl by (intro mem_write_cell) auto
  then have set: "intset_set (?is\<lparr>contents := concat ?ds\<rparr>) ?p v
      = Some (?is\<lparr>contents := concat (map (le_bytes ?k') ?vs)\<rparr>)"
    using ok' by (simp only: upd) (simp add: set_encoded)
  have "intsetUpgradeAndAdd junk is v
      = Some (?is\<lparr>contents := concat (map (le_bytes ?k') ?vs), is_length := Suc ?n\<rparr>)"
    using rs loop set len by (cases "v < 0") (simp_all add: intsetUpgradeAndAdd_def Let_def)
  moreover have "intset_repr (?is\<lparr>contents := concat (map (le_bytes ?k') ?vs), is_length := Suc ?n\<rparr>) ?vs"
    using ok' wide fits room len by (auto simp: intset_repr_def)
  ultimately show ?thesis by blast
qed

lemma sorted_insert_at:
  "sorted_wrt (<) vs \<Longrightarrow> split_at vs v p \<Longrightarrow> sorted_wrt (<) (take p vs @ v # drop p vs)"
  by (auto simp: split_at_def sorted_wrt_append sorted_wrt_take sorted_wrt_drop
      intro: less_trans)

lemma set_insert_at: "set (take p vs @ v # drop p vs) = insert v (set vs)"
  by (metis append_take_drop_id list.set(2) set_append Un_insert_right)

lemma intset_add_law:
  assumes wf: "intset_wf is" and v: "INT64_MIN \<le> v" "v \<le> INT64_MAX"
    and room: "Suc (is_length is) * 8 < 2 ^ 32"
  shows "\<exists>is'. intsetAdd junk is v = Some (is', v \<notin> set (intset_elems is)) \<and> intset_wf is'
    \<and> set (intset_elems is') = insert v (set (intset_elems is))"
proof -
  let ?vs = "intset_elems is"
  have r: "intset_repr is ?vs" and s: "sorted_wrt (<) ?vs" using wf by (simp_all add: wf_repr)
  have ok: "enc_ok (is_encoding is)" using r by (simp add: intset_repr_def)
  show ?thesis
  proof (cases "enc_range (is_encoding is) v")
    case False
    then have up: "is_encoding is < intsetValueEncoding v"
      using value_encoding(2) [OF v ok] by simp
    have rg: "\<forall>u \<in> set ?vs. enc_range (is_encoding is) u" using r by (simp add: intset_repr_def)
    let ?ws = "if v < 0 then v # ?vs else ?vs @ [v]"
    obtain is' where "intsetUpgradeAndAdd junk is v = Some is'" and r': "intset_repr is' ?ws"
      using upgrade_and_add [OF r v False room] by blast
    moreover have "v \<notin> set ?vs" using False rg by auto
    moreover have "sorted_wrt (<) ?ws"
      using s rg False by (auto simp: sorted_wrt_append enc_range_def)
    moreover have "set ?ws = insert v (set ?vs)" by auto
    ultimately show ?thesis
      using up repr_elems [OF r'] by (auto simp: intsetAdd_def wf_repr)
  next
    case True
    then have up: "\<not> is_encoding is < intsetValueEncoding v"
      using value_encoding(2) [OF v ok] by simp
    obtain p where p: "intsetSearch is v = Some (v \<in> set ?vs, p)"
        "if v \<in> set ?vs then p < length ?vs \<and> ?vs ! p = v else split_at ?vs v p"
      using search_spec [OF r s] by blast
    show ?thesis
    proof (cases "v \<in> set ?vs")
      case True
      then show ?thesis using up p wf by (simp add: intsetAdd_def insert_absorb)
    next
      case nin: False
      then have sp: "split_at ?vs v p" using p(2) by simp
      obtain is' where "Option.bind
          (let is = intsetResize junk is (is_length is + 1) in
             if p < is_length is then intsetMoveTail is p (p + 1) else Some is)
          (\<lambda>is. Option.bind (intset_set is p v) (\<lambda>is. Some (is\<lparr>is_length := is_length is + 1\<rparr>)))
          = Some is'" and r': "intset_repr is' (take p ?vs @ v # drop p ?vs)"
        using add_in_place [OF r sp True room] by blast
      then have "intsetAdd junk is v = Some (is', True)"
        using up p(1) nin by (auto simp: intsetAdd_def Let_def elim!: option_bind_SomeE)
      with nin show ?thesis
        using repr_elems [OF r'] r' sorted_insert_at [OF s sp] set_insert_at [of p ?vs v]
        by (simp add: wf_repr)
    qed
  qed
qed

lemma length_memmove: "memmove xs a b n = Some m \<Longrightarrow> length m = length xs"
  by (auto simp: memmove_def elim!: option_bind_SomeE dest: length_mem_write)

lemma remove_contents:
  assumes r: "intset_repr is vs" and p: "p < length vs"
  shows "\<exists>m. (if p < length vs - 1 then intsetMoveTail is (p + 1) p else Some is)
      = Some (is\<lparr>contents := m\<rparr>)
    \<and> zrealloc junk ((length vs - 1) * is_encoding is) m
      = concat (map (le_bytes (is_encoding is)) (take p vs @ drop (Suc p) vs))"
proof -
  let ?k = "is_encoding is"
  let ?cs = "map (le_bytes ?k) vs"
  have ok: "enc_ok ?k" and len: "is_length is = length vs" and c: "contents is = concat ?cs"
    and lt: "length vs * 8 < 2 ^ 32" using r by (simp_all add: intset_repr_def)
  show ?thesis
  proof (cases "p < length vs - 1")
    case True
    have "\<exists>m. memmove (concat ?cs) (p * ?k) (Suc p * ?k) ((length ?cs - Suc p) * ?k) = Some m
        \<and> take ((length ?cs - 1) * ?k) m = concat (take p ?cs @ drop (Suc p) ?cs)"
      by (rule delete_cell) (simp_all add: p)
    then obtain m where m: "memmove (contents is) (p * ?k) (Suc p * ?k) ((length vs - Suc p) * ?k) = Some m"
        "take ((length vs - 1) * ?k) m = concat (take p ?cs @ drop (Suc p) ?cs)"
      by (auto simp: c)
    moreover have "length m = length vs * ?k" using length_memmove [OF m(1)] repr_length [OF r] by simp
    ultimately show ?thesis
      using True move_tail [OF ok, of "Suc p" p] lt len
      by (intro exI [of _ m]) (simp add: zrealloc_shrink take_map drop_map)
  next
    case False
    then have "p = length vs - 1" using p by simp
    then show ?thesis
      using take_concat_cells [OF cells_le_bytes, of p ?k vs] repr_length [OF r] p False
      by (intro exI [of _ "contents is"]) (simp add: zrealloc_shrink c take_map)
  qed
qed

lemma intset_remove_law:
  assumes wf: "intset_wf is" and v: "INT64_MIN \<le> v" "v \<le> INT64_MAX"
  shows "\<exists>is'. intsetRemove junk is v = Some (is', v \<in> set (intset_elems is)) \<and> intset_wf is'
    \<and> set (intset_elems is') = set (intset_elems is) - {v}"
proof -
  let ?vs = "intset_elems is"
  let ?k = "is_encoding is"
  have r: "intset_repr is ?vs" and s: "sorted_wrt (<) ?vs" using wf by (simp_all add: wf_repr)
  have ok: "enc_ok ?k" and rg: "\<forall>u \<in> set ?vs. enc_range ?k u" and len: "is_length is = length ?vs"
    and lt: "length ?vs * 8 < 2 ^ 32" using r by (simp_all add: intset_repr_def)
  obtain p where p: "intsetSearch is v = Some (v \<in> set ?vs, p)"
      "v \<in> set ?vs \<Longrightarrow> p < length ?vs \<and> ?vs ! p = v"
    using search_spec [OF r s, of v] by (auto split: if_splits)
  show ?thesis
  proof (cases "v \<in> set ?vs")
    case False
    then show ?thesis using p(1) wf by (simp add: intsetRemove_def)
  next
    case True
    then have enc: "intsetValueEncoding v \<le> ?k" using value_encoding(2) [OF v ok] rg by simp
    have lp: "p < length ?vs" and vp: "?vs ! p = v" using p(2) [OF True] by simp_all
    let ?ws = "take p ?vs @ drop (Suc p) ?vs"
    let ?is' = "is\<lparr>contents := concat (map (le_bytes ?k) ?ws), is_length := length ?vs - 1\<rparr>"
    obtain m where m: "(if p < length ?vs - 1 then intsetMoveTail is (p + 1) p else Some is)
          = Some (is\<lparr>contents := m\<rparr>)"
        "zrealloc junk ((length ?vs - 1) * ?k) m = concat (map (le_bytes ?k) ?ws)"
      using remove_contents [OF r lp, of junk] by blast
    have "intsetResize junk (is\<lparr>contents := m\<rparr>) (length ?vs - 1)
        = is\<lparr>contents := concat (map (le_bytes ?k) ?ws)\<rparr>"
      using resize_contents [of "is\<lparr>contents := m\<rparr>" "length ?vs - 1" junk] ok lt m(2) by simp
    then have "intsetRemove junk is v = Some (?is', True)"
      using enc p(1) True len m(1) [simplified] by (simp add: intsetRemove_def)
    moreover have r': "intset_repr ?is' ?ws"
      using r lp by (auto simp: intset_repr_def dest: in_set_takeD in_set_dropD)
    moreover have split: "?vs = take p ?vs @ v # drop (Suc p) ?vs"
      using id_take_nth_drop [OF lp] vp by simp
    have *: "sorted_wrt (<) (take p ?vs @ v # drop (Suc p) ?vs)" using s split by simp
    then have "sorted_wrt (<) ?ws" and "v \<notin> set ?ws" by (auto simp: sorted_wrt_append)
    moreover have "set ?vs = insert v (set ?ws)" using arg_cong [OF split, of set] by simp
    ultimately show ?thesis using True repr_elems [OF r'] by (simp add: wf_repr)
  qed
qed

lemma intset_find_law:
  assumes wf: "intset_wf is" and v: "INT64_MIN \<le> v" "v \<le> INT64_MAX"
  shows "intsetFind is v = Some (v \<in> set (intset_elems is))"
proof -
  have r: "intset_repr is (intset_elems is)" and s: "sorted_wrt (<) (intset_elems is)"
    using wf by (simp_all add: wf_repr)
  have "v \<in> set (intset_elems is) \<Longrightarrow> intsetValueEncoding v \<le> is_encoding is"
    using r value_encoding(2) [OF v] by (simp add: intset_repr_def)
  then show ?thesis using search_spec [OF r s, of v] by (auto simp: intsetFind_def Let_def)
qed

lemma card_elems: "intset_wf is \<Longrightarrow> card (set (intset_elems is)) = is_length is"
  by (simp add: wf_repr intset_repr_def distinct_card strict_sorted_iff)

lemma wf_new: "intset_wf intsetNew" "intset_elems intsetNew = []"
  by (simp_all add: intset_wf_def intsetNew_def enc_ok_def intset_elems_def)

interpretation intset_store: set_store "intsetAdd junk" "intsetRemove junk" "readonly intsetFind"
  "\<lambda>is. set (intset_elems is)" intset_wf "\<lambda>v. INT64_MIN \<le> v \<and> v \<le> INT64_MAX" "2 ^ 29 - 1"
  for junk
  by unfold_locales (use intset_add_law intset_remove_law intset_find_law card_elems in \<open>auto simp: readonly_def\<close>)

section \<open>Properties\<close>

text \<open>
  C3. An intset is a set of integers: every sequence of insertions, removals and
  membership tests, of any \<open>int64_t\<close> values, starting from \<open>intsetNew\<close> and whatever the
  indeterminate bytes of reallocated memory are, runs without an out-of-bounds access,
  answers every call as a mathematical set does, and ends in a well-formed intset
  (sorted without duplicates, cells of the declared width) holding exactly that set.
\<close>

theorem intset_refines_set:
  assumes "\<forall>c \<in> set calls. INT64_MIN \<le> call_arg c \<and> call_arg c \<le> INT64_MAX"
    and "length calls < 2 ^ 29"
  shows "\<exists>is. store_run (intsetAdd junk) (intsetRemove junk) (readonly intsetFind) intsetNew calls
      = Some (is, snd (set_run {} calls))
    \<and> intset_wf is \<and> set (intset_elems is) = fst (set_run {} calls)"
  using intset_store.run_refines [OF wf_new(1), of calls junk] assms by (simp add: wf_new)

theorem intset_refines_set_witness:
  "\<exists>is. store_run (intsetAdd (\<lambda>_. 255)) (intsetRemove (\<lambda>_. 255)) (readonly intsetFind) intsetNew
      [Add 5, Add 70000, Add (- 3), Find 70000, Remove 5, Add (2 ^ 40)]
    = Some (is, [True, True, True, True, True, True])
    \<and> intset_wf is \<and> set (intset_elems is) = {70000, - 3, 2 ^ 40}"
  using intset_refines_set
    [of "[Add 5, Add 70000, Add (- 3), Find 70000, Remove 5, Add (2 ^ 40)]" "\<lambda>_. 255"]
  by (simp add: insert_commute insert_Diff_if)

text \<open>
  C8. \<open>intsetGet\<close> enumerates the set in increasing order: position \<open>i\<close> below
  \<open>intsetLen\<close> yields the \<open>i\<close>-th smallest member, any other position yields 0, and
  \<open>intsetBlobLen\<close> is the exact size of the structure in memory.
\<close>

theorem intset_enumeration:
  assumes "intset_wf is"
  shows "intsetGet is i = Some (if i < intsetLen is
        then Some (sorted_list_of_set (set (intset_elems is)) ! i) else None)
    \<and> intsetLen is = card (set (intset_elems is))
    \<and> intsetBlobLen is = 8 + length (contents is)"
proof -
  have r: "intset_repr is (intset_elems is)" and s: "sorted_wrt (<) (intset_elems is)"
    using assms by (simp_all add: wf_repr)
  have len: "intsetLen is = length (intset_elems is)"
    using r by (simp add: intsetLen_def intset_repr_def)
  have "sorted_list_of_set (set (intset_elems is)) = intset_elems is"
    using s by (simp add: sorted_list_of_set.idem_if_sorted_distinct strict_sorted_iff)
  then have "intsetGet is i = Some (if i < intsetLen is
      then Some (sorted_list_of_set (set (intset_elems is)) ! i) else None)"
    using repr_get [OF r, of i] len by (simp add: intsetGet_def intsetLen_def)
  moreover have "intsetLen is = card (set (intset_elems is))"
    using card_elems [OF assms] by (simp add: intsetLen_def)
  moreover have "intsetBlobLen is = 8 + length (contents is)"
    using assms enc_size [of "is_encoding is" "is_length is"] by (simp add: intsetBlobLen_def intset_wf_def)
  ultimately show ?thesis by simp
qed

theorem intset_enumeration_witness:
  "let s = \<lparr>is_encoding = 2, is_length = 2, contents = [255, 255, 7, 0]\<rparr> in
    intsetGet s 1 = Some (if 1 < intsetLen s
      then Some (sorted_list_of_set (set (intset_elems s)) ! 1) else None)
    \<and> intsetLen s = card (set (intset_elems s)) \<and> intsetBlobLen s = 8 + length (contents s)"
  unfolding Let_def
proof (rule intset_enumeration)
  let ?s = "\<lparr>is_encoding = 2, is_length = 2, contents = [255, 255, 7, 0]\<rparr>"
  have "chunks 2 2 [255, 255, 7, 0 :: byte] = [[255, 255], [7, 0]]" by (simp add: numeral_2_eq_2)
  then have "intset_elems ?s = [- 1, 7]" by (simp add: intset_elems_def le_sint_def)
  then show "intset_wf ?s" by (simp add: intset_wf_def enc_ok_def)
qed

end
