(* ===== verification/DictHash.thy ===== *)
theory DictHash
  imports Bytes
begin

text \<open>
  The hash functions of \<open>dict.c\<close>. The seed is an argument; keys are byte lists, and
  their length is below \<open>2 ^ 31\<close>, as the parameter \<open>int len\<close> demands.
\<close>

unbundle bit_operations_syntax

section \<open>Operations\<close>

definition dictIntHashFunction :: "u32 \<Rightarrow> u32" where
  "dictIntHashFunction key = (
     let key = key + NOT (push_bit 15 key);
         key = key XOR drop_bit 10 key;
         key = key + push_bit 3 key;
         key = key XOR drop_bit 6 key;
         key = key + NOT (push_bit 11 key);
         key = key XOR drop_bit 16 key
     in key)"

text \<open>MurmurHash2: the loop over four bytes at a time, then the \<open>switch\<close> on the rest.\<close>

abbreviation (input) murmur_m :: u32 where "murmur_m \<equiv> 0x5bd1e995"

fun dictGenHash_loop :: "u32 \<Rightarrow> byte list \<Rightarrow> u32 \<times> byte list" where
  "dictGenHash_loop h (b0 # b1 # b2 # b3 # data) = (
     let k = of_int (le_uint [b0, b1, b2, b3]);
         k = k * murmur_m;
         k = k XOR drop_bit 24 k;
         k = k * murmur_m;
         h = h * murmur_m;
         h = h XOR k
     in dictGenHash_loop h data)"
| "dictGenHash_loop h data = (h, data)"

fun dictGenHash_tail :: "u32 \<Rightarrow> byte list \<Rightarrow> u32" where
  "dictGenHash_tail h [d0, d1, d2] =
     (let h = h XOR push_bit 16 (ucast d2); h = h XOR push_bit 8 (ucast d1); h = h XOR ucast d0 in h * murmur_m)"
| "dictGenHash_tail h [d0, d1] = (let h = h XOR push_bit 8 (ucast d1); h = h XOR ucast d0 in h * murmur_m)"
| "dictGenHash_tail h [d0] = (let h = h XOR ucast d0 in h * murmur_m)"
| "dictGenHash_tail h data = h"

definition dictGenHashFunction :: "u32 \<Rightarrow> byte list \<Rightarrow> u32" where
  "dictGenHashFunction seed key = (
     let h = seed XOR of_nat (length key);
         (h, data) = dictGenHash_loop h key;
         h = dictGenHash_tail h data;
         h = h XOR drop_bit 13 h;
         h = h * murmur_m;
         h = h XOR drop_bit 15 h
     in h)"

text \<open>\<open>tolower\<close> in the C locale.\<close>

definition c_tolower :: "byte \<Rightarrow> byte" where
  "c_tolower c = (if 65 \<le> c \<and> c \<le> 90 then c + 32 else c)"

definition dictGenCaseHashFunction :: "u32 \<Rightarrow> byte list \<Rightarrow> u32" where
  "dictGenCaseHashFunction seed buf =
     foldl (\<lambda>hash c. (push_bit 5 hash + hash) + ucast (c_tolower c)) seed buf"

section \<open>Mixing steps are injective\<close>

lemma inj_xorshift:
  assumes "0 < s"
  shows "inj (\<lambda>x :: u32. x XOR drop_bit s x)"
proof
  fix x y :: u32
  assume e: "x XOR drop_bit s x = y XOR drop_bit s y"
  have "bit x i = bit y i" for i
  proof (induction "32 - i" arbitrary: i rule: less_induct)
    case less
    show ?case
    proof (cases "i < 32")
      case True
      then have "bit x (i + s) = bit y (i + s)" using assms by (intro less) simp
      then show ?thesis using arg_cong [OF e, of "\<lambda>z. bit z i"] by (auto simp: bit_simps add.commute)
    qed (auto dest: bit_imp_le_length)
  qed
  then show "x = y" by (intro bit_eqI) simp
qed

lemma inj_odd_mult:
  assumes "c * d = (1 :: u32)"
  shows "inj (\<lambda>x. x * c + e)"
proof
  fix x y :: u32
  assume "x * c + e = y * c + e"
  then have "x * (c * d) = y * (c * d)" by (simp flip: mult.assoc)
  then show "x = y" using assms by simp
qed

lemma inj_mix_steps:
  "inj (\<lambda>x :: u32. x + NOT (push_bit 15 x))" "inj (\<lambda>x :: u32. x + push_bit 3 x)" "inj (\<lambda>x :: u32. x + NOT (push_bit 11 x))"
proof -
  have "(\<lambda>x :: u32. x + NOT (push_bit 15 x)) = (\<lambda>x. x * (1 - 2 ^ 15) + (- 1))"
    by (simp add: fun_eq_iff not_eq_complement push_bit_eq_mult algebra_simps)
  moreover have "inj (\<lambda>x :: u32. x * (1 - 2 ^ 15) + (- 1))" by (rule inj_odd_mult [of _ "0x40008001"]) simp
  ultimately show "inj (\<lambda>x :: u32. x + NOT (push_bit 15 x))" by simp
  have "(\<lambda>x :: u32. x + NOT (push_bit 11 x)) = (\<lambda>x. x * (1 - 2 ^ 11) + (- 1))"
    by (simp add: fun_eq_iff not_eq_complement push_bit_eq_mult algebra_simps)
  moreover have "inj (\<lambda>x :: u32. x * (1 - 2 ^ 11) + (- 1))" by (rule inj_odd_mult [of _ "0x400801"]) simp
  ultimately show "inj (\<lambda>x :: u32. x + NOT (push_bit 11 x))" by simp
  have "(\<lambda>x :: u32. x + push_bit 3 x) = (\<lambda>x. x * 9 + 0)"
    by (simp add: fun_eq_iff push_bit_eq_mult algebra_simps)
  moreover have "inj (\<lambda>x :: u32. x * 9 + 0)" by (rule inj_odd_mult [of _ "0x38e38e39"]) simp
  ultimately show "inj (\<lambda>x :: u32. x + push_bit 3 x)" by simp
qed

lemma inj_dictIntHashFunction: "inj dictIntHashFunction"
proof -
  have eq: "dictIntHashFunction = (\<lambda>x. x XOR drop_bit 16 x) \<circ> (\<lambda>x. x + NOT (push_bit 11 x)) \<circ> (\<lambda>x. x XOR drop_bit 6 x)
      \<circ> (\<lambda>x. x + push_bit 3 x) \<circ> (\<lambda>x. x XOR drop_bit 10 x) \<circ> (\<lambda>x. x + NOT (push_bit 15 x))"
    by (simp add: fun_eq_iff dictIntHashFunction_def Let_def)
  show ?thesis unfolding eq by (intro inj_compose inj_xorshift inj_mix_steps; simp)
qed

section \<open>Properties\<close>

text \<open>
  C16. The hash functions suit the tables they are used with: \<open>dictIntHashFunction\<close>
  has no collisions at all, and \<open>dictGenCaseHashFunction\<close> gives names that differ only
  in case the same hash, as tables compared with \<open>strcasecmp\<close> (commands, options) need.
\<close>

theorem dict_hash_functions:
  "inj dictIntHashFunction
   \<and> (map c_tolower a = map c_tolower b \<longrightarrow> dictGenCaseHashFunction seed a = dictGenCaseHashFunction seed b)"
proof -
  have "foldl (\<lambda>hash c. (push_bit 5 hash + hash) + ucast (c_tolower c)) h xs
      = foldl (\<lambda>hash c. (push_bit 5 hash + hash) + ucast c) (h :: u32) (map c_tolower xs)" for h xs
    by (induction xs arbitrary: h) simp_all
  then show ?thesis using inj_dictIntHashFunction by (simp add: dictGenCaseHashFunction_def)
qed

theorem dict_hash_functions_witness:
  "inj dictIntHashFunction
   \<and> dictGenCaseHashFunction 5381 (str ''GET'') = dictGenCaseHashFunction 5381 (str ''get'')"
  using dict_hash_functions [of "str ''GET''" "str ''get''" 5381] by (simp add: c_tolower_def)

end
