(* ===== verification/Dict.thy ===== *)
theory Dict
  imports Prelude
begin

text \<open>
  \<open>dict.c\<close>: hash tables with chaining that grow and shrink by incremental rehashing.
  A dictionary has two tables; while \<open>rehashidx\<close> is not \<open>-1\<close> the buckets of \<open>ht[0]\<close>
  below \<open>rehashidx\<close> have been moved to \<open>ht[1]\<close>, and most calls move one more bucket.

  A chain of entries is the list of its key/value pairs. The callbacks of
  \<open>dictType\<close> are parameters: \<open>hash\<close> is \<open>hashFunction\<close>, and keys are identified when
  \<open>keyCompare\<close> identifies them, so that comparing keys is \<open>=\<close>; the destructors only
  release memory. The globals \<open>dict_can_resize\<close> and \<open>dict_force_resize_ratio\<close> are the
  argument \<open>can_resize\<close> and the constant 5. A read outside a table and a failed
  \<open>assert\<close> are \<open>None\<close>.
\<close>

unbundle bit_operations_syntax

record ('k, 'v) dictht =
  ht_table :: "('k \<times> 'v) list list"
  ht_size :: nat
  ht_sizemask :: u64
  ht_used :: nat

record ('k, 'v) dict =
  ht0 :: "('k, 'v) dictht"
  ht1 :: "('k, 'v) dictht"
  rehashidx :: int
  iterators :: nat

abbreviation (input) DICT_HT_INITIAL_SIZE :: nat where "DICT_HT_INITIAL_SIZE \<equiv> 4"
abbreviation (input) dict_force_resize_ratio :: nat where "dict_force_resize_ratio \<equiv> 5"
abbreviation (input) LONG_MAX :: nat where "LONG_MAX \<equiv> 2 ^ 63 - 1"

section \<open>Operations\<close>

definition dictReset :: "('k, 'v) dictht" where
  "dictReset = \<lparr>ht_table = [], ht_size = 0, ht_sizemask = 0, ht_used = 0\<rparr>"

definition dictCreate :: "('k, 'v) dict" where
  "dictCreate = \<lparr>ht0 = dictReset, ht1 = dictReset, rehashidx = - 1, iterators = 0\<rparr>"

definition dictIsRehashing :: "('k, 'v) dict \<Rightarrow> bool" where
  "dictIsRehashing d \<longleftrightarrow> rehashidx d \<noteq> - 1"

definition dictSize :: "('k, 'v) dict \<Rightarrow> nat" where
  "dictSize d = ht_used (ht0 d) + ht_used (ht1 d)"

text \<open>\<open>idx = h & d->ht[table].sizemask\<close> and \<open>d->ht[table].table[idx]\<close>\<close>

definition dict_idx :: "('k \<Rightarrow> u32) \<Rightarrow> ('k, 'v) dictht \<Rightarrow> 'k \<Rightarrow> nat" where
  "dict_idx hash ht key = unat (ucast (hash key) AND ht_sizemask ht)"

definition dict_bucket :: "('k, 'v) dictht \<Rightarrow> nat \<Rightarrow> ('k \<times> 'v) list option" where
  "dict_bucket ht i = get_at (ht_table ht) (int i)"

text \<open>The loop of \<open>_dictNextPower\<close>; it starts at 4, so the test for 0 never decides.\<close>

function dictNextPower_loop :: "nat \<Rightarrow> nat \<Rightarrow> nat" where
  "dictNextPower_loop i sz = (if i \<ge> sz \<or> i = 0 then i else dictNextPower_loop (i * 2) sz)"
  by pat_completeness auto
termination
  by (relation "measure (\<lambda>(i, sz). sz - i)") auto

declare dictNextPower_loop.simps [simp del]

definition dictNextPower :: "nat \<Rightarrow> nat" where
  "dictNextPower sz =
     (if sz \<ge> LONG_MAX then LONG_MAX else dictNextPower_loop DICT_HT_INITIAL_SIZE sz)"

text \<open>The second component is \<open>DICT_OK\<close>.\<close>

definition dictExpand :: "('k, 'v) dict \<Rightarrow> nat \<Rightarrow> ('k, 'v) dict \<times> bool" where
  "dictExpand d sz = (
     let realsize = dictNextPower sz in
     if dictIsRehashing d \<or> ht_used (ht0 d) > sz then (d, False)
     else if realsize = ht_size (ht0 d) then (d, False)
     else
       let n = \<lparr>ht_table = replicate realsize [], ht_size = realsize,
                ht_sizemask = of_nat realsize - 1, ht_used = 0\<rparr>
       in if ht_table (ht0 d) = [] then (d\<lparr>ht0 := n\<rparr>, True)
          else (d\<lparr>ht1 := n, rehashidx := 0\<rparr>, True))"

definition dictResize :: "bool \<Rightarrow> ('k, 'v) dict \<Rightarrow> ('k, 'v) dict \<times> bool" where
  "dictResize can_resize d = (
     if \<not> can_resize \<or> dictIsRehashing d then (d, False)
     else
       let minimal = ht_used (ht0 d);
           minimal = (if minimal < DICT_HT_INITIAL_SIZE then DICT_HT_INITIAL_SIZE else minimal)
       in dictExpand d minimal)"

text \<open>
  \<open>while(d->ht[0].table[d->rehashidx] == NULL)\<close>: the new index and whether the
  budget of empty buckets ran out.
\<close>

function dictRehash_skip :: "('k \<times> 'v) list list \<Rightarrow> int \<Rightarrow> int \<Rightarrow> (int \<times> int \<times> bool) option" where
  "dictRehash_skip t idx empty_visits =
     (case get_at t idx of
        None \<Rightarrow> None
      | Some [] \<Rightarrow>
          if empty_visits - 1 = 0 then Some (idx + 1, 0, True)
          else dictRehash_skip t (idx + 1) (empty_visits - 1)
      | Some (_ # _) \<Rightarrow> Some (idx, empty_visits, False))"
  by pat_completeness auto
termination
  by (relation "measure (\<lambda>(t, idx, ev). nat (int (length t) - idx))")
     (auto simp: get_at_def split: if_splits)

declare dictRehash_skip.simps [simp del]

text \<open>Move all the keys in this bucket from the old to the new hash table.\<close>

fun dictRehash_move :: "('k \<Rightarrow> u32) \<Rightarrow> ('k, 'v) dict \<Rightarrow> ('k \<times> 'v) list \<Rightarrow> ('k, 'v) dict option" where
  "dictRehash_move hash d [] = Some d"
| "dictRehash_move hash d (de # nextde) = do {
     let h = dict_idx hash (ht1 d) (fst de);
     b \<leftarrow> dict_bucket (ht1 d) h;
     dictRehash_move hash
       (d\<lparr>ht1 := (ht1 d)\<lparr>ht_table := (ht_table (ht1 d))[h := de # b], ht_used := ht_used (ht1 d) + 1\<rparr>,
          ht0 := (ht0 d)\<lparr>ht_used := ht_used (ht0 d) - 1\<rparr>\<rparr>) nextde
   }"

text \<open>The loop over \<open>n\<close>; the second component tells that the function returned 1 early.\<close>

fun dictRehash_loop :: "('k \<Rightarrow> u32) \<Rightarrow> nat \<Rightarrow> int \<Rightarrow> ('k, 'v) dict \<Rightarrow> (('k, 'v) dict \<times> bool) option" where
  "dictRehash_loop hash 0 empty_visits d = Some (d, False)"
| "dictRehash_loop hash (Suc n) empty_visits d =
     (if ht_used (ht0 d) = 0 then Some (d, False)
      else if \<not> (int (ht_size (ht0 d)) > rehashidx d) then None
      else do {
        (idx, empty_visits, stop) \<leftarrow> dictRehash_skip (ht_table (ht0 d)) (rehashidx d) empty_visits;
        let d = d\<lparr>rehashidx := idx\<rparr>;
        if stop then Some (d, True)
        else do {
          de \<leftarrow> get_at (ht_table (ht0 d)) idx;
          d \<leftarrow> dictRehash_move hash d de;
          t \<leftarrow> set_at (ht_table (ht0 d)) idx [];
          dictRehash_loop hash n empty_visits
            (d\<lparr>ht0 := (ht0 d)\<lparr>ht_table := t\<rparr>, rehashidx := idx + 1\<rparr>)
        }
      })"

definition dictRehash :: "('k \<Rightarrow> u32) \<Rightarrow> ('k, 'v) dict \<Rightarrow> nat \<Rightarrow> (('k, 'v) dict \<times> bool) option" where
  "dictRehash hash d n =
     (if \<not> dictIsRehashing d then Some (d, False)
      else do {
        (d, early) \<leftarrow> dictRehash_loop hash n (int n * 10) d;
        if early then Some (d, True)
        else if ht_used (ht0 d) = 0
        then Some (d\<lparr>ht0 := ht1 d, ht1 := dictReset, rehashidx := - 1\<rparr>, False)
        else Some (d, True)
      })"

definition dictRehashStep :: "('k \<Rightarrow> u32) \<Rightarrow> ('k, 'v) dict \<Rightarrow> ('k, 'v) dict option" where
  "dictRehashStep hash d = (if iterators d = 0 then map_option fst (dictRehash hash d 1) else Some d)"

definition dictExpandIfNeeded :: "bool \<Rightarrow> ('k, 'v) dict \<Rightarrow> ('k, 'v) dict \<times> bool" where
  "dictExpandIfNeeded can_resize d =
     (if dictIsRehashing d then (d, True)
      else if ht_size (ht0 d) = 0 then dictExpand d DICT_HT_INITIAL_SIZE
      else if ht_used (ht0 d) \<ge> ht_size (ht0 d)
        \<and> (can_resize \<or> ht_used (ht0 d) div ht_size (ht0 d) > dict_force_resize_ratio)
      then dictExpand d (ht_used (ht0 d) * 2)
      else (d, True))"

text \<open>Position of a key in a chain, as the \<open>while(he)\<close> loops find it.\<close>

fun chain_find :: "'k \<Rightarrow> ('k \<times> 'v) list \<Rightarrow> nat option" where
  "chain_find key [] = None"
| "chain_find key (he # next) = (if key = fst he then Some 0 else map_option Suc (chain_find key next))"

text \<open>\<open>_dictKeyIndex\<close>: the index of a free slot, or \<open>None\<close> for \<open>-1\<close>.\<close>

definition dictKeyIndex ::
  "('k \<Rightarrow> u32) \<Rightarrow> bool \<Rightarrow> ('k, 'v) dict \<Rightarrow> 'k \<Rightarrow> (('k, 'v) dict \<times> nat option) option" where
  "dictKeyIndex hash can_resize d key = (
     let (d, ok) = dictExpandIfNeeded can_resize d in
     if \<not> ok then Some (d, None)
     else do {
       let idx = dict_idx hash (ht0 d) key;
       he \<leftarrow> dict_bucket (ht0 d) idx;
       if chain_find key he \<noteq> None then Some (d, None)
       else if \<not> dictIsRehashing d then Some (d, Some idx)
       else do {
         let idx = dict_idx hash (ht1 d) key;
         he \<leftarrow> dict_bucket (ht1 d) idx;
         if chain_find key he \<noteq> None then Some (d, None) else Some (d, Some idx)
       }
     })"

text \<open>
  \<open>dictAddRaw\<close> returns the new entry, whose value field its caller sets at once
  (\<open>dictAdd\<close> through \<open>dictSetVal\<close>); the model passes that value along. The second
  component is whether an entry was added.
\<close>

definition dictAddRaw ::
  "('k \<Rightarrow> u32) \<Rightarrow> bool \<Rightarrow> ('k, 'v) dict \<Rightarrow> 'k \<Rightarrow> 'v \<Rightarrow> (('k, 'v) dict \<times> bool) option" where
  "dictAddRaw hash can_resize d key val = do {
     d \<leftarrow> (if dictIsRehashing d then dictRehashStep hash d else Some d);
     (d, index) \<leftarrow> dictKeyIndex hash can_resize d key;
     case index of
       None \<Rightarrow> Some (d, False)
     | Some i \<Rightarrow>
         let push = (\<lambda>ht. do {
               b \<leftarrow> dict_bucket ht i;
               Some (ht\<lparr>ht_table := (ht_table ht)[i := (key, val) # b], ht_used := ht_used ht + 1\<rparr>)
             })
         in if dictIsRehashing d
            then map_option (\<lambda>ht. (d\<lparr>ht1 := ht\<rparr>, True)) (push (ht1 d))
            else map_option (\<lambda>ht. (d\<lparr>ht0 := ht\<rparr>, True)) (push (ht0 d))
   }"

definition dictAdd ::
  "('k \<Rightarrow> u32) \<Rightarrow> bool \<Rightarrow> ('k, 'v) dict \<Rightarrow> 'k \<Rightarrow> 'v \<Rightarrow> (('k, 'v) dict \<times> bool) option" where
  "dictAdd hash can_resize d key val = dictAddRaw hash can_resize d key val"

text \<open>A pointer to an entry: the table (\<open>True\<close> for \<open>ht[1]\<close>), the bucket, the place in the chain.\<close>

type_synonym dictEntry_ref = "bool \<times> nat \<times> nat"

definition dictFind ::
  "('k \<Rightarrow> u32) \<Rightarrow> ('k, 'v) dict \<Rightarrow> 'k \<Rightarrow> (('k, 'v) dict \<times> dictEntry_ref option) option" where
  "dictFind hash d key =
     (if ht_used (ht0 d) + ht_used (ht1 d) = 0 then Some (d, None)
      else do {
        d \<leftarrow> (if dictIsRehashing d then dictRehashStep hash d else Some d);
        let idx = dict_idx hash (ht0 d) key;
        he \<leftarrow> dict_bucket (ht0 d) idx;
        case chain_find key he of
          Some p \<Rightarrow> Some (d, Some (False, idx, p))
        | None \<Rightarrow>
            if \<not> dictIsRehashing d then Some (d, None)
            else do {
              let idx = dict_idx hash (ht1 d) key;
              he \<leftarrow> dict_bucket (ht1 d) idx;
              Some (d, map_option (\<lambda>p. (True, idx, p)) (chain_find key he))
            }
      })"

definition dictGetVal :: "('k, 'v) dict \<Rightarrow> dictEntry_ref \<Rightarrow> 'v option" where
  "dictGetVal d r = (case r of (second, i, p) \<Rightarrow> do {
     b \<leftarrow> dict_bucket (if second then ht1 d else ht0 d) i;
     e \<leftarrow> get_at b (int p);
     Some (snd e)
   })"

definition dictSetVal :: "('k, 'v) dict \<Rightarrow> dictEntry_ref \<Rightarrow> 'v \<Rightarrow> ('k, 'v) dict option" where
  "dictSetVal d r val = (case r of (second, i, p) \<Rightarrow>
     let ht = (if second then ht1 d else ht0 d) in do {
       b \<leftarrow> dict_bucket ht i;
       e \<leftarrow> get_at b (int p);
       b \<leftarrow> set_at b (int p) (fst e, val);
       let ht = ht\<lparr>ht_table := (ht_table ht)[i := b]\<rparr>;
       Some (if second then d\<lparr>ht1 := ht\<rparr> else d\<lparr>ht0 := ht\<rparr>)
     })"

definition dictFetchValue ::
  "('k \<Rightarrow> u32) \<Rightarrow> ('k, 'v) dict \<Rightarrow> 'k \<Rightarrow> (('k, 'v) dict \<times> 'v option) option" where
  "dictFetchValue hash d key = do {
     (d, he) \<leftarrow> dictFind hash d key;
     case he of None \<Rightarrow> Some (d, None) | Some r \<Rightarrow> map_option (\<lambda>v. (d, Some v)) (dictGetVal d r)
   }"

text \<open>The second component is the return value 1: the key was added from scratch.\<close>

definition dictReplace ::
  "('k \<Rightarrow> u32) \<Rightarrow> bool \<Rightarrow> ('k, 'v) dict \<Rightarrow> 'k \<Rightarrow> 'v \<Rightarrow> (('k, 'v) dict \<times> bool) option" where
  "dictReplace hash can_resize d key val = do {
     (d, ok) \<leftarrow> dictAdd hash can_resize d key val;
     if ok then Some (d, True)
     else do {
       (d, entry) \<leftarrow> dictFind hash d key;
       r \<leftarrow> entry;
       d \<leftarrow> dictSetVal d r val;
       Some (d, False)
     }
   }"

text \<open>
  Unlinking the first matching entry of a chain; \<open>nofree\<close> only decides whether the
  key and the value are released, so \<open>dictDelete\<close> and \<open>dictDeleteNoFree\<close> coincide here.
\<close>

definition chain_unlink :: "'k \<Rightarrow> ('k \<times> 'v) list \<Rightarrow> ('k \<times> 'v) list option" where
  "chain_unlink key he = map_option (\<lambda>p. take p he @ drop (Suc p) he) (chain_find key he)"

definition dictGenericDelete ::
  "('k \<Rightarrow> u32) \<Rightarrow> ('k, 'v) dict \<Rightarrow> 'k \<Rightarrow> (('k, 'v) dict \<times> bool) option" where
  "dictGenericDelete hash d key =
     (if ht_size (ht0 d) = 0 then Some (d, False)
      else do {
        d \<leftarrow> (if dictIsRehashing d then dictRehashStep hash d else Some d);
        let idx = dict_idx hash (ht0 d) key;
        he \<leftarrow> dict_bucket (ht0 d) idx;
        case chain_unlink key he of
          Some b \<Rightarrow>
            Some (d\<lparr>ht0 := (ht0 d)\<lparr>ht_table := (ht_table (ht0 d))[idx := b],
                                   ht_used := ht_used (ht0 d) - 1\<rparr>\<rparr>, True)
        | None \<Rightarrow>
            if \<not> dictIsRehashing d then Some (d, False)
            else do {
              let idx = dict_idx hash (ht1 d) key;
              he \<leftarrow> dict_bucket (ht1 d) idx;
              case chain_unlink key he of
                Some b \<Rightarrow>
                  Some (d\<lparr>ht1 := (ht1 d)\<lparr>ht_table := (ht_table (ht1 d))[idx := b],
                                         ht_used := ht_used (ht1 d) - 1\<rparr>\<rparr>, True)
              | None \<Rightarrow> Some (d, False)
            }
      })"

definition dictDelete :: "('k \<Rightarrow> u32) \<Rightarrow> ('k, 'v) dict \<Rightarrow> 'k \<Rightarrow> (('k, 'v) dict \<times> bool) option" where
  "dictDelete hash d key = dictGenericDelete hash d key"

definition dictReplaceRaw ::
  "('k \<Rightarrow> u32) \<Rightarrow> bool \<Rightarrow> ('k, 'v) dict \<Rightarrow> 'k \<Rightarrow> 'v \<Rightarrow> (('k, 'v) dict \<times> dictEntry_ref option) option" where
  "dictReplaceRaw hash can_resize d key val = do {
     (d, entry) \<leftarrow> dictFind hash d key;
     if entry \<noteq> None then Some (d, entry)
     else map_option (\<lambda>(d, _). (d, None)) (dictAddRaw hash can_resize d key val)
   }"

text \<open>
  \<open>_dictClear\<close>: the entries it releases, in order (the callback only lets the caller
  serve clients meanwhile), and the table it leaves.
\<close>

function dictClear_loop :: "('k, 'v) dictht \<Rightarrow> nat \<Rightarrow> nat \<Rightarrow> ('k \<times> 'v) list option" where
  "dictClear_loop ht i used =
     (if i < ht_size ht \<and> used > 0 then do {
        he \<leftarrow> get_at (ht_table ht) (int i);
        rest \<leftarrow> dictClear_loop ht (i + 1) (used - length he);
        Some (he @ rest)
      } else Some [])"
  by pat_completeness auto
termination
  by (relation "measure (\<lambda>(ht, i, used). ht_size ht - i)") auto

declare dictClear_loop.simps [simp del]

definition dictClear :: "('k, 'v) dictht \<Rightarrow> (('k, 'v) dictht \<times> ('k \<times> 'v) list) option" where
  "dictClear ht = map_option (Pair dictReset) (dictClear_loop ht 0 (ht_used ht))"

definition dictEmpty :: "('k, 'v) dict \<Rightarrow> (('k, 'v) dict \<times> ('k \<times> 'v) list) option" where
  "dictEmpty d = do {
     (h0, freed0) \<leftarrow> dictClear (ht0 d);
     (h1, freed1) \<leftarrow> dictClear (ht1 d);
     Some (d\<lparr>ht0 := h0, ht1 := h1, rehashidx := - 1, iterators := 0\<rparr>, freed0 @ freed1)
   }"

text \<open>
  \<open>dictRehashMilliseconds\<close>: \<open>turns\<close> is the number of rounds the clock allows; the
  result is the number of rehashes announced to the caller.
\<close>

fun dictRehashMilliseconds :: "('k \<Rightarrow> u32) \<Rightarrow> nat \<Rightarrow> ('k, 'v) dict \<Rightarrow> (('k, 'v) dict \<times> nat) option" where
  "dictRehashMilliseconds hash turns d = do {
     (d, more) \<leftarrow> dictRehash hash d 100;
     if \<not> more then Some (d, 0)
     else case turns of
       0 \<Rightarrow> Some (d, 100)
     | Suc turns \<Rightarrow> map_option (apsnd (\<lambda>n. n + 100)) (dictRehashMilliseconds hash turns d)
   }"

declare dictRehashMilliseconds.simps [simp del]

end
