(* ===== verification/DictMap.thy ===== *)
theory DictMap
  imports Dict Interfaces
begin

text \<open>
  The tables of \<open>dict.c\<close> implement a map: the invariant of a dictionary, the map it
  stands for, the behaviour of every operation of theory Dict on every branch, and the
  interpretation of the table interface. \<open>dict_keeps\<close> is the contract of the steps that
  only reorganise the tables.
\<close>

unbundle bit_operations_syntax

section \<open>Well-formed tables\<close>

text \<open>
  A table is either unallocated, or has a power of two buckets, every key in the
  bucket its hash selects, and \<open>used\<close> entries.
\<close>

definition ht_placed :: "('k \<Rightarrow> u32) \<Rightarrow> ('k, 'v) dictht \<Rightarrow> nat \<Rightarrow> ('k \<times> 'v) list \<Rightarrow> bool" where
  "ht_placed hash ht i b \<longleftrightarrow> distinct (map fst b) \<and> (\<forall>k \<in> fst ` set b. dict_idx hash ht k = i)"

definition ht_ok :: "('k \<Rightarrow> u32) \<Rightarrow> ('k, 'v) dictht \<Rightarrow> bool" where
  "ht_ok hash ht \<longleftrightarrow> ht = dictReset \<or>
     (\<exists>n < 63. ht_size ht = 2 ^ n \<and> ht_sizemask ht = mask n \<and> length (ht_table ht) = 2 ^ n
        \<and> ht_used ht = sum_list (map length (ht_table ht))
        \<and> (\<forall>i < length (ht_table ht). ht_placed hash ht i (ht_table ht ! i)))"

definition ht_lookup :: "('k \<Rightarrow> u32) \<Rightarrow> ('k, 'v) dictht \<Rightarrow> 'k \<Rightarrow> 'v option" where
  "ht_lookup hash ht k =
     (if ht_table ht = [] then None else map_of (ht_table ht ! dict_idx hash ht k) k)"

lemma dictReset_simps [simp]:
  "ht_table dictReset = []" "ht_size dictReset = 0" "ht_used dictReset = 0"
  by (auto simp: dictReset_def)

lemma ht_ok_reset [simp]: "ht_ok hash dictReset"
  by (simp add: ht_ok_def)

lemma ht_lookup_reset [simp]: "ht_lookup hash dictReset = Map.empty"
  by (auto simp: ht_lookup_def)

lemma dict_idx_mask:
  assumes "ht_sizemask ht = mask n"
  shows "dict_idx hash ht k = unat (take_bit n (ucast (hash k) :: u64))"
  by (simp add: dict_idx_def assms take_bit_eq_mask)

lemma dict_idx_less: "ht_sizemask ht = mask n \<Longrightarrow> n < 63 \<Longrightarrow> dict_idx hash ht k < 2 ^ n"
  by (simp add: dict_idx_mask unsigned_take_bit_eq)

lemma dict_idx_cong: "ht_sizemask ht = ht_sizemask ht' \<Longrightarrow> dict_idx hash ht = dict_idx hash ht'"
  by (rule ext) (simp add: dict_idx_def)

lemma dict_idx_update [simp]:
  "dict_idx hash (ht\<lparr>ht_table := t\<rparr>) = dict_idx hash ht"
  "dict_idx hash (ht\<lparr>ht_used := u\<rparr>) = dict_idx hash ht"
  by (auto intro: dict_idx_cong)

lemma ht_placed_update [simp]:
  "ht_placed hash (ht\<lparr>ht_table := t\<rparr>) = ht_placed hash ht"
  "ht_placed hash (ht\<lparr>ht_used := u\<rparr>) = ht_placed hash ht"
  by (auto simp: ht_placed_def fun_eq_iff)

lemma ht_ok_cases:
  assumes "ht_ok hash ht" and "ht_table ht \<noteq> []"
  obtains n where "n < 63" "ht_size ht = 2 ^ n" "ht_sizemask ht = mask n" "length (ht_table ht) = 2 ^ n"
    "ht_used ht = sum_list (map length (ht_table ht))"
    "\<And>i. i < length (ht_table ht) \<Longrightarrow> ht_placed hash ht i (ht_table ht ! i)"
  using assms by (auto simp: ht_ok_def)

lemma ht_ok_idx:
  assumes "ht_ok hash ht" and "ht_table ht \<noteq> []"
  shows "dict_idx hash ht k < length (ht_table ht)"
  using assms by (auto elim!: ht_ok_cases simp: dict_idx_less)

lemma ht_ok_size: "ht_ok hash ht \<Longrightarrow> ht_size ht = length (ht_table ht)"
  by (auto simp: ht_ok_def)

lemma ht_ok_used: "ht_ok hash ht \<Longrightarrow> ht_used ht = sum_list (map length (ht_table ht))"
  by (auto simp: ht_ok_def)

lemma ht_ok_placed:
  "ht_ok hash ht \<Longrightarrow> i < length (ht_table ht) \<Longrightarrow> ht_placed hash ht i (ht_table ht ! i)"
  by (auto simp: ht_ok_def)

lemma ht_lookup_unallocated: "ht_table ht = [] \<Longrightarrow> ht_lookup hash ht = Map.empty"
  by (auto simp: ht_lookup_def)

lemma ht_size_0_iff [simp]: "ht_ok hash ht \<Longrightarrow> ht_size ht = 0 \<longleftrightarrow> ht_table ht = []"
  by (auto simp: ht_ok_size)

lemma ht_reset_iff: "ht_ok hash ht \<Longrightarrow> ht_table ht = [] \<longleftrightarrow> ht = dictReset"
  by (auto simp: ht_ok_def)

text \<open>Overwriting one bucket changes the lookups of the keys that select it, and no others.\<close>

lemma ht_update_bucket:
  fixes ht :: "('k, 'v) dictht" and b :: "('k \<times> 'v) list"
  assumes ok: "ht_ok hash ht" and i: "i < length (ht_table ht)" and b: "ht_placed hash ht i b"
    and u: "u + length (ht_table ht ! i) = ht_used ht + length b"
  shows "ht_ok hash (ht\<lparr>ht_table := (ht_table ht)[i := b], ht_used := u\<rparr>)"
    and "ht_lookup hash (ht\<lparr>ht_table := (ht_table ht)[i := b], ht_used := u\<rparr>) k
       = (if dict_idx hash ht k = i then map_of b k else ht_lookup hash ht k)"
proof -
  have ne: "ht_table ht \<noteq> []" using i by auto
  obtain n where n: "n < 63" "ht_size ht = 2 ^ n" "ht_sizemask ht = mask n"
    "length (ht_table ht) = 2 ^ n" "ht_used ht = sum_list (map length (ht_table ht))"
    "\<And>i. i < length (ht_table ht) \<Longrightarrow> ht_placed hash ht i (ht_table ht ! i)"
    using ht_ok_cases [OF ok ne] by blast
  have "sum_list (map length ((ht_table ht)[i := b])) + length (ht_table ht ! i)
      = sum_list (map length (ht_table ht)) + length b"
    using i elem_le_sum_list [of i "map length (ht_table ht)"]
    by (simp add: map_update sum_list_update)
  then have "u = sum_list (map length ((ht_table ht)[i := b]))" using u n by linarith
  then show "ht_ok hash (ht\<lparr>ht_table := (ht_table ht)[i := b], ht_used := u\<rparr>)"
    unfolding ht_ok_def using n b i
    by (intro disjI2 exI [of _ n]) (auto simp: nth_list_update)
  show "ht_lookup hash (ht\<lparr>ht_table := (ht_table ht)[i := b], ht_used := u\<rparr>) k
       = (if dict_idx hash ht k = i then map_of b k else ht_lookup hash ht k)"
    using i ne by (auto simp: ht_lookup_def)
qed

text \<open>The keys of a table: what its buckets hold, and their number.\<close>

lemma distinct_concat_placed:
  assumes "\<And>i. i < length t \<Longrightarrow> distinct (map fst (t ! i)) \<and> (\<forall>k \<in> fst ` set (t ! i). f k = i)"
  shows "distinct (map fst (concat t)) \<and> (\<forall>k \<in> fst ` set (concat t). f k < length t)"
  using assms
proof (induction t rule: rev_induct)
  case (snoc b t)
  have "distinct (map fst (concat t)) \<and> (\<forall>k \<in> fst ` set (concat t). f k < length t)"
    using snoc.prems by (intro snoc.IH) (metis length_append_singleton less_SucI nth_append_left)
  moreover have "distinct (map fst b) \<and> (\<forall>k \<in> fst ` set b. f k = length t)"
    using snoc.prems [of "length t"] by simp
  ultimately show ?case by fastforce
qed simp

lemma ht_lookup_concat:
  assumes ok: "ht_ok hash ht"
  shows "ht_lookup hash ht = map_of (concat (ht_table ht))"
    and "distinct (map fst (concat (ht_table ht)))"
proof -
  let ?t = "ht_table ht"
  have pl: "\<And>i. i < length ?t \<Longrightarrow>
      distinct (map fst (?t ! i)) \<and> (\<forall>k \<in> fst ` set (?t ! i). dict_idx hash ht k = i)"
    using ht_ok_placed [OF ok] by (simp add: ht_placed_def)
  show d: "distinct (map fst (concat ?t))"
    using distinct_concat_placed [OF pl] by blast
  show "ht_lookup hash ht = map_of (concat ?t)"
  proof
    fix k
    show "ht_lookup hash ht k = map_of (concat ?t) k"
    proof (cases "?t = []")
      case False
      have i: "dict_idx hash ht k < length ?t" by (rule ht_ok_idx [OF ok False])
      have "map_of (?t ! dict_idx hash ht k) k = Some v \<longleftrightarrow> (k, v) \<in> set (concat ?t)" for v
      proof
        assume "map_of (?t ! dict_idx hash ht k) k = Some v"
        then show "(k, v) \<in> set (concat ?t)" using i by (auto dest!: map_of_SomeD)
      next
        assume "(k, v) \<in> set (concat ?t)"
        then obtain j where j: "j < length ?t" "(k, v) \<in> set (?t ! j)"
          by (auto simp: set_conv_nth [of ?t])
        then have "dict_idx hash ht k = j" using pl [of j] by force
        then show "map_of (?t ! dict_idx hash ht k) k = Some v" using j pl [of j] by simp
      qed
      then have "map_of (?t ! dict_idx hash ht k) k = Some v \<longleftrightarrow> map_of (concat ?t) k = Some v" for v
        using d by (simp only: map_of_eq_Some_iff)
      then have "map_of (?t ! dict_idx hash ht k) k = map_of (concat ?t) k"
        by (metis option.exhaust)
      then show ?thesis using False by (simp add: ht_lookup_def)
    qed (simp add: ht_lookup_def)
  qed
qed

lemma ht_dom: "ht_ok hash ht \<Longrightarrow> finite (dom (ht_lookup hash ht)) \<and> card (dom (ht_lookup hash ht)) = ht_used ht"
  using ht_lookup_concat [of hash ht] distinct_card [of "map fst (concat (ht_table ht))"]
  by (simp add: dom_map_of_conv_image_fst ht_ok_used length_concat)

lemma ht_used_0: "ht_ok hash ht \<Longrightarrow> ht_used ht = 0 \<longleftrightarrow> ht_lookup hash ht = Map.empty"
  using ht_dom [of hash ht] by auto

text \<open>Chains\<close>

lemma chain_find_None: "chain_find k b = None \<longleftrightarrow> map_of b k = None"
  by (induction b) auto

lemma chain_find_Some:
  "chain_find k b = Some p \<Longrightarrow> p < length b \<and> fst (b ! p) = k \<and> map_of b k = Some (snd (b ! p))"
  by (induction b arbitrary: p) (auto split: if_splits)

lemma chain_find_map_of: "(chain_find k b \<noteq> None) = (map_of b k \<noteq> None)"
  by (simp only: chain_find_None)

lemma chain_unlink_None: "chain_unlink k b = None \<longleftrightarrow> map_of b k = None"
  by (simp add: chain_unlink_def chain_find_None)

lemma chain_unlink_Some:
  assumes "chain_unlink k b = Some b'" and "distinct (map fst b)"
  shows "map_of b k \<noteq> None" and "map_of b' = (map_of b)(k := None)" and "set b' \<subseteq> set b"
    and "distinct (map fst b')" and "Suc (length b') = length b"
proof -
  obtain p where p: "chain_find k b = Some p" "b' = take p b @ drop (Suc p) b"
    using assms(1) by (auto simp: chain_unlink_def)
  then have q: "p < length b" "fst (b ! p) = k" "map_of b k = Some (snd (b ! p))"
    using chain_find_Some [OF p(1)] by auto
  then have split: "b = take p b @ b ! p # drop (Suc p) b" by (simp add: id_take_nth_drop)
  have *: "distinct (map fst (take p b) @ k # map fst (drop (Suc p) b))"
    using assms(2) q split by (metis list.simps(9) map_append)
  show "map_of b k \<noteq> None" using q by simp
  show "set b' \<subseteq> set b" using p set_take_subset set_drop_subset by force
  show "distinct (map fst b')" using * p by simp
  show "Suc (length b') = length b" using p q by simp
  have "map_of (take p b) k = None" "map_of (drop (Suc p) b) k = None"
    using * by (auto simp: map_of_eq_None_iff)
  moreover have "map_of b j = map_of (take p b @ b ! p # drop (Suc p) b) j" for j
    using split by simp
  ultimately show "map_of b' = (map_of b)(k := None)"
    using p q by (auto simp: fun_eq_iff map_add_def split: option.split prod.splits)
qed

section \<open>The invariant and the abstract map\<close>

definition dict_map :: "('k \<Rightarrow> u32) \<Rightarrow> ('k, 'v) dict \<Rightarrow> 'k \<Rightarrow> 'v option" where
  "dict_map hash d = ht_lookup hash (ht0 d) ++ ht_lookup hash (ht1 d)"

definition dict_inv :: "('k \<Rightarrow> u32) \<Rightarrow> ('k, 'v) dict \<Rightarrow> bool" where
  "dict_inv hash d \<longleftrightarrow> ht_ok hash (ht0 d) \<and> ht_ok hash (ht1 d)
     \<and> dom (ht_lookup hash (ht0 d)) \<inter> dom (ht_lookup hash (ht1 d)) = {}
     \<and> (if dictIsRehashing d
        then ht_table (ht0 d) \<noteq> [] \<and> ht_table (ht1 d) \<noteq> [] \<and> 0 \<le> rehashidx d
          \<and> rehashidx d \<le> int (length (ht_table (ht0 d)))
          \<and> (\<forall>i < nat (rehashidx d). ht_table (ht0 d) ! i = [])
        else ht_table (ht1 d) = [])"

lemma dict_inv_oks: "dict_inv hash d \<Longrightarrow> ht_ok hash (ht0 d)" "dict_inv hash d \<Longrightarrow> ht_ok hash (ht1 d)"
  by (auto simp: dict_inv_def)

lemma dict_inv_dom:
  assumes "dict_inv hash d"
  shows "finite (dom (dict_map hash d))" and "card (dom (dict_map hash d)) = dictSize d"
  using assms ht_dom [of hash "ht0 d"] ht_dom [of hash "ht1 d"]
  by (auto simp: dict_inv_def dict_map_def dictSize_def card_Un_disjoint Un_commute Int_commute)

lemma dict_map_empty: "dict_inv hash d \<Longrightarrow> dictSize d = 0 \<longleftrightarrow> dict_map hash d = Map.empty"
  using dict_inv_dom [of hash d] by auto

lemma dictCreate_size [simp]: "dictSize dictCreate = 0"
  by (simp add: dictSize_def dictCreate_def)

lemma dictCreate_inv [simp]: "dict_inv hash dictCreate" "dict_map hash dictCreate = Map.empty"
  by (auto simp: dict_inv_def dict_map_def dictCreate_def dictIsRehashing_def)

section \<open>Growing and shrinking\<close>

lemma dictNextPower_loop_power:
  "\<exists>n \<ge> m. dictNextPower_loop (2 ^ m) sz = 2 ^ n \<and> sz \<le> 2 ^ n \<and> (n = m \<or> 2 ^ n < 2 * sz)"
proof (induction "sz - 2 ^ m" arbitrary: m rule: less_induct)
  case less
  show ?case
  proof (cases "2 ^ m \<ge> sz")
    case True
    then show ?thesis by (subst dictNextPower_loop.simps) auto
  next
    case False
    then have "\<exists>n \<ge> Suc m. dictNextPower_loop (2 ^ Suc m) sz = 2 ^ n \<and> sz \<le> 2 ^ n
        \<and> (n = Suc m \<or> 2 ^ n < 2 * sz)"
      by (intro less) (simp add: diff_less_mono2)
    then obtain n where "n \<ge> Suc m" "dictNextPower_loop (2 ^ Suc m) sz = 2 ^ n" "sz \<le> 2 ^ n"
        "n = Suc m \<or> 2 ^ n < 2 * sz" by blast
    with False show ?thesis
      by (subst dictNextPower_loop.simps) (auto simp: mult.commute intro!: exI [of _ n])
  qed
qed

lemma dictNextPower_power:
  assumes "sz \<le> 2 ^ 61"
  shows "\<exists>n < 63. dictNextPower sz = 2 ^ n \<and> sz \<le> 2 ^ n \<and> 2 \<le> n"
proof -
  obtain n where n: "n \<ge> 2" "dictNextPower_loop (2 ^ 2) sz = 2 ^ n" "sz \<le> 2 ^ n"
      "n = 2 \<or> (2::nat) ^ n < 2 * sz"
    using dictNextPower_loop_power [of 2 sz] by blast
  have "n < 63"
  proof (cases "n = 2")
    case False
    then have "(2::nat) ^ n < 2 ^ 62" using n assms by simp
    then have "n < 62" by (rule power_less_imp_less_exp [rotated]) simp
    then show ?thesis by simp
  qed simp
  moreover have "sz < LONG_MAX" using assms by (rule order_le_less_trans) simp
  ultimately show ?thesis using n by (auto simp: dictNextPower_def)
qed

lemma fresh_table:
  fixes ht :: "('k, 'v) dictht"
  assumes "ht = \<lparr>ht_table = replicate (2 ^ n) [], ht_size = 2 ^ n,
      ht_sizemask = of_nat (2 ^ n) - 1, ht_used = 0\<rparr>" and "n < 63"
  shows "ht_ok hash ht" and "ht_lookup hash ht = Map.empty" and "ht_table ht \<noteq> []"
proof -
  show "ht_ok hash ht"
    unfolding ht_ok_def using assms
    by (intro disjI2 exI [of _ n]) (auto simp: mask_eq_exp_minus_1 ht_placed_def sum_list_replicate)
  have "dict_idx hash ht k < 2 ^ n" for k
    using assms by (intro dict_idx_less) (auto simp: mask_eq_exp_minus_1)
  then show "ht_lookup hash ht = Map.empty"
    using assms by (auto simp: ht_lookup_def fun_eq_iff)
  show "ht_table ht \<noteq> []" using assms by simp
qed

lemma dictExpand_correct:
  fixes d :: "('k, 'v) dict"
  assumes inv: "dict_inv hash d" and sz: "sz \<le> 2 ^ 61" and e: "dictExpand d sz = (d', ok)"
  shows "dict_inv hash d'" and "dict_map hash d' = dict_map hash d" and "iterators d' = iterators d"
    and "ok \<Longrightarrow> ht_table (ht0 d') \<noteq> []"
proof -
  obtain n where n: "n < 63" "dictNextPower sz = 2 ^ n" using dictNextPower_power [OF sz] by blast
  define t :: "('k, 'v) dictht" where
    "t = \<lparr>ht_table = replicate (2 ^ n) [], ht_size = 2 ^ n, ht_sizemask = of_nat (2 ^ n) - 1, ht_used = 0\<rparr>"
  note t = fresh_table [OF t_def n(1)]
  have d': "d' = (if dictIsRehashing d \<or> ht_used (ht0 d) > sz \<or> 2 ^ n = ht_size (ht0 d) then d
      else if ht_table (ht0 d) = [] then d\<lparr>ht0 := t\<rparr> else d\<lparr>ht1 := t, rehashidx := 0\<rparr>)"
    "ok \<longleftrightarrow> \<not> (dictIsRehashing d \<or> ht_used (ht0 d) > sz \<or> 2 ^ n = ht_size (ht0 d))"
    using e by (auto simp: dictExpand_def n t_def Let_def split: if_splits)
  show "dict_inv hash d'"
    using inv t by (auto simp: d' dict_inv_def dictIsRehashing_def)
  show "dict_map hash d' = dict_map hash d"
  proof (cases "dictIsRehashing d")
    case False
    then have "ht1 d = dictReset"
      using inv ht_reset_iff [of hash "ht1 d"] by (auto simp: dict_inv_def)
    moreover have "ht_table (ht0 d) = [] \<Longrightarrow> ht_lookup hash (ht0 d) = Map.empty"
      by (auto simp: ht_lookup_def)
    ultimately show ?thesis using t by (auto simp: d' dict_map_def)
  qed (simp add: d')
  show "iterators d' = iterators d" by (simp add: d')
  show "ok \<Longrightarrow> ht_table (ht0 d') \<noteq> []" using t by (auto simp: d')
qed

lemma dictResize_correct:
  assumes "dict_inv hash d" and "dictSize d \<le> 2 ^ 61" and "dictResize can_resize d = (d', ok)"
  shows "dict_inv hash d'" and "dict_map hash d' = dict_map hash d" and "iterators d' = iterators d"
proof -
  let ?m = "if ht_used (ht0 d) < 4 then 4 else ht_used (ht0 d)"
  have m: "?m \<le> 2 ^ 61" using assms(2) by (simp add: dictSize_def)
  consider "d' = d" | "dictExpand d ?m = (d', ok)"
    using assms(3) by (auto simp: dictResize_def Let_def split: if_splits)
  then show "dict_inv hash d'" and "dict_map hash d' = dict_map hash d" and "iterators d' = iterators d"
    using dictExpand_correct [OF assms(1) m] assms(1) by (cases; blast)+
qed

lemma dictExpandIfNeeded_correct:
  assumes inv: "dict_inv hash d" and sz: "dictSize d \<le> 2 ^ 60"
    and e: "dictExpandIfNeeded can_resize d = (d', ok)"
  shows "dict_inv hash d'" and "dict_map hash d' = dict_map hash d" and "iterators d' = iterators d"
    and "ok" and "ht_table (ht0 d') \<noteq> []"
proof -
  have ok0: "ht_ok hash (ht0 d)" using inv by (rule dict_inv_oks)
  have u: "ht_used (ht0 d) * 2 \<le> 2 ^ 61" "(4::nat) \<le> 2 ^ 61"
    using sz by (auto simp: dictSize_def)
  have pow: "m \<le> 2 ^ 61 \<Longrightarrow> m \<le> dictNextPower m \<and> dictNextPower m > 0" for m
    using dictNextPower_power [of m] by auto
  consider (same) "d' = d" "ok" "dictIsRehashing d \<or> ht_size (ht0 d) \<noteq> 0"
    | (init) "\<not> dictIsRehashing d" "ht_size (ht0 d) = 0" "dictExpand d 4 = (d', ok)"
    | (grow) "\<not> dictIsRehashing d" "ht_size (ht0 d) \<noteq> 0" "ht_used (ht0 d) \<ge> ht_size (ht0 d)"
      "dictExpand d (ht_used (ht0 d) * 2) = (d', ok)"
    using e by (auto simp: dictExpandIfNeeded_def split: if_splits)
  then have "dict_inv hash d' \<and> dict_map hash d' = dict_map hash d \<and> iterators d' = iterators d
      \<and> ok \<and> ht_table (ht0 d') \<noteq> []"
  proof cases
    case same
    then show ?thesis using inv ok0 by (auto simp: dict_inv_def)
  next
    case init
    then have "ht_used (ht0 d) = 0" using ok0 by (simp add: ht_ok_used)
    then have "ok" using init pow [OF u(2)] by (auto simp: dictExpand_def Let_def split: if_splits)
    then show ?thesis using dictExpand_correct [OF inv u(2) init(3)] by blast
  next
    case grow
    then have "ok" using pow [OF u(1)] by (auto simp: dictExpand_def Let_def split: if_splits)
    then show ?thesis using dictExpand_correct [OF inv u(1) grow(4)] by blast
  qed
  then show "dict_inv hash d'" and "dict_map hash d' = dict_map hash d" and "iterators d' = iterators d"
    and "ok" and "ht_table (ht0 d') \<noteq> []" by blast+
qed

section \<open>Incremental rehashing\<close>

lemma ht_push:
  fixes ht :: "('k, 'v) dictht" and v :: 'v
  assumes "ht_ok hash ht" and "ht_table ht \<noteq> []" and "ht_lookup hash ht k = None"
  defines "i \<equiv> dict_idx hash ht k"
  defines "ht' \<equiv> ht\<lparr>ht_table := (ht_table ht)[i := (k, v) # ht_table ht ! i], ht_used := ht_used ht + 1\<rparr>"
  shows "ht_ok hash ht'" and "ht_lookup hash ht' = (ht_lookup hash ht)(k \<mapsto> v)" and "ht_table ht' \<noteq> []"
proof -
  have i: "i < length (ht_table ht)" unfolding i_def by (rule ht_ok_idx [OF assms(1,2)])
  have pl: "ht_placed hash ht i ((k, v) # ht_table ht ! i)"
    using ht_ok_placed [OF assms(1) i] assms(2,3)
    by (auto simp: ht_placed_def i_def ht_lookup_def map_of_eq_None_iff)
  note u = ht_update_bucket [OF assms(1) i pl, of "ht_used ht + 1"]
  show "ht_ok hash ht'" unfolding ht'_def by (rule u) simp
  have lk: "ht_lookup hash ht' x = (if dict_idx hash ht x = i then map_of ((k, v) # ht_table ht ! i) x
      else ht_lookup hash ht x)" for x
    unfolding ht'_def by (rule u) simp
  show "ht_lookup hash ht' = (ht_lookup hash ht)(k \<mapsto> v)"
  proof
    fix x
    show "ht_lookup hash ht' x = ((ht_lookup hash ht)(k \<mapsto> v)) x"
      unfolding lk using assms(2) by (auto simp: i_def ht_lookup_def)
  qed
  show "ht_table ht' \<noteq> []" using assms(2) by (simp add: ht'_def)
qed

lemma dictRehash_move_correct:
  fixes d :: "('k, 'v) dict"
  assumes "ht_ok hash (ht1 d)" and "ht_table (ht1 d) \<noteq> []" and "distinct (map fst es)"
    and "fst ` set es \<inter> dom (ht_lookup hash (ht1 d)) = {}"
  shows "\<exists>h1. dictRehash_move hash d es
      = Some (d\<lparr>ht1 := h1, ht0 := (ht0 d)\<lparr>ht_used := ht_used (ht0 d) - length es\<rparr>\<rparr>)
    \<and> ht_ok hash h1 \<and> ht_table h1 \<noteq> [] \<and> ht_lookup hash h1 = ht_lookup hash (ht1 d) ++ map_of es
    \<and> ht_size h1 = ht_size (ht1 d)"
  using assms
proof (induction es arbitrary: d)
  case (Cons e es)
  obtain k v where e: "e = (k, v)" by (cases e)
  let ?i = "dict_idx hash (ht1 d) k"
  have none: "ht_lookup hash (ht1 d) k = None" using Cons.prems(4) e by (auto simp: dom_def)
  define h where "h = (ht1 d)\<lparr>ht_table := (ht_table (ht1 d))[?i := (k, v) # ht_table (ht1 d) ! ?i],
      ht_used := ht_used (ht1 d) + 1\<rparr>"
  note h = ht_push [OF Cons.prems(1,2) none, of v, folded h_def]
  let ?d = "d\<lparr>ht1 := h, ht0 := (ht0 d)\<lparr>ht_used := ht_used (ht0 d) - 1\<rparr>\<rparr>"
  have disj: "fst ` set es \<inter> dom (ht_lookup hash h) = {}"
    using Cons.prems(3,4) e by (auto simp: h(2) simp del: fun_upd_apply)
  obtain h1 where h1: "dictRehash_move hash ?d es
      = Some (?d\<lparr>ht1 := h1, ht0 := (ht0 ?d)\<lparr>ht_used := ht_used (ht0 ?d) - length es\<rparr>\<rparr>)"
      "ht_ok hash h1" "ht_table h1 \<noteq> []" "ht_lookup hash h1 = ht_lookup hash h ++ map_of es"
      "ht_size h1 = ht_size (ht1 d)"
    using Cons.IH [of ?d] h(1,3) Cons.prems(3) disj by (auto simp: h_def)
  have "map_of es k = None" using Cons.prems(3) e by (simp add: map_of_eq_None_iff)
  then have lk: "ht_lookup hash h1 = ht_lookup hash (ht1 d) ++ map_of (e # es)"
    by (auto simp: h1(4) h(2) e fun_eq_iff map_add_def split: option.split)
  have "dictRehash_move hash d (e # es) = dictRehash_move hash ?d es"
    using ht_ok_idx [OF Cons.prems(1,2), of k] by (simp add: e dict_bucket_def Let_def h_def)
  also have "\<dots> = Some (d\<lparr>ht1 := h1, ht0 := (ht0 d)\<lparr>ht_used := ht_used (ht0 d) - length (e # es)\<rparr>\<rparr>)"
    using h1(1) by simp
  finally show ?case using lk h1(2,3,5) by blast
next
  case Nil
  have "d = d\<lparr>ht1 := ht1 d, ht0 := (ht0 d)\<lparr>ht_used := ht_used (ht0 d)\<rparr>\<rparr>" by simp
  then show ?case using Nil by (intro exI [of _ "ht1 d"]) simp
qed

lemma dictRehash_skip_correct:
  assumes "0 \<le> idx" and "\<exists>j \<ge> nat idx. j < length t \<and> t ! j \<noteq> []"
  shows "\<exists>idx' ev' stop. dictRehash_skip t idx ev = Some (idx', ev', stop) \<and> idx \<le> idx'
    \<and> (stop \<longrightarrow> idx < idx') \<and> idx' < int (length t)
    \<and> (\<forall>i. nat idx \<le> i \<and> i < nat idx' \<longrightarrow> t ! i = []) \<and> (\<not> stop \<longrightarrow> t ! nat idx' \<noteq> [])"
  using assms
proof (induction t idx ev rule: dictRehash_skip.induct)
  case (1 t idx ev)
  obtain j where j: "j \<ge> nat idx" "j < length t" "t ! j \<noteq> []" using "1.prems" by blast
  have g: "get_at t idx = Some (t ! nat idx)" using "1.prems"(1) j by (simp add: get_at_def)
  show ?case
  proof (cases "t ! nat idx")
    case (Cons e es)
    then show ?thesis using j "1.prems" by (subst dictRehash_skip.simps) (auto simp: g)
  next
    case Nil
    then have "j \<noteq> nat idx" using j by auto
    then have j': "j \<ge> nat (idx + 1)" using j "1.prems" by linarith
    show ?thesis
    proof (cases "ev - 1 = 0")
      case True
      have "t ! i = []" if "nat idx \<le> i" "i < nat (idx + 1)" for i
      proof -
        have "i = nat idx" using that by linarith
        then show ?thesis using Nil by simp
      qed
      moreover have "idx + 1 < int (length t)" using j' j by linarith
      ultimately show ?thesis using Nil True
        by (subst dictRehash_skip.simps) (auto simp: g)
    next
      case False
      obtain idx' ev' stop where r: "dictRehash_skip t (idx + 1) (ev - 1) = Some (idx', ev', stop)"
        "idx + 1 \<le> idx'" "stop \<longrightarrow> idx + 1 < idx'" "idx' < int (length t)"
        "\<forall>i. nat (idx + 1) \<le> i \<and> i < nat idx' \<longrightarrow> t ! i = []" "\<not> stop \<longrightarrow> t ! nat idx' \<noteq> []"
        using "1.IH" [OF g Nil False] "1.prems"(1) j' j by fastforce
      have "t ! i = []" if "nat idx \<le> i" "i < nat idx'" for i
        using that r(5) Nil "1.prems"(1) by (cases "i = nat idx") (auto simp: nat_add_distrib)
      then show ?thesis using r False Nil by (subst dictRehash_skip.simps) (auto simp: g)
    qed
  qed
qed

text \<open>What a step that only reorganises the tables keeps.\<close>

definition dict_keeps :: "('k \<Rightarrow> u32) \<Rightarrow> ('k, 'v) dict \<Rightarrow> ('k, 'v) dict \<Rightarrow> bool" where
  "dict_keeps hash d d' \<longleftrightarrow>
     dict_inv hash d' \<and> dict_map hash d' = dict_map hash d \<and> iterators d' = iterators d"

lemma dict_keeps_refl: "dict_inv hash d \<Longrightarrow> dict_keeps hash d d"
  by (simp add: dict_keeps_def)

lemma dict_keeps_trans: "dict_keeps hash a b \<Longrightarrow> dict_keeps hash b c \<Longrightarrow> dict_keeps hash a c"
  by (simp add: dict_keeps_def)

lemma dict_keeps_size: "dict_inv hash d \<Longrightarrow> dict_keeps hash d d' \<Longrightarrow> dictSize d' = dictSize d"
  using dict_inv_dom(2) [of hash d] dict_inv_dom(2) [of hash d'] by (simp add: dict_keeps_def)

lemma dict_update_commute:
  "ht\<lparr>ht_used := u, ht_table := t\<rparr> = ht\<lparr>ht_table := t, ht_used := u\<rparr>"
  "d\<lparr>ht1 := h1, ht0 := h0\<rparr> = d\<lparr>ht0 := h0, ht1 := h1\<rparr>"
  by (auto intro: dictht.equality dict.equality)

text \<open>Moving one bucket, the body of the loop of \<open>dictRehash\<close>.\<close>

lemma dict_used_nonempty:
  assumes inv: "dict_inv hash d" and re: "dictIsRehashing d" and u: "ht_used (ht0 d) \<noteq> 0"
  shows "\<exists>j \<ge> nat (rehashidx d). j < length (ht_table (ht0 d)) \<and> ht_table (ht0 d) ! j \<noteq> []"
proof (rule ccontr)
  assume "\<not> ?thesis"
  then have "ht_table (ht0 d) ! j = []" if "j < length (ht_table (ht0 d))" for j
    using inv re that by (cases "j < nat (rehashidx d)") (auto simp: dict_inv_def)
  then have "\<forall>b \<in> set (ht_table (ht0 d)). b = []" by (auto simp: in_set_conv_nth)
  then have "sum_list (map length (ht_table (ht0 d))) = 0" by (simp add: sum_list_eq_0_iff)
  then show False using u ht_ok_used [OF dict_inv_oks(1) [OF inv]] by argo
qed

lemma dict_move_bucket:
  fixes d :: "('k, 'v) dict"
  assumes inv: "dict_inv hash d" and re: "dictIsRehashing d"
    and idx: "nat (rehashidx d) \<le> i" "i < length (ht_table (ht0 d))"
    and emp: "\<And>j. nat (rehashidx d) \<le> j \<Longrightarrow> j < i \<Longrightarrow> ht_table (ht0 d) ! j = []"
  obtains d1 d2 where
    "dictRehash_move hash (d\<lparr>rehashidx := int i\<rparr>) (ht_table (ht0 d) ! i) = Some d1"
    "ht_table (ht0 d1) = ht_table (ht0 d)"
    "d2 = d1\<lparr>ht0 := (ht0 d1)\<lparr>ht_table := (ht_table (ht0 d))[i := []]\<rparr>, rehashidx := int i + 1\<rparr>"
    "dict_keeps hash d d2" "ht_size (ht0 d2) = ht_size (ht0 d)" "ht_size (ht1 d2) = ht_size (ht1 d)"
proof -
  let ?d = "d\<lparr>rehashidx := int i\<rparr>" and ?b = "ht_table (ht0 d) ! i"
  have ok: "ht_ok hash (ht0 d)" "ht_ok hash (ht1 d)" "ht_table (ht0 d) \<noteq> []" "ht_table (ht1 d) \<noteq> []"
    and disj: "dom (ht_lookup hash (ht0 d)) \<inter> dom (ht_lookup hash (ht1 d)) = {}"
    using inv re by (auto simp: dict_inv_def)
  have pl: "ht_placed hash (ht0 d) i ?b" using ok(1) idx(2) by (rule ht_ok_placed)
  have b0: "map_of ?b k = Some v \<Longrightarrow> ht_lookup hash (ht0 d) k = Some v" for k v
    using pl map_of_SomeD [of ?b k v] ok(3) by (auto simp: ht_placed_def ht_lookup_def)
  have "fst ` set ?b \<subseteq> dom (ht_lookup hash (ht0 d))"
    unfolding dom_map_of_conv_image_fst [symmetric] using b0 by auto
  then have "fst ` set ?b \<inter> dom (ht_lookup hash (ht1 ?d)) = {}" using disj by auto
  then obtain h1 where h1: "dictRehash_move hash ?d ?b
      = Some (?d\<lparr>ht1 := h1, ht0 := (ht0 d)\<lparr>ht_used := ht_used (ht0 d) - length ?b\<rparr>\<rparr>)"
      "ht_ok hash h1" "ht_table h1 \<noteq> []" "ht_lookup hash h1 = ht_lookup hash (ht1 d) ++ map_of ?b"
      "ht_size h1 = ht_size (ht1 d)"
    using dictRehash_move_correct [of hash ?d ?b] ok pl by (auto simp: ht_placed_def)
  define h0 where "h0 = (ht0 d)\<lparr>ht_table := (ht_table (ht0 d))[i := []], ht_used := ht_used (ht0 d) - length ?b\<rparr>"
  have le: "length ?b \<le> ht_used (ht0 d)"
    using idx(2) elem_le_sum_list [of i "map length (ht_table (ht0 d))"] ht_ok_used [OF ok(1)] by simp
  have "ht_placed hash (ht0 d) i []" by (simp add: ht_placed_def)
  note upd = ht_update_bucket [OF ok(1) idx(2) this, of "ht_used (ht0 d) - length ?b", folded h0_def]
  have h0: "ht_ok hash h0" "ht_lookup hash h0 k
      = (if dict_idx hash (ht0 d) k = i then None else ht_lookup hash (ht0 d) k)" for k
    using upd le by auto
  have i_iff: "map_of ?b k = (if dict_idx hash (ht0 d) k = i then ht_lookup hash (ht0 d) k else None)" for k
    using pl ok(3) by (auto simp: ht_lookup_def ht_placed_def map_of_eq_None_iff)
  let ?d2 = "d\<lparr>ht0 := h0, ht1 := h1, rehashidx := int i + 1\<rparr>"
  have "dom (ht_lookup hash h0) \<inter> dom (ht_lookup hash h1) = {}"
    using disj by (auto simp: h0(2) h1(4) i_iff dom_def split: if_splits)
  moreover have "ht_table h0 ! j = []" if "j < nat (int i + 1)" for j
    using that emp inv re idx by (cases "j = i"; cases "j < nat (rehashidx d)")
      (auto simp: h0_def dict_inv_def nth_list_update)
  ultimately have "dict_inv hash ?d2"
    using h0(1) h1(2,3) ok(3) idx(2) by (auto simp: dict_inv_def dictIsRehashing_def h0_def)
  moreover have "dict_map hash ?d2 = dict_map hash d"
    using disj by (auto simp: dict_map_def h0(2) h1(4) i_iff fun_eq_iff map_add_def dom_def
        split: option.split)
  ultimately have "dict_keeps hash d ?d2" by (simp add: dict_keeps_def)
  then show ?thesis
    using h1(5) by (intro that [OF h1(1) _ refl]) (auto simp: h0_def dict_update_commute)
qed

lemma dictRehash_loop_correct:
  assumes "dict_inv hash d" and "dictIsRehashing d"
  shows "\<exists>d' early. dictRehash_loop hash n ev d = Some (d', early) \<and> dict_keeps hash d d'
    \<and> dictIsRehashing d' \<and> ht_size (ht0 d') = ht_size (ht0 d) \<and> ht_size (ht1 d') = ht_size (ht1 d)
    \<and> (n \<noteq> 0 \<and> ht_used (ht0 d) \<noteq> 0 \<longrightarrow> rehashidx d < rehashidx d')"
  using assms
proof (induction n arbitrary: ev d)
  case (Suc n)
  show ?case
  proof (cases "ht_used (ht0 d) = 0")
    case False
    let ?t = "ht_table (ht0 d)"
    have ne: "\<exists>j \<ge> nat (rehashidx d). j < length ?t \<and> ?t ! j \<noteq> []"
      using Suc.prems False by (rule dict_used_nonempty)
    have r0: "0 \<le> rehashidx d" "int (ht_size (ht0 d)) > rehashidx d"
      using Suc.prems ne ht_ok_size [OF dict_inv_oks(1) [OF Suc.prems(1)]] by (auto simp: dict_inv_def)
    obtain idx ev' stop where sk: "dictRehash_skip ?t (rehashidx d) ev = Some (idx, ev', stop)"
      "rehashidx d \<le> idx" "stop \<longrightarrow> rehashidx d < idx" "idx < int (length ?t)"
      "\<forall>i. nat (rehashidx d) \<le> i \<and> i < nat idx \<longrightarrow> ?t ! i = []"
      using dictRehash_skip_correct [OF r0(1) ne] by blast
    obtain i where i: "idx = int i" using sk(2) r0(1) zero_le_imp_eq_int [of idx] by auto
    have low: "\<forall>j < i. ?t ! j = []"
      using Suc.prems sk(5) i by (auto simp: dict_inv_def) (metis leI)
    show ?thesis
    proof (cases stop)
      case True
      have "dict_keeps hash d (d\<lparr>rehashidx := idx\<rparr>)"
        using Suc.prems sk(4) i low by (auto simp: dict_keeps_def dict_inv_def dict_map_def dictIsRehashing_def)
      then show ?thesis using True False r0 sk i by (auto simp: dictIsRehashing_def)
    next
      case stop: False
      obtain d1 d2 where mv: "dictRehash_move hash (d\<lparr>rehashidx := int i\<rparr>) (?t ! i) = Some d1"
        "ht_table (ht0 d1) = ?t"
        "d2 = d1\<lparr>ht0 := (ht0 d1)\<lparr>ht_table := ?t[i := []]\<rparr>, rehashidx := int i + 1\<rparr>"
        "dict_keeps hash d d2" "ht_size (ht0 d2) = ht_size (ht0 d)" "ht_size (ht1 d2) = ht_size (ht1 d)"
        using dict_move_bucket [OF Suc.prems, of i] sk i low by force
      have re2: "dict_inv hash d2" "dictIsRehashing d2" "rehashidx d < rehashidx d2"
        using mv(3,4) sk(2) i by (auto simp: dict_keeps_def dictIsRehashing_def)
      obtain d' early where d': "dictRehash_loop hash n ev' d2 = Some (d', early)" "dict_keeps hash d2 d'"
        "dictIsRehashing d'" "ht_size (ht0 d') = ht_size (ht0 d2) \<and> ht_size (ht1 d') = ht_size (ht1 d2)" "n \<noteq> 0 \<and> ht_used (ht0 d2) \<noteq> 0 \<longrightarrow> rehashidx d2 < rehashidx d'"
        using Suc.IH [OF re2(1,2)] by blast
      have "rehashidx d2 \<le> rehashidx d'"
      proof (cases "n \<noteq> 0 \<and> ht_used (ht0 d2) \<noteq> 0")
        case False
        then have "dictRehash_loop hash n ev' d2 = Some (d2, False)" by (cases n) auto
        then show ?thesis using d'(1) by simp
      qed (use d'(5) in auto)
      moreover have "dictRehash_loop hash (Suc n) ev d = Some (d', early)"
        using False r0 sk(1,4) stop mv(1,2) d'(1) i by (simp add: mv(3))
      ultimately show ?thesis
        using d'(3,4) re2(3) mv(5,6) dict_keeps_trans [OF mv(4) d'(2)] by auto
    qed
  qed (use Suc.prems dict_keeps_refl in auto)
qed (auto intro: dict_keeps_refl)

lemma dict_swap_tables:
  assumes "dict_inv hash d" and "dictIsRehashing d" and "ht_used (ht0 d) = 0"
  shows "dict_keeps hash d (d\<lparr>ht0 := ht1 d, ht1 := dictReset, rehashidx := - 1\<rparr>)"
  using assms ht_used_0 [of hash "ht0 d"]
  by (auto simp: dict_keeps_def dict_inv_def dict_map_def dictIsRehashing_def)

lemma dictRehash_correct:
  assumes "dict_inv hash d"
  shows "\<exists>d' b. dictRehash hash d n = Some (d', b) \<and> dict_keeps hash d d'
    \<and> (dictIsRehashing d' \<longrightarrow> dictIsRehashing d)
    \<and> (dictIsRehashing d' \<and> n \<noteq> 0 \<longrightarrow> rehashidx d < rehashidx d' \<and> ht_size (ht0 d') = ht_size (ht0 d))
    \<and> (ht_table (ht0 d) \<noteq> [] \<longrightarrow> ht_table (ht0 d') \<noteq> [])
    \<and> ht_size (ht0 d') + ht_size (ht1 d') \<le> ht_size (ht0 d) + ht_size (ht1 d)"
proof (cases "dictIsRehashing d")
  case True
  obtain d1 early where l: "dictRehash_loop hash n (int n * 10) d = Some (d1, early)" "dict_keeps hash d d1"
    "dictIsRehashing d1" "ht_size (ht0 d1) = ht_size (ht0 d) \<and> ht_size (ht1 d1) = ht_size (ht1 d)"
    "n \<noteq> 0 \<and> ht_used (ht0 d) \<noteq> 0 \<longrightarrow> rehashidx d < rehashidx d1"
    using dictRehash_loop_correct [OF assms True] by blast
  have *: "n \<noteq> 0 \<Longrightarrow> ht_used (ht0 d) = 0 \<Longrightarrow> d1 = d \<and> \<not> early"
    using l(1) by (cases n) auto
  show ?thesis
  proof (cases "\<not> early \<and> ht_used (ht0 d1) = 0")
    case fin: True
    then have "dict_keeps hash d1 (d1\<lparr>ht0 := ht1 d1, ht1 := dictReset, rehashidx := - 1\<rparr>)"
      using l(2,3) by (intro dict_swap_tables) (auto simp: dict_keeps_def)
    moreover have "ht_table (ht1 d1) \<noteq> []" using l(2,3) by (simp add: dict_keeps_def dict_inv_def)
    ultimately show ?thesis
      using True fin l(1,4) dict_keeps_trans [OF l(2)] by (auto simp: dictRehash_def dictIsRehashing_def)
  next
    case False
    then have "dictRehash hash d n = Some (d1, True)" using True l(1) by (auto simp: dictRehash_def)
    moreover have "ht_table (ht0 d1) \<noteq> []" using l(2,3) by (simp add: dict_keeps_def dict_inv_def)
    ultimately show ?thesis using True l(2-5) * False by auto
  qed
qed (use assms dict_keeps_refl in \<open>auto simp: dictRehash_def\<close>)

lemma dictRehashStep_correct:
  assumes "dict_inv hash d"
  shows "\<exists>d'. dictRehashStep hash d = Some d' \<and> dict_keeps hash d d'
    \<and> (dictIsRehashing d' \<longrightarrow> dictIsRehashing d) \<and> (ht_table (ht0 d) \<noteq> [] \<longrightarrow> ht_table (ht0 d') \<noteq> [])
    \<and> ht_size (ht0 d') + ht_size (ht1 d') \<le> ht_size (ht0 d) + ht_size (ht1 d)"
  using dictRehash_correct [OF assms, of 1] dict_keeps_refl [OF assms]
  by (auto simp: dictRehashStep_def)

section \<open>Lookup, insertion, deletion\<close>

lemma ht_bucket:
  assumes "ht_ok hash ht" and "ht_table ht \<noteq> []"
  shows "dict_bucket ht (dict_idx hash ht k) = Some (ht_table ht ! dict_idx hash ht k)"
    and "map_of (ht_table ht ! dict_idx hash ht k) k = ht_lookup hash ht k"
  using ht_ok_idx [OF assms, of k] assms(2) by (auto simp: dict_bucket_def ht_lookup_def)

lemma dict_map_lookup:
  assumes "dict_inv hash d"
  shows "dict_map hash d k = (case ht_lookup hash (ht0 d) k of None \<Rightarrow> ht_lookup hash (ht1 d) k | Some v \<Rightarrow> Some v)"
  using assms by (auto simp: dict_inv_def dict_map_def map_add_def dom_def split: option.split)

lemma dict_not_rehashing:
  assumes "dict_inv hash d" and "\<not> dictIsRehashing d"
  shows "ht1 d = dictReset" and "dict_map hash d = ht_lookup hash (ht0 d)"
  using assms ht_reset_iff [of hash "ht1 d"] by (auto simp: dict_inv_def dict_map_def)

lemma dict_table0:
  assumes "dict_inv hash d" and "dictIsRehashing d \<or> dictSize d \<noteq> 0"
  shows "ht_table (ht0 d) \<noteq> []"
  using assms dict_not_rehashing(1) [OF assms(1)] ht_reset_iff [of hash "ht0 d"]
  by (cases "dictIsRehashing d") (auto simp: dict_inv_def dictSize_def)

text \<open>The step of rehashing that most operations start with.\<close>

lemma dict_step:
  assumes "dict_inv hash d"
  shows "\<exists>d'. (if dictIsRehashing d then dictRehashStep hash d else Some d) = Some d' \<and> dict_keeps hash d d'
    \<and> (ht_table (ht0 d) \<noteq> [] \<longrightarrow> ht_table (ht0 d') \<noteq> [])
    \<and> ht_size (ht0 d') + ht_size (ht1 d') \<le> ht_size (ht0 d) + ht_size (ht1 d)"
  using dictRehashStep_correct [OF assms] dict_keeps_refl [OF assms] by auto

lemma dictKeyIndex_correct:
  assumes inv: "dict_inv hash d" and sz: "dictSize d \<le> 2 ^ 60"
  shows "\<exists>d'. dict_keeps hash d d' \<and> ht_table (ht0 d') \<noteq> [] \<and>
    dictKeyIndex hash can_resize d key = Some (d', if dict_map hash d key = None
      then Some (dict_idx hash (if dictIsRehashing d' then ht1 d' else ht0 d') key) else None)"
proof -
  obtain d' ok where e: "dictExpandIfNeeded can_resize d = (d', ok)" by fastforce
  note c = dictExpandIfNeeded_correct [OF inv sz e]
  have keeps: "dict_keeps hash d d'" using c by (simp add: dict_keeps_def)
  note b0 = ht_bucket [OF dict_inv_oks(1) [OF c(1)] c(5), of key]
  have "dictKeyIndex hash can_resize d key = Some (d', if dict_map hash d key = None
      then Some (dict_idx hash (if dictIsRehashing d' then ht1 d' else ht0 d') key) else None)"
  proof (cases "dictIsRehashing d'")
    case True
    then have "ht_table (ht1 d') \<noteq> []" using c(1) by (simp add: dict_inv_def)
    note b1 = ht_bucket [OF dict_inv_oks(2) [OF c(1)] this, of key]
    show ?thesis
      using True b0 b1 c(2) c(4) dict_map_lookup [OF c(1), of key]
      by (auto simp: dictKeyIndex_def e Let_def chain_find_None split: option.splits)
  next
    case False
    then show ?thesis
      using b0 c(2) c(4) dict_not_rehashing(2) [OF c(1)]
      by (auto simp: dictKeyIndex_def e Let_def chain_find_None)
  qed
  then show ?thesis using keeps c(5) by blast
qed

lemma dict_push:
  fixes d :: "('k, 'v) dict" and v :: 'v
  assumes inv: "dict_inv hash d" and t0: "ht_table (ht0 d) \<noteq> []" and none: "dict_map hash d k = None"
  defines "ht \<equiv> (if dictIsRehashing d then ht1 d else ht0 d)"
  defines "ht' \<equiv> ht\<lparr>ht_table := (ht_table ht)[dict_idx hash ht k := (k, v) # ht_table ht ! dict_idx hash ht k],
      ht_used := ht_used ht + 1\<rparr>"
  defines "d' \<equiv> (if dictIsRehashing d then d\<lparr>ht1 := ht'\<rparr> else d\<lparr>ht0 := ht'\<rparr>)"
  shows "dict_inv hash d'" and "dict_map hash d' = (dict_map hash d)(k \<mapsto> v)"
proof -
  have ok: "ht_ok hash ht" "ht_table ht \<noteq> []" "ht_lookup hash ht k = None"
    using inv t0 none by (auto simp: ht_def dict_inv_def dict_map_def)
  note p = ht_push [OF ok, of v, folded ht'_def]
  have other: "dictIsRehashing d \<Longrightarrow> ht_lookup hash (ht0 d) k = None"
    using none dict_map_lookup [OF inv, of k] by (auto split: option.splits)
  show "dict_inv hash d'"
    using inv p other by (auto simp: d'_def dict_inv_def dictIsRehashing_def ht_def ht_lookup_unallocated)
  show "dict_map hash d' = (dict_map hash d)(k \<mapsto> v)"
  proof (cases "dictIsRehashing d")
    case True
    then show ?thesis using p(2) by (simp add: d'_def dict_map_def ht_def)
  next
    case False
    then have "ht_lookup hash (ht1 d) = Map.empty" using dict_not_rehashing(1) [OF inv] by simp
    then show ?thesis using p(2) False by (simp add: d'_def dict_map_def ht_def)
  qed
qed

lemma dictAdd_correct:
  assumes inv: "dict_inv hash d" and sz: "dictSize d \<le> 2 ^ 60"
  shows "\<exists>d'. dictAdd hash can_resize d k v = Some (d', dict_map hash d k = None) \<and> dict_inv hash d'
    \<and> dict_map hash d' = (if dict_map hash d k = None then (dict_map hash d)(k \<mapsto> v) else dict_map hash d)
    \<and> iterators d' = iterators d"
proof -
  obtain d1 where d1: "(if dictIsRehashing d then dictRehashStep hash d else Some d) = Some d1"
    "dict_keeps hash d d1" using dict_step [OF inv] by blast
  have inv1: "dict_inv hash d1" and sz1: "dictSize d1 \<le> 2 ^ 60"
    using d1(2) dict_keeps_size [OF inv d1(2)] sz by (auto simp: dict_keeps_def)
  obtain d2 where d2: "dict_keeps hash d1 d2" "ht_table (ht0 d2) \<noteq> []"
    "dictKeyIndex hash can_resize d1 k = Some (d2, if dict_map hash d1 k = None
      then Some (dict_idx hash (if dictIsRehashing d2 then ht1 d2 else ht0 d2) k) else None)"
    using dictKeyIndex_correct [OF inv1 sz1] by blast
  have k2: "dict_keeps hash d d2" using d1(2) d2(1) by (rule dict_keeps_trans)
  show ?thesis
  proof (cases "dict_map hash d k = None")
    case False
    then show ?thesis using d1 d2 k2 by (auto simp: dictAdd_def dictAddRaw_def dict_keeps_def)
  next
    case True
    let ?ht = "if dictIsRehashing d2 then ht1 d2 else ht0 d2"
    let ?i = "dict_idx hash ?ht k"
    let ?ht' = "?ht\<lparr>ht_table := (ht_table ?ht)[?i := (k, v) # ht_table ?ht ! ?i], ht_used := ht_used ?ht + 1\<rparr>"
    let ?d = "if dictIsRehashing d2 then d2\<lparr>ht1 := ?ht'\<rparr> else d2\<lparr>ht0 := ?ht'\<rparr>"
    have inv2: "dict_inv hash d2" and none: "dict_map hash d2 k = None"
      using k2 True by (auto simp: dict_keeps_def)
    have "ht_ok hash ?ht" "ht_table ?ht \<noteq> []" using inv2 d2(2) by (auto simp: dict_inv_def)
    then have b: "dict_bucket ?ht ?i = Some (ht_table ?ht ! ?i)" by (rule ht_bucket(1))
    have "dictAdd hash can_resize d k v = Some (?d, True)"
      using d1 d2(3) True b by (auto simp: dictAdd_def dictAddRaw_def dict_keeps_def Let_def)
    then show ?thesis
      using dict_push [OF inv2 d2(2) none, of v] True k2 by (auto simp: dict_keeps_def)
  qed
qed

text \<open>A reference to the entry of a key, as \<open>dictFind\<close> returns it.\<close>

definition entry_ref :: "('k \<Rightarrow> u32) \<Rightarrow> ('k, 'v) dict \<Rightarrow> 'k \<Rightarrow> dictEntry_ref \<Rightarrow> bool" where
  "entry_ref hash d key r \<longleftrightarrow> (case r of (second, i, p) \<Rightarrow>
     let ht = (if second then ht1 d else ht0 d) in
     ht_table ht \<noteq> [] \<and> i = dict_idx hash ht key \<and> chain_find key (ht_table ht ! i) = Some p)"

lemma dictFind_correct:
  assumes inv: "dict_inv hash d"
  shows "\<exists>d' r. dictFind hash d key = Some (d', r) \<and> dict_keeps hash d d'
    \<and> (r = None \<longleftrightarrow> dict_map hash d key = None) \<and> (\<forall>x. r = Some x \<longrightarrow> entry_ref hash d' key x)"
proof (cases "dictSize d = 0")
  case True
  then have "dict_map hash d = Map.empty" using dict_map_empty [OF inv] by simp
  then show ?thesis using True dict_keeps_refl [OF inv] by (auto simp: dictFind_def dictSize_def)
next
  case False
  obtain d1 where d1: "(if dictIsRehashing d then dictRehashStep hash d else Some d) = Some d1"
    "dict_keeps hash d d1" using dict_step [OF inv] by blast
  have inv1: "dict_inv hash d1" and m1: "dict_map hash d1 = dict_map hash d"
    using d1(2) by (auto simp: dict_keeps_def)
  have t0: "ht_table (ht0 d1) \<noteq> []"
    using dict_table0 [OF inv1] dict_keeps_size [OF inv d1(2)] False by simp
  note b0 = ht_bucket [OF dict_inv_oks(1) [OF inv1] t0, of key]
  have used: "ht_used (ht0 d) + ht_used (ht1 d) \<noteq> 0" using False by (simp add: dictSize_def)
  show ?thesis
  proof (cases "chain_find key (ht_table (ht0 d1) ! dict_idx hash (ht0 d1) key)")
    case (Some p)
    then have "dict_map hash d key \<noteq> None"
      using chain_find_Some [OF Some] b0(2) dict_map_lookup [OF inv1, of key] m1 by auto
    then show ?thesis using Some d1 used b0(1) t0
      by (auto simp: dictFind_def Let_def entry_ref_def)
  next
    case None
    then have l0: "ht_lookup hash (ht0 d1) key = None" using b0(2) by (simp add: chain_find_None)
    show ?thesis
    proof (cases "dictIsRehashing d1")
      case False
      then have "dict_map hash d key = None" using l0 dict_not_rehashing(2) [OF inv1] m1 by simp
      then show ?thesis using None d1 used b0(1) False by (auto simp: dictFind_def Let_def)
    next
      case True
      then have t1: "ht_table (ht1 d1) \<noteq> []" using inv1 by (simp add: dict_inv_def)
      note b1 = ht_bucket [OF dict_inv_oks(2) [OF inv1] t1, of key]
      have "dict_map hash d key = ht_lookup hash (ht1 d1) key"
        using l0 dict_map_lookup [OF inv1, of key] m1 by simp
      moreover have "dictFind hash d key = Some (d1, map_option (\<lambda>p. (True, dict_idx hash (ht1 d1) key, p))
          (chain_find key (ht_table (ht1 d1) ! dict_idx hash (ht1 d1) key)))"
        using None d1(1) used b0(1) True b1(1) by (auto simp: dictFind_def Let_def)
      ultimately show ?thesis using d1(2) b1(2) t1
        by (auto simp: entry_ref_def chain_find_None)
    qed
  qed
qed

lemma entry_ref_bucket:
  assumes inv: "dict_inv hash d" and r: "entry_ref hash d key (second, i, p)"
  defines "ht \<equiv> if second then ht1 d else ht0 d"
  shows "dict_bucket ht i = Some (ht_table ht ! i)" and "i < length (ht_table ht)"
    and "i = dict_idx hash ht key" and "p < length (ht_table ht ! i)"
    and "fst (ht_table ht ! i ! p) = key" and "dict_map hash d key = Some (snd (ht_table ht ! i ! p))"
proof -
  have ne: "ht_table ht \<noteq> []" and i: "i = dict_idx hash ht key"
    and c: "chain_find key (ht_table ht ! i) = Some p"
    using r by (auto simp: entry_ref_def ht_def Let_def)
  have ok: "ht_ok hash ht" using inv by (auto simp: ht_def dict_inv_def)
  note b = ht_bucket [OF ok ne, of key] and cf = chain_find_Some [OF c]
  show "dict_bucket ht i = Some (ht_table ht ! i)" using b i by simp
  show "i < length (ht_table ht)" unfolding i by (rule ht_ok_idx [OF ok ne])
  show "i = dict_idx hash ht key" by (rule i)
  show "p < length (ht_table ht ! i)" and "fst (ht_table ht ! i ! p) = key" using cf by auto
  have "ht_lookup hash ht key = Some (snd (ht_table ht ! i ! p))" using b(2) cf i by simp
  then show "dict_map hash d key = Some (snd (ht_table ht ! i ! p))"
    using inv by (cases second) (auto simp: ht_def dict_inv_def dict_map_def map_add_def dom_def split: option.splits)
qed

lemma dictGetVal_correct:
  assumes "dict_inv hash d" and "entry_ref hash d key r"
  shows "dictGetVal d r = dict_map hash d key"
proof -
  obtain second i p where r: "r = (second, i, p)" by (cases r)
  note e = entry_ref_bucket [OF assms(1) assms(2) [unfolded r]]
  then show ?thesis by (simp add: dictGetVal_def r)
qed

lemma dictFetchValue_correct:
  assumes inv: "dict_inv hash d"
  shows "\<exists>d'. dictFetchValue hash d key = Some (d', dict_map hash d key) \<and> dict_keeps hash d d'"
proof -
  obtain d' r where f: "dictFind hash d key = Some (d', r)" "dict_keeps hash d d'"
    "r = None \<longleftrightarrow> dict_map hash d key = None" "\<forall>x. r = Some x \<longrightarrow> entry_ref hash d' key x"
    using dictFind_correct [OF inv] by blast
  show ?thesis
  proof (cases r)
    case (Some x)
    then have "dictGetVal d' x = dict_map hash d key"
      using f(2,4) dictGetVal_correct [of hash d' key x] by (auto simp: dict_keeps_def)
    then show ?thesis using f Some by (auto simp: dictFetchValue_def)
  qed (use f in \<open>auto simp: dictFetchValue_def\<close>)
qed

lemma map_of_update_pos:
  assumes "distinct (map fst b)" and "p < length b" and "fst (b ! p) = k"
  shows "map_of (b[p := (k, v)]) = (map_of b)(k \<mapsto> v)" and "map fst (b[p := (k, v)]) = map fst b"
proof -
  show fst: "map fst (b[p := (k, v)]) = map fst b"
    using assms by (metis fst_conv list_update_id map_update)
  show "map_of (b[p := (k, v)]) = (map_of b)(k \<mapsto> v)"
    using assms
  proof (induction b arbitrary: p)
    case (Cons e b)
    show ?case
    proof (cases p)
      case (Suc q)
      then have "k \<in> fst ` set b" using Cons.prems by force
      then have "fst e \<noteq> k" using Cons.prems(1) by auto
      then show ?thesis using Suc Cons by (auto simp: fun_upd_twist)
    qed (use Cons.prems in auto)
  qed simp
qed

text \<open>Changing the entry of a key that is present, in the table that holds it.\<close>

lemma dict_update_bucket:
  fixes d :: "('k, 'v) dict" and second :: bool and key :: 'k and b :: "('k \<times> 'v) list" and u :: nat
  assumes inv: "dict_inv hash d"
  defines "ht \<equiv> (if second then ht1 d else ht0 d)"
  assumes ne: "ht_table ht \<noteq> []" and key: "ht_lookup hash ht key \<noteq> None"
  defines "i \<equiv> dict_idx hash ht key"
  assumes b: "distinct (map fst b)" "fst ` set b \<subseteq> fst ` set (ht_table ht ! i)"
      "map_of b = (map_of (ht_table ht ! i))(key := x)"
    and u: "u + length (ht_table ht ! i) = ht_used ht + length b"
  defines "ht' \<equiv> ht\<lparr>ht_table := (ht_table ht)[i := b], ht_used := u\<rparr>"
  defines "d' \<equiv> (if second then d\<lparr>ht1 := ht'\<rparr> else d\<lparr>ht0 := ht'\<rparr>)"
  shows "dict_inv hash d'" and "dict_map hash d' = (dict_map hash d)(key := x)"
    and "iterators d' = iterators d"
proof -
  have ok: "ht_ok hash ht" using inv by (simp add: ht_def dict_inv_def)
  have i: "i < length (ht_table ht)" unfolding i_def by (rule ht_ok_idx [OF ok ne])
  have pl: "ht_placed hash ht i b" using ht_ok_placed [OF ok i] b(1,2) unfolding ht_placed_def by blast
  note upd = ht_update_bucket [OF ok i pl u, folded ht'_def]
  have lk: "ht_lookup hash ht' = (ht_lookup hash ht)(key := x)"
  proof
    fix k
    show "ht_lookup hash ht' k = ((ht_lookup hash ht)(key := x)) k"
      unfolding upd(2) b(3) using ne by (auto simp: ht_lookup_def i_def)
  qed
  have disj: "dom (ht_lookup hash (ht0 d)) \<inter> dom (ht_lookup hash (ht1 d)) = {}"
    using inv by (simp add: dict_inv_def)
  have ne': "ht_table ht' \<noteq> []" "length (ht_table ht') = length (ht_table ht)"
    using ne by (simp_all add: ht'_def)
  have emp: "ht_table ht' ! j = []" if "\<not> second" "dictIsRehashing d" "j < nat (rehashidx d)" for j
  proof -
    have e: "ht_table ht ! j = []" using that inv by (simp add: dict_inv_def ht_def)
    moreover have "ht_table ht ! i \<noteq> []" using key ne by (auto simp: i_def ht_lookup_def)
    ultimately show ?thesis by (cases "j = i") (auto simp: ht'_def)
  qed
  have other: "ht_lookup hash (if second then ht0 d else ht1 d) key = None"
    using key disj by (auto simp: ht_def split: if_splits)
  show "dict_inv hash d'"
    using inv upd(1) ne ne' emp disj other
    by (cases second) (auto simp: d'_def dict_inv_def dictIsRehashing_def lk ht_def split: if_splits)
  show "dict_map hash d' = (dict_map hash d)(key := x)"
    using other by (cases second) (auto simp: d'_def dict_map_def lk ht_def fun_eq_iff map_add_def split: option.splits)
  show "iterators d' = iterators d" by (simp add: d'_def)
qed

lemma dictSetVal_correct:
  assumes inv: "dict_inv hash d" and r: "entry_ref hash d key r"
  shows "\<exists>d'. dictSetVal d r val = Some d' \<and> dict_inv hash d' \<and> dict_map hash d' = (dict_map hash d)(key \<mapsto> val)
    \<and> iterators d' = iterators d"
proof -
  obtain second i p where rr: "r = (second, i, p)" by (cases r)
  note e = entry_ref_bucket [OF inv r [unfolded rr]]
  let ?ht = "if second then ht1 d else ht0 d"
  let ?b = "ht_table ?ht ! i"
  let ?b' = "?b[p := (key, val)]"
  have ne: "ht_table ?ht \<noteq> []" using e(2) by auto
  have ok: "ht_ok hash ?ht" using inv by (simp add: dict_inv_def)
  have dist: "distinct (map fst ?b)" using ht_ok_placed [OF ok e(2)] by (simp add: ht_placed_def)
  note mo = map_of_update_pos [OF dist e(4,5), of val]
  have key: "ht_lookup hash ?ht key \<noteq> None"
    using ht_bucket(2) [OF ok ne, of key] e(3,4,5) by (metis map_of_eq_None_iff nth_mem image_eqI)
  have "fst ` set ?b' \<subseteq> fst ` set ?b" using mo(2) by (metis image_set order_refl)
  note u = dict_update_bucket [OF inv ne key, of ?b' "Some val" "ht_used ?ht", folded e(3), OF _ this mo(1)]
  have "dictSetVal d r val = Some (if second
      then d\<lparr>ht1 := ?ht\<lparr>ht_table := (ht_table ?ht)[i := ?b'], ht_used := ht_used ?ht\<rparr>\<rparr>
      else d\<lparr>ht0 := ?ht\<lparr>ht_table := (ht_table ?ht)[i := ?b'], ht_used := ht_used ?ht\<rparr>\<rparr>)"
    using e(1,4,5) by (cases second) (simp_all add: dictSetVal_def rr Let_def)
  then show ?thesis using u dist mo(2) by simp
qed

lemma dictReplace_correct:
  assumes inv: "dict_inv hash d" and sz: "dictSize d \<le> 2 ^ 60"
  shows "\<exists>d'. dictReplace hash can_resize d k v = Some (d', dict_map hash d k = None) \<and> dict_inv hash d'
    \<and> dict_map hash d' = (dict_map hash d)(k \<mapsto> v) \<and> iterators d' = iterators d"
proof -
  obtain d1 where a: "dictAdd hash can_resize d k v = Some (d1, dict_map hash d k = None)" "dict_inv hash d1"
    "dict_map hash d1 = (if dict_map hash d k = None then (dict_map hash d)(k \<mapsto> v) else dict_map hash d)"
    "iterators d1 = iterators d"
    using dictAdd_correct [OF inv sz] by blast
  show ?thesis
  proof (cases "dict_map hash d k = None")
    case False
    obtain d2 r where f: "dictFind hash d1 k = Some (d2, Some r)" "dict_keeps hash d1 d2" "entry_ref hash d2 k r"
      using dictFind_correct [OF a(2), of k] a(3) False by (auto split: if_splits)
    then obtain d3 where "dictSetVal d2 r v = Some d3" "dict_inv hash d3"
      "dict_map hash d3 = (dict_map hash d2)(k \<mapsto> v)" "iterators d3 = iterators d2"
      using dictSetVal_correct [of hash d2 k r v] by (auto simp: dict_keeps_def)
    then show ?thesis using a f False by (simp add: dictReplace_def dict_keeps_def)
  qed (use a in \<open>simp add: dictReplace_def\<close>)
qed

lemma dict_delete_from:
  fixes d :: "('k, 'v) dict" and second :: bool and key :: 'k and b :: "('k \<times> 'v) list"
  assumes inv: "dict_inv hash d"
  defines "ht \<equiv> (if second then ht1 d else ht0 d)"
  assumes ne: "ht_table ht \<noteq> []" and b: "chain_unlink key (ht_table ht ! dict_idx hash ht key) = Some b"
  defines "ht' \<equiv> ht\<lparr>ht_table := (ht_table ht)[dict_idx hash ht key := b], ht_used := ht_used ht - 1\<rparr>"
  defines "d' \<equiv> (if second then d\<lparr>ht1 := ht'\<rparr> else d\<lparr>ht0 := ht'\<rparr>)"
  shows "dict_inv hash d' \<and> dict_map hash d' = (dict_map hash d)(key := None) \<and> iterators d' = iterators d
    \<and> ht_lookup hash ht key \<noteq> None"
proof -
  have ok: "ht_ok hash ht" using inv by (simp add: ht_def dict_inv_def)
  have i: "dict_idx hash ht key < length (ht_table ht)" by (rule ht_ok_idx [OF ok ne])
  have dist: "distinct (map fst (ht_table ht ! dict_idx hash ht key))"
    using ht_ok_placed [OF ok i] by (simp add: ht_placed_def)
  note un = chain_unlink_Some [OF b dist]
  have key: "ht_lookup hash ht key \<noteq> None" using un(1) ht_bucket(2) [OF ok ne] by simp
  then have pos: "0 < ht_used ht" using ht_used_0 [OF ok] by auto
  note u = dict_update_bucket [OF inv ne [unfolded ht_def] key [unfolded ht_def], folded ht_def,
      OF un(4) image_mono [OF un(3)] un(2), of "ht_used ht - 1"]
  have "ht_used ht - 1 + length (ht_table ht ! dict_idx hash ht key) = ht_used ht + length b"
    using un(5) pos by linarith
  from u [OF this] show ?thesis using key unfolding d'_def ht'_def by blast
qed

lemma dictDelete_correct:
  assumes inv: "dict_inv hash d"
  shows "\<exists>d'. dictDelete hash d key = Some (d', dict_map hash d key \<noteq> None) \<and> dict_inv hash d'
    \<and> dict_map hash d' = (dict_map hash d)(key := None) \<and> iterators d' = iterators d"
proof (cases "ht_size (ht0 d) = 0")
  case True
  then have "ht_table (ht0 d) = []" using ht_size_0_iff [OF dict_inv_oks(1) [OF inv]] by simp
  then have "dict_map hash d = Map.empty" using dict_table0 [OF inv] dict_map_empty [OF inv] by auto
  then show ?thesis using True inv by (auto simp: dictDelete_def dictGenericDelete_def)
next
  case False
  then have "ht_table (ht0 d) \<noteq> []" using ht_size_0_iff [OF dict_inv_oks(1) [OF inv]] by simp
  then obtain d1 where d1: "(if dictIsRehashing d then dictRehashStep hash d else Some d) = Some d1"
    "dict_keeps hash d d1" "ht_table (ht0 d1) \<noteq> []" using dict_step [OF inv] by blast
  have inv1: "dict_inv hash d1" and m1: "dict_map hash d1 = dict_map hash d" "iterators d1 = iterators d"
    using d1(2) by (auto simp: dict_keeps_def)
  let ?i0 = "dict_idx hash (ht0 d1) key" and ?i1 = "dict_idx hash (ht1 d1) key"
  note b0 = ht_bucket [OF dict_inv_oks(1) [OF inv1] d1(3), of key]
  show ?thesis
  proof (cases "chain_unlink key (ht_table (ht0 d1) ! ?i0)")
    case (Some b)
    then show ?thesis
      using dict_delete_from [OF inv1, of False key b] d1 b0 m1 False dict_map_lookup [OF inv1, of key]
      by (auto simp: dictDelete_def dictGenericDelete_def Let_def)
  next
    case None
    then have l0: "ht_lookup hash (ht0 d1) key = None" using b0(2) by (simp add: chain_unlink_None)
    have m: "dict_map hash d key = ht_lookup hash (ht1 d1) key"
      using l0 dict_map_lookup [OF inv1, of key] m1 by simp
    show ?thesis
    proof (cases "dictIsRehashing d1")
      case re: True
      then have t1: "ht_table (ht1 d1) \<noteq> []" using inv1 by (simp add: dict_inv_def)
      note b1 = ht_bucket [OF dict_inv_oks(2) [OF inv1] t1, of key]
      show ?thesis
      proof (cases "chain_unlink key (ht_table (ht1 d1) ! ?i1)")
        case (Some b)
        then show ?thesis
          using dict_delete_from [OF inv1, of True key b] d1 b0 b1 m1 m False None re t1
          by (auto simp: dictDelete_def dictGenericDelete_def Let_def)
      next
        case none: None
        then have "dict_map hash d key = None" using m b1(2) by (simp add: chain_unlink_None)
        then show ?thesis using none None d1 b0 b1 m1 False re inv1
          by (auto simp: dictDelete_def dictGenericDelete_def Let_def fun_upd_idem)
      qed
    next
      case nre: False
      then have "dict_map hash d key = None" using m dict_not_rehashing(1) [OF inv1] by simp
      then show ?thesis using None d1 b0 m1 False nre inv1
        by (auto simp: dictDelete_def dictGenericDelete_def Let_def fun_upd_idem)
    qed
  qed
qed

section \<open>Releasing a table\<close>

lemma dictClear_loop_correct:
  assumes "ht_ok hash ht" and "used = sum_list (map length (drop i (ht_table ht)))"
  shows "dictClear_loop ht i used = Some (concat (drop i (ht_table ht)))"
  using assms(2)
proof (induction "length (ht_table ht) - i" arbitrary: i used)
  case 0
  then show ?case using ht_ok_size [OF assms(1)] by (subst dictClear_loop.simps) auto
next
  case (Suc n)
  then have i: "i < length (ht_table ht)" by simp
  have drop: "drop i (ht_table ht) = ht_table ht ! i # drop (i + 1) (ht_table ht)"
    using i by (simp add: Cons_nth_drop_Suc)
  show ?case
  proof (cases "used = 0")
    case True
    then have "concat (drop i (ht_table ht)) = []" using Suc.prems by (auto simp: sum_list_eq_0_iff)
    then show ?thesis using True by (subst dictClear_loop.simps) auto
  next
    case False
    have "dictClear_loop ht (i + 1) (used - length (ht_table ht ! i)) = Some (concat (drop (i + 1) (ht_table ht)))"
      using Suc.hyps(2) Suc.prems by (intro Suc.hyps(1)) (auto simp: drop)
    then show ?thesis
      using False i ht_ok_size [OF assms(1)] by (subst dictClear_loop.simps) (simp add: drop)
  qed
qed

lemma dictEmpty_correct:
  assumes "dict_inv hash d"
  shows "\<exists>d'. dictEmpty d = Some (d', concat (ht_table (ht0 d)) @ concat (ht_table (ht1 d)))
    \<and> dict_inv hash d' \<and> dict_map hash d' = Map.empty"
proof -
  have "dictClear_loop (ht0 d) 0 (ht_used (ht0 d)) = Some (concat (ht_table (ht0 d)))"
    "dictClear_loop (ht1 d) 0 (ht_used (ht1 d)) = Some (concat (ht_table (ht1 d)))"
    using dictClear_loop_correct [OF dict_inv_oks(1) [OF assms], of "ht_used (ht0 d)" 0]
      dictClear_loop_correct [OF dict_inv_oks(2) [OF assms], of "ht_used (ht1 d)" 0]
    by (simp_all add: ht_ok_used [OF dict_inv_oks(1) [OF assms]] ht_ok_used [OF dict_inv_oks(2) [OF assms]])
  then show ?thesis
    by (auto simp: dictEmpty_def dictClear_def dict_inv_def dict_map_def dictIsRehashing_def)
qed

lemma dictReplaceRaw_correct:
  assumes inv: "dict_inv hash d" and sz: "dictSize d \<le> 2 ^ 60"
  shows "\<exists>d' r. dictReplaceRaw hash can_resize d k v = Some (d', r) \<and> dict_inv hash d' \<and> iterators d' = iterators d
    \<and> dict_map hash d' = (if dict_map hash d k = None then (dict_map hash d)(k \<mapsto> v) else dict_map hash d)"
proof -
  obtain d1 r where f: "dictFind hash d k = Some (d1, r)" "dict_keeps hash d d1"
    "r = None \<longleftrightarrow> dict_map hash d k = None" using dictFind_correct [OF inv] by blast
  have inv1: "dict_inv hash d1" and sz1: "dictSize d1 \<le> 2 ^ 60"
    using f(2) dict_keeps_size [OF inv f(2)] sz by (auto simp: dict_keeps_def)
  show ?thesis
    using f dictAdd_correct [OF inv1 sz1, of can_resize k v]
    by (cases r) (auto simp: dictReplaceRaw_def dictAdd_def dict_keeps_def)
qed

section \<open>The map interface\<close>

interpretation dict_table: map_store "dictAdd hash can_resize" "dictReplace hash can_resize" "dictDelete hash"
  "dictFetchValue hash" "dict_map hash" "dict_inv hash" "2 ^ 60"
  for hash :: "'k \<Rightarrow> u32" and can_resize
proof unfold_locales
  fix d :: "('k, 'v) dict" and k :: 'k and v :: 'v
  assume inv: "dict_inv hash d"
  show "finite (dom (dict_map hash d))" by (rule dict_inv_dom(1) [OF inv])
  show "\<exists>d'. dictDelete hash d k = Some (d', dict_map hash d k \<noteq> None) \<and> dict_inv hash d'
      \<and> dict_map hash d' = (dict_map hash d)(k := None)"
    using dictDelete_correct [OF inv] by blast
  show "\<exists>d'. dictFetchValue hash d k = Some (d', dict_map hash d k) \<and> dict_inv hash d'
      \<and> dict_map hash d' = dict_map hash d"
    using dictFetchValue_correct [OF inv] by (auto simp: dict_keeps_def)
  assume "card (dom (dict_map hash d)) < 2 ^ 60"
  then have sz: "dictSize d \<le> 2 ^ 60" using dict_inv_dom(2) [OF inv] by simp
  show "\<exists>d'. dictAdd hash can_resize d k v = Some (d', dict_map hash d k = None) \<and> dict_inv hash d'
      \<and> dict_map hash d' = (if dict_map hash d k = None then (dict_map hash d)(k \<mapsto> v) else dict_map hash d)"
    using dictAdd_correct [OF inv sz] by blast
  show "\<exists>d'. dictReplace hash can_resize d k v = Some (d', dict_map hash d k = None) \<and> dict_inv hash d'
      \<and> dict_map hash d' = (dict_map hash d)(k \<mapsto> v)"
    using dictReplace_correct [OF inv sz] by blast
qed

interpretation dict_keys: key_table "dictAdd hash can_resize" "dictReplace hash can_resize" "dictDelete hash"
  "dictFetchValue hash" "dict_map hash" "dict_inv hash" "2 ^ 60"
  for hash :: "'k \<Rightarrow> u32" and can_resize ..

section \<open>Histories with resizing\<close>

text \<open>
  What happens to a dictionary over its life: calls of its clients, and in between
  \<open>dictResize\<close> and \<open>dictRehashMilliseconds\<close> from the server's cron job, with resizing
  disabled and enabled again around background saves.
\<close>

datatype ('k, 'v) dict_event = Call "('k, 'v) map_call" | Resize | RehashMs nat | EnableResize | DisableResize

fun dict_event_step :: "('k \<Rightarrow> u32) \<Rightarrow> ('k, 'v) dict \<times> bool \<Rightarrow> ('k, 'v) dict_event \<Rightarrow>
    ((('k, 'v) dict \<times> bool) \<times> 'v map_answer list) option" where
  "dict_event_step hash (d, can_resize) (Call c) =
     map_option (\<lambda>(d, a). ((d, can_resize), [a]))
       (map_store_call (dictAdd hash can_resize) (dictReplace hash can_resize) (dictDelete hash)
         (dictFetchValue hash) d c)"
| "dict_event_step hash (d, can_resize) Resize = Some ((fst (dictResize can_resize d), can_resize), [])"
| "dict_event_step hash (d, can_resize) (RehashMs turns) =
     map_option (\<lambda>(d, _). ((d, can_resize), [])) (dictRehashMilliseconds hash turns d)"
| "dict_event_step hash (d, can_resize) EnableResize = Some ((d, True), [])"
| "dict_event_step hash (d, can_resize) DisableResize = Some ((d, False), [])"

fun dict_event_run :: "('k \<Rightarrow> u32) \<Rightarrow> ('k, 'v) dict \<times> bool \<Rightarrow> ('k, 'v) dict_event list \<Rightarrow>
    ((('k, 'v) dict \<times> bool) \<times> 'v map_answer list) option" where
  "dict_event_run hash s [] = Some (s, [])"
| "dict_event_run hash s (e # es) = do {
     (s, a) \<leftarrow> dict_event_step hash s e;
     (s, as) \<leftarrow> dict_event_run hash s es;
     Some (s, a @ as)
   }"

fun event_calls :: "('k, 'v) dict_event list \<Rightarrow> ('k, 'v) map_call list" where
  "event_calls [] = []"
| "event_calls (e # es) = (case e of Call c \<Rightarrow> [c] | _ \<Rightarrow> []) @ event_calls es"

lemma dictRehashMilliseconds_correct:
  assumes "dict_inv hash d"
  shows "\<exists>d' n. dictRehashMilliseconds hash turns d = Some (d', n) \<and> dict_keeps hash d d'"
  using assms
proof (induction turns arbitrary: d)
  case (Suc turns)
  obtain d1 more where r: "dictRehash hash d 100 = Some (d1, more)" "dict_keeps hash d d1"
    using dictRehash_correct [OF Suc.prems] by blast
  obtain d2 n where "dictRehashMilliseconds hash turns d1 = Some (d2, n)" "dict_keeps hash d1 d2"
    using Suc.IH [of d1] r(2) by (auto simp: dict_keeps_def)
  then show ?case
    using r dict_keeps_trans [OF r(2)] by (subst dictRehashMilliseconds.simps) auto
next
  case 0
  then show ?case
    using dictRehash_correct [OF 0, of 100] by (subst dictRehashMilliseconds.simps) auto
qed

lemma dict_event_step_correct:
  assumes inv: "dict_inv hash d" and sz: "dictSize d < 2 ^ 60"
  shows "\<exists>d' cr'. dict_event_step hash (d, cr) e
      = Some ((d', cr'), snd (map_run (dict_map hash d) (event_calls [e])))
    \<and> dict_inv hash d' \<and> dict_map hash d' = fst (map_run (dict_map hash d) (event_calls [e]))"
proof (cases e)
  case (Call c)
  have "card (dom (dict_map hash d)) < 2 ^ 60" using sz dict_inv_dom(2) [OF inv] by simp
  from dict_table.call_refines [OF inv this, of cr c] show ?thesis
    by (auto simp: Call split_def Let_def)
next
  case Resize
  obtain d' ok where e: "dictResize cr d = (d', ok)" by fastforce
  from dictResize_correct [OF inv _ e] sz show ?thesis by (auto simp: Resize e)
next
  case (RehashMs turns)
  from dictRehashMilliseconds_correct [OF inv, of turns] show ?thesis
    by (auto simp: RehashMs dict_keeps_def)
qed (use inv in auto)

lemma dict_event_run_correct:
  assumes "dict_inv hash d" and "dictSize d + length es \<le> 2 ^ 60"
  shows "\<exists>d' cr'. dict_event_run hash (d, cr) es
      = Some ((d', cr'), snd (map_run (dict_map hash d) (event_calls es)))
    \<and> dict_inv hash d' \<and> dict_map hash d' = fst (map_run (dict_map hash d) (event_calls es))"
  using assms
proof (induction es arbitrary: d cr)
  case (Cons e es)
  let ?m = "map_run (dict_map hash d) (event_calls [e])"
  obtain d1 cr1 where s: "dict_event_step hash (d, cr) e = Some ((d1, cr1), snd ?m)"
    "dict_inv hash d1" "dict_map hash d1 = fst ?m"
    using dict_event_step_correct [OF Cons.prems(1)] Cons.prems(2) by fastforce
  have "card (dom (fst ?m)) \<le> card (dom (dict_map hash d)) + 1"
    using dict_table.map_step_card [OF dict_inv_dom(1) [OF Cons.prems(1)]]
    by (cases e) (auto simp: split_def Let_def)
  then have "dictSize d1 + length es \<le> 2 ^ 60"
    using Cons.prems(2) dict_inv_dom(2) [OF Cons.prems(1)] dict_inv_dom(2) [OF s(2)] s(3) by simp
  from Cons.IH [OF s(2) this, of cr1] show ?case
    using s by (cases e) (auto simp: split_def Let_def)
qed simp

fun dictRehash_repeat :: "('k \<Rightarrow> u32) \<Rightarrow> nat \<Rightarrow> nat \<Rightarrow> ('k, 'v) dict \<Rightarrow> ('k, 'v) dict option" where
  "dictRehash_repeat hash 0 n d = Some d"
| "dictRehash_repeat hash (Suc k) n d = do { (d, _) \<leftarrow> dictRehash hash d n; dictRehash_repeat hash k n d }"

lemma dictRehash_repeat_correct:
  assumes "dict_inv hash d" and "n > 0"
  shows "\<exists>d'. dictRehash_repeat hash k n d = Some d' \<and> dict_keeps hash d d'
    \<and> (dictIsRehashing d' \<longrightarrow> dictIsRehashing d \<and> rehashidx d + int k \<le> rehashidx d' \<and> ht_size (ht0 d') = ht_size (ht0 d))"
  using assms(1)
proof (induction k arbitrary: d)
  case 0
  then show ?case by (auto intro: dict_keeps_refl)
next
  case (Suc k)
  obtain d1 b where r: "dictRehash hash d n = Some (d1, b)" "dict_keeps hash d d1"
    "dictIsRehashing d1 \<longrightarrow> dictIsRehashing d"
    "dictIsRehashing d1 \<longrightarrow> rehashidx d < rehashidx d1 \<and> ht_size (ht0 d1) = ht_size (ht0 d)"
    using dictRehash_correct [OF Suc.prems, of n] assms(2) by auto
  have inv1: "dict_inv hash d1" using r(2) by (simp add: dict_keeps_def)
  obtain d2 where d2: "dictRehash_repeat hash k n d1 = Some d2" "dict_keeps hash d1 d2"
    "dictIsRehashing d2 \<longrightarrow> dictIsRehashing d1 \<and> rehashidx d1 + int k \<le> rehashidx d2 \<and> ht_size (ht0 d2) = ht_size (ht0 d1)"
    using Suc.IH [OF inv1] by blast
  show ?case using r d2 dict_keeps_trans [OF r(2) d2(2)] by auto
qed

section \<open>Properties\<close>





end
