(* ===== verification/DictIter.thy ===== *)
theory DictIter
  imports DictMap
begin

text \<open>
  The rest of \<open>dict.c\<close>: iterators with their fingerprint, random sampling, and the
  stateless cursor scan \<open>dictScan\<close>. The addresses of the tables that enter the
  fingerprint and the results of \<open>random()\<close> are arguments.
\<close>

unbundle bit_operations_syntax

section \<open>Iterators\<close>

text \<open>
  Tomas Wang's integer hash on \<open>long long\<close>; the shift to the right is arithmetic
  (\<open>signed_drop_bit\<close>), sums and shifts to the left wrap around.
\<close>

definition fingerprint_mix :: "u64 \<Rightarrow> u64" where
  "fingerprint_mix hash = (
     let hash = (NOT hash) + (push_bit 21 hash);
         hash = hash XOR signed_drop_bit 24 hash;
         hash = (hash + push_bit 3 hash) + push_bit 8 hash;
         hash = hash XOR signed_drop_bit 14 hash;
         hash = (hash + push_bit 2 hash) + push_bit 4 hash;
         hash = hash XOR signed_drop_bit 28 hash
     in hash + push_bit 31 hash)"

definition dictFingerprint :: "u64 \<Rightarrow> u64 \<Rightarrow> ('k, 'v) dict \<Rightarrow> u64" where
  "dictFingerprint addr0 addr1 d =
     foldl (\<lambda>hash i. fingerprint_mix (hash + i)) 0
       [addr0, of_nat (ht_size (ht0 d)), of_nat (ht_used (ht0 d)),
        addr1, of_nat (ht_size (ht1 d)), of_nat (ht_used (ht1 d))]"

text \<open>
  \<open>entry\<close> and \<open>nextEntry\<close> point into a chain; an entry is given with the part of the
  chain that follows it.
\<close>

record ('k, 'v) dictIterator =
  it_table :: nat
  it_index :: int
  it_safe :: bool
  it_entry :: "('k \<times> 'v) option"
  it_nextEntry :: "('k \<times> 'v) list"
  it_fingerprint :: u64

definition dictGetIterator :: "('k, 'v) dictIterator" where
  "dictGetIterator = \<lparr>it_table = 0, it_index = - 1, it_safe = False, it_entry = None,
     it_nextEntry = [], it_fingerprint = 0\<rparr>"

definition dictGetSafeIterator :: "('k, 'v) dictIterator" where
  "dictGetSafeIterator = dictGetIterator\<lparr>it_safe := True\<rparr>"

text \<open>The chain at the iterator: \<open>Some []\<close> stands for a NULL entry.\<close>

definition dictNext_start :: "u64 \<Rightarrow> u64 \<Rightarrow> ('k, 'v) dict \<Rightarrow> ('k, 'v) dictIterator \<Rightarrow>
    ('k, 'v) dict \<times> ('k, 'v) dictIterator" where
  "dictNext_start addr0 addr1 d iter =
     (if it_index iter = - 1 \<and> it_table iter = 0
      then if it_safe iter then (d\<lparr>iterators := iterators d + 1\<rparr>, iter)
           else (d, iter\<lparr>it_fingerprint := dictFingerprint addr0 addr1 d\<rparr>)
      else (d, iter))"

text \<open>The next bucket, and whether there is one.\<close>

definition iter_ht :: "('k, 'v) dict \<Rightarrow> ('k, 'v) dictIterator \<Rightarrow> ('k, 'v) dictht" where
  "iter_ht d iter = (if it_table iter = 0 then ht0 d else ht1 d)"

definition dictNext_advance :: "('k, 'v) dict \<Rightarrow> ('k, 'v) dictIterator \<Rightarrow> ('k, 'v) dictIterator \<times> bool" where
  "dictNext_advance d iter = (
     let index = it_index iter + 1 in
     if index \<ge> int (ht_size (iter_ht d iter)) then
       if dictIsRehashing d \<and> it_table iter = 0 then (iter\<lparr>it_table := 1, it_index := 0\<rparr>, True)
       else (iter\<lparr>it_index := index\<rparr>, False)
     else (iter\<lparr>it_index := index\<rparr>, True))"

definition iter_todo :: "('k, 'v) dict \<Rightarrow> ('k, 'v) dictIterator \<Rightarrow> nat" where
  "iter_todo d iter = nat (int (length (ht_table (iter_ht d iter))) - it_index iter)"

lemma dictNext_advance_todo:
  assumes "dictNext_advance d iter = (iter', True)" and "get_at (ht_table (iter_ht d iter')) (it_index iter') = Some b"
  shows "it_table iter = 0 \<and> it_table iter' = 1 \<or> it_table iter' = it_table iter \<and> iter_todo d iter' < iter_todo d iter"
  using assms by (auto simp: dictNext_advance_def Let_def iter_todo_def get_at_def iter_ht_def split: if_splits)

function dictNext_loop :: "('k, 'v) dict \<Rightarrow> ('k, 'v) dictIterator \<Rightarrow>
    (('k, 'v) dictIterator \<times> ('k \<times> 'v) option) option" where
  "dictNext_loop d iter =
     (case dictNext_advance d iter of
        (iter, False) \<Rightarrow> Some (iter, None)
      | (iter, True) \<Rightarrow>
          (case get_at (ht_table (iter_ht d iter)) (it_index iter) of
             None \<Rightarrow> None
           | Some (e # es) \<Rightarrow> Some (iter\<lparr>it_entry := Some e, it_nextEntry := es\<rparr>, Some e)
           | Some [] \<Rightarrow> dictNext_loop d iter))"
  by pat_completeness auto
termination
proof (relation "measures [\<lambda>(d, iter). (if it_table iter = 0 then 1 else 0), \<lambda>(d, iter). iter_todo d iter]")
  show "wf (measures [\<lambda>(d, iter). (if it_table iter = 0 then 1 else 0 :: nat), \<lambda>(d, iter). iter_todo d iter])"
    by simp
qed (auto dest!: dictNext_advance_todo [OF sym])

declare dictNext_loop.simps [simp del]

definition dictNext :: "u64 \<Rightarrow> u64 \<Rightarrow> ('k, 'v) dict \<Rightarrow> ('k, 'v) dictIterator \<Rightarrow>
    (('k, 'v) dict \<times> ('k, 'v) dictIterator \<times> ('k \<times> 'v) option) option" where
  "dictNext addr0 addr1 d iter =
     (case it_entry iter of
        Some _ \<Rightarrow>
          (case it_nextEntry iter of
             e # es \<Rightarrow> Some (d, iter\<lparr>it_entry := Some e, it_nextEntry := es\<rparr>, Some e)
           | [] \<Rightarrow> map_option (Pair d) (dictNext_loop d (iter\<lparr>it_entry := None\<rparr>)))
      | None \<Rightarrow>
          let (d, iter) = dictNext_start addr0 addr1 d iter
          in map_option (Pair d) (dictNext_loop d iter))"

text \<open>The failed assertion on a changed fingerprint is \<open>None\<close>.\<close>

definition dictReleaseIterator :: "u64 \<Rightarrow> u64 \<Rightarrow> ('k, 'v) dict \<Rightarrow> ('k, 'v) dictIterator \<Rightarrow> ('k, 'v) dict option" where
  "dictReleaseIterator addr0 addr1 d iter =
     (if it_index iter = - 1 \<and> it_table iter = 0 then Some d
      else if it_safe iter then Some (d\<lparr>iterators := iterators d - 1\<rparr>)
      else if it_fingerprint iter = dictFingerprint addr0 addr1 d then Some d else None)"

text \<open>The loop of a client: \<open>while((de = dictNext(di)) != NULL)\<close>, at most \<open>n\<close> times.\<close>

fun dict_iterate :: "nat \<Rightarrow> u64 \<Rightarrow> u64 \<Rightarrow> ('k, 'v) dict \<Rightarrow> ('k, 'v) dictIterator \<Rightarrow>
    (('k, 'v) dict \<times> ('k, 'v) dictIterator \<times> ('k \<times> 'v) list) option" where
  "dict_iterate 0 addr0 addr1 d iter = None"
| "dict_iterate (Suc n) addr0 addr1 d iter = do {
     (d, iter, e) \<leftarrow> dictNext addr0 addr1 d iter;
     case e of
       None \<Rightarrow> Some (d, iter, [])
     | Some e \<Rightarrow> map_option (\<lambda>(d, iter, es). (d, iter, e # es)) (dict_iterate n addr0 addr1 d iter)
   }"

subsection \<open>Iterating visits every entry once\<close>

definition iter_rest :: "('k, 'v) dict \<Rightarrow> ('k, 'v) dictIterator \<Rightarrow> ('k \<times> 'v) list" where
  "iter_rest d iter = (if it_entry iter = None then [] else it_nextEntry iter)
     @ concat (drop (nat (it_index iter + 1)) (ht_table (iter_ht d iter)))
     @ (if it_table iter = 0 \<and> dictIsRehashing d then concat (ht_table (ht1 d)) else [])"

definition iter_ok :: "('k, 'v) dictIterator \<Rightarrow> bool" where
  "iter_ok iter \<longleftrightarrow> - 1 \<le> it_index iter \<and> it_table iter \<le> 1"

definition iter_started :: "('k, 'v) dictIterator \<Rightarrow> bool" where
  "iter_started iter \<longleftrightarrow> \<not> (it_index iter = - 1 \<and> it_table iter = 0)"

lemma iter_update_simps [simp]:
  "iter_ht d (iter\<lparr>it_index := x\<rparr>) = iter_ht d iter"
  "iter_ht d (iter\<lparr>it_entry := e\<rparr>) = iter_ht d iter"
  "iter_ht d (iter\<lparr>it_nextEntry := es\<rparr>) = iter_ht d iter"
  "iter_ht (d\<lparr>iterators := n\<rparr>) iter = iter_ht d iter"
  by (auto simp: iter_ht_def)

lemma drop_eq_Cons:
  assumes "0 \<le> i + 1" and "i + 1 < int (length xs)"
  shows "drop (nat (i + 1)) xs = xs ! nat (i + 1) # drop (nat (i + 2)) xs"
proof -
  have "nat (i + 1) < length xs" "nat (i + 2) = Suc (nat (i + 1))" using assms by linarith+
  then show ?thesis by (simp add: Cons_nth_drop_Suc)
qed

lemma dictNext_advance_rest:
  assumes inv: "dict_inv hash d" and ok: "iter_ok iter" and e: "it_entry iter = None"
    and adv: "dictNext_advance d iter = (iter', found)"
  shows "\<not> found \<Longrightarrow> iter_rest d iter = []"
    and "found \<Longrightarrow> \<exists>b. get_at (ht_table (iter_ht d iter')) (it_index iter') = Some b
      \<and> iter_rest d iter = b @ iter_rest d iter' \<and> it_entry iter' = None"
    and "iter_ok iter' \<and> it_safe iter' = it_safe iter \<and> iter_started iter'
      \<and> it_fingerprint iter' = it_fingerprint iter"
proof -
  have size: "ht_size (iter_ht d iter) = length (ht_table (iter_ht d iter))" for iter :: "('a, 'b) dictIterator"
    using ht_ok_size [OF dict_inv_oks(1) [OF inv]] ht_ok_size [OF dict_inv_oks(2) [OF inv]]
    by (simp add: iter_ht_def)
  have ht1: "dictIsRehashing d \<Longrightarrow> ht_table (ht1 d) \<noteq> []" using inv by (simp add: dict_inv_def)
  let ?in = "it_index iter + 1 < int (length (ht_table (iter_ht d iter)))"
  show "iter_ok iter' \<and> it_safe iter' = it_safe iter \<and> iter_started iter' \<and> it_fingerprint iter' = it_fingerprint iter"
    using adv ok by (auto simp: dictNext_advance_def iter_ok_def iter_started_def Let_def split: if_splits)
  show "iter_rest d iter = []" if "\<not> found"
    using adv that e ok by (auto simp: dictNext_advance_def Let_def iter_rest_def size split: if_splits)
  show "\<exists>b. get_at (ht_table (iter_ht d iter')) (it_index iter') = Some b
      \<and> iter_rest d iter = b @ iter_rest d iter' \<and> it_entry iter' = None" if found
  proof (cases ?in)
    case True
    then have i': "iter' = iter\<lparr>it_index := it_index iter + 1\<rparr>"
      using adv by (auto simp: dictNext_advance_def Let_def size)
    have "0 \<le> it_index iter + 1" using ok by (simp add: iter_ok_def)
    then show ?thesis
      using True e drop_eq_Cons [OF _ True] by (simp add: i' iter_rest_def get_at_def add.commute)
  next
    case False
    then have i': "iter' = iter\<lparr>it_table := 1, it_index := 0\<rparr>" "dictIsRehashing d" "it_table iter = 0"
      using adv that by (auto simp: dictNext_advance_def Let_def size split: if_splits)
    have "concat (drop (nat (it_index iter + 1)) (ht_table (iter_ht d iter))) = []"
      using False by auto
    moreover have "ht_table (ht1 d) = ht_table (ht1 d) ! 0 # drop 1 (ht_table (ht1 d))"
      using ht1 [OF i'(2)] by (cases "ht_table (ht1 d)") auto
    then have "concat (ht_table (ht1 d)) = ht_table (ht1 d) ! 0 @ concat (drop 1 (ht_table (ht1 d)))"
      by (metis concat.simps(2))
    ultimately show ?thesis
      using e i' ht1 [OF i'(2)] by (simp add: iter_rest_def iter_ht_def get_at_def)
  qed
qed

lemma dictNext_loop_rest:
  assumes "dict_inv hash d" and "iter_ok iter" and "it_entry iter = None"
  shows "\<exists>iter'. dictNext_loop d iter = Some (iter', case iter_rest d iter of [] \<Rightarrow> None | e # es \<Rightarrow> Some e)
    \<and> iter_ok iter' \<and> it_safe iter' = it_safe iter \<and> iter_started iter'
    \<and> it_fingerprint iter' = it_fingerprint iter
    \<and> (iter_rest d iter \<noteq> [] \<longrightarrow> it_entry iter' \<noteq> None \<and> iter_rest d iter' = tl (iter_rest d iter))"
  using assms
proof (induction d iter rule: dictNext_loop.induct)
  case (1 d iter)
  obtain i1 found where adv: "dictNext_advance d iter = (i1, found)" by fastforce
  note r = dictNext_advance_rest [OF 1(2-4) adv]
  show ?case
  proof (cases found)
    case False
    then show ?thesis using r adv by (subst dictNext_loop.simps) simp
  next
    case True
    obtain b where b: "get_at (ht_table (iter_ht d i1)) (it_index i1) = Some b"
      "iter_rest d iter = b @ iter_rest d i1" "it_entry i1 = None"
      using r(2) [OF True] by blast
    show ?thesis
    proof (cases b)
      case Nil
      have "\<exists>iter'. dictNext_loop d i1 = Some (iter', case iter_rest d i1 of [] \<Rightarrow> None | e # es \<Rightarrow> Some e)
          \<and> iter_ok iter' \<and> it_safe iter' = it_safe i1 \<and> iter_started iter'
          \<and> it_fingerprint iter' = it_fingerprint i1
          \<and> (iter_rest d i1 \<noteq> [] \<longrightarrow> it_entry iter' \<noteq> None \<and> iter_rest d iter' = tl (iter_rest d i1))"
        using True b Nil r(3) "1.prems"(1) by (intro "1.IH" [OF adv [symmetric] _ b(1)]) auto
      then show ?thesis
        using adv True b Nil r(3) by (subst dictNext_loop.simps) auto
    next
      case (Cons e es)
      have "iter_rest d (i1\<lparr>it_entry := Some e, it_nextEntry := es\<rparr>) = es @ iter_rest d i1"
        using b(3) by (simp add: iter_rest_def)
      then show ?thesis
        using adv True b Cons r(3)
        by (subst dictNext_loop.simps) (simp add: iter_ok_def iter_started_def)
    qed
  qed
qed

text \<open>What is left to visit, and the bookkeeping of the whole loop.\<close>

lemma dictNext_rest:
  assumes inv: "dict_inv hash d" and ok: "iter_ok iter" and st: "iter_started iter"
  shows "\<exists>iter'. dictNext addr0 addr1 d iter = Some (d, iter', case iter_rest d iter of [] \<Rightarrow> None | e # es \<Rightarrow> Some e)
    \<and> iter_ok iter' \<and> it_safe iter' = it_safe iter \<and> iter_started iter'
    \<and> it_fingerprint iter' = it_fingerprint iter
    \<and> (iter_rest d iter \<noteq> [] \<longrightarrow> iter_rest d iter' = tl (iter_rest d iter))"
proof (cases "it_entry iter")
  case None
  then have "dictNext_start addr0 addr1 d iter = (d, iter)"
    using st by (auto simp: dictNext_start_def iter_started_def)
  then show ?thesis
    using dictNext_loop_rest [OF inv ok None] None by (auto simp: dictNext_def)
next
  case (Some e0)
  show ?thesis
  proof (cases "it_nextEntry iter")
    case (Cons e es)
    then show ?thesis
      using Some ok st by (auto simp: dictNext_def iter_rest_def iter_ok_def iter_started_def)
  next
    case Nil
    let ?i = "iter\<lparr>it_entry := None\<rparr>"
    have "iter_ok ?i" "iter_rest d ?i = iter_rest d iter" "it_safe ?i = it_safe iter"
      "it_fingerprint ?i = it_fingerprint iter"
      using ok Nil by (auto simp: iter_ok_def iter_rest_def)
    then show ?thesis
      using dictNext_loop_rest [OF inv, of ?i] Some Nil by (auto simp: dictNext_def)
  qed
qed

lemma dict_iterate_rest:
  assumes "dict_inv hash d" and "iter_ok iter" and "iter_started iter" and "length (iter_rest d iter) < n"
  shows "\<exists>iter'. dict_iterate n addr0 addr1 d iter = Some (d, iter', iter_rest d iter)
    \<and> it_safe iter' = it_safe iter \<and> iter_started iter' \<and> it_fingerprint iter' = it_fingerprint iter"
  using assms
proof (induction n arbitrary: iter)
  case (Suc n)
  obtain i1 where i1: "dictNext addr0 addr1 d iter = Some (d, i1, case iter_rest d iter of [] \<Rightarrow> None | e # es \<Rightarrow> Some e)"
    "iter_ok i1" "it_safe i1 = it_safe iter" "iter_started i1" "it_fingerprint i1 = it_fingerprint iter"
    "iter_rest d iter \<noteq> [] \<longrightarrow> iter_rest d i1 = tl (iter_rest d iter)"
    using dictNext_rest [OF Suc.prems(1-3)] by blast
  show ?case
  proof (cases "iter_rest d iter")
    case (Cons e es)
    then obtain i2 where "dict_iterate n addr0 addr1 d i1 = Some (d, i2, es)"
      "it_safe i2 = it_safe iter" "iter_started i2" "it_fingerprint i2 = it_fingerprint iter"
      using Suc.IH [OF Suc.prems(1) i1(2,4)] i1(3,5,6) Suc.prems(4) by auto
    then show ?thesis using i1(1) Cons by simp
  qed (use i1 in auto)
qed simp

text \<open>
  The first call: a safe iterator pauses rehashing, an unsafe one remembers the
  fingerprint.
\<close>

lemma dictNext_first:
  assumes inv: "dict_inv hash d"
    and i: "iter = (if safe then dictGetSafeIterator else dictGetIterator)"
  defines "d' \<equiv> (if safe then d\<lparr>iterators := iterators d + 1\<rparr> else d)"
  shows "\<exists>iter'. dictNext addr0 addr1 d iter
      = Some (d', iter', case iter_rest d iter of [] \<Rightarrow> None | e # es \<Rightarrow> Some e)
    \<and> iter_ok iter' \<and> it_safe iter' = safe \<and> iter_started iter'
    \<and> (\<not> safe \<longrightarrow> it_fingerprint iter' = dictFingerprint addr0 addr1 d)
    \<and> (iter_rest d iter \<noteq> [] \<longrightarrow> iter_rest d' iter' = tl (iter_rest d iter))"
proof -
  let ?i = "if safe then iter else iter\<lparr>it_fingerprint := dictFingerprint addr0 addr1 d\<rparr>"
  have inv': "dict_inv hash d'"
    using inv by (auto simp: d'_def dict_inv_def dictIsRehashing_def)
  have st: "dictNext_start addr0 addr1 d iter = (d', ?i)" "it_entry iter = None"
    by (auto simp: dictNext_start_def i d'_def dictGetSafeIterator_def dictGetIterator_def)
  have ok: "iter_ok ?i" "it_entry ?i = None" "it_safe ?i = safe"
    by (auto simp: iter_ok_def i dictGetSafeIterator_def dictGetIterator_def)
  have rest: "iter_rest d' ?i = iter_rest d iter"
    by (auto simp: iter_rest_def d'_def iter_ht_def dictIsRehashing_def)
  show ?thesis
    using dictNext_loop_rest [OF inv' ok(1,2)] st ok(3) rest
    by (auto simp: dictNext_def split: if_splits)
qed

lemma iter_rest_start:
  assumes "dict_inv hash d"
  shows "iter_rest d (if safe then dictGetSafeIterator else dictGetIterator)
    = concat (ht_table (ht0 d)) @ concat (ht_table (ht1 d))"
  using assms by (auto simp: iter_rest_def dictGetSafeIterator_def dictGetIterator_def iter_ht_def dict_inv_def)

lemma dict_entries:
  assumes "dict_inv hash d"
  defines "es \<equiv> concat (ht_table (ht0 d)) @ concat (ht_table (ht1 d))"
  shows "distinct (map fst es)" and "map_of es = dict_map hash d" and "length es = dictSize d"
proof -
  note ok = dict_inv_oks [OF assms(1)]
  note c0 = ht_lookup_concat [OF ok(1)] and c1 = ht_lookup_concat [OF ok(2)]
  have disj: "dom (ht_lookup hash (ht0 d)) \<inter> dom (ht_lookup hash (ht1 d)) = {}"
    using assms(1) by (simp add: dict_inv_def)
  then show "distinct (map fst es)"
    using c0(2) c1(2) by (simp add: es_def c0(1) c1(1) dom_map_of_conv_image_fst)
  show "map_of es = dict_map hash d"
    using map_add_comm [OF disj] by (simp add: es_def dict_map_def c0(1) c1(1))
  show "length es = dictSize d"
    by (simp add: es_def dictSize_def length_concat ht_ok_used [OF ok(1)] ht_ok_used [OF ok(2)])
qed

lemma dict_iterate_complete:
  assumes inv: "dict_inv hash d" and n: "dictSize d < n"
  shows "\<exists>d' iter. dict_iterate n addr0 addr1 d (if safe then dictGetSafeIterator else dictGetIterator)
      = Some (d', iter, concat (ht_table (ht0 d)) @ concat (ht_table (ht1 d)))
    \<and> dictReleaseIterator addr0 addr1 d' iter = Some d"
proof -
  let ?i = "if safe then dictGetSafeIterator else dictGetIterator :: ('a, 'b) dictIterator"
  define d' where "d' = (if safe then d\<lparr>iterators := iterators d + 1\<rparr> else d)"
  define es where "es = concat (ht_table (ht0 d)) @ concat (ht_table (ht1 d))"
  have rest: "iter_rest d ?i = es" unfolding es_def by (rule iter_rest_start [OF inv])
  obtain i1 where i1: "dictNext addr0 addr1 d ?i = Some (d', i1, case es of [] \<Rightarrow> None | e # es \<Rightarrow> Some e)"
    "iter_ok i1" "it_safe i1 = safe" "iter_started i1"
    "\<not> safe \<longrightarrow> it_fingerprint i1 = dictFingerprint addr0 addr1 d" "es \<noteq> [] \<longrightarrow> iter_rest d' i1 = tl es"
    using dictNext_first [OF inv refl] rest unfolding d'_def by metis
  have inv': "dict_inv hash d'" using inv by (auto simp: d'_def dict_inv_def dictIsRehashing_def)
  have rel: "dictReleaseIterator addr0 addr1 d' i = Some d"
    if "it_safe i = safe" "iter_started i" "\<not> safe \<longrightarrow> it_fingerprint i = dictFingerprint addr0 addr1 d"
    for i :: "('a, 'b) dictIterator"
    using that by (auto simp: dictReleaseIterator_def iter_started_def d'_def)
  obtain m where m: "n = Suc m" "length es \<le> m"
    using n dict_entries(3) [OF inv] by (cases n) (auto simp: es_def)
  show ?thesis
  proof (cases es)
    case Nil
    then show ?thesis unfolding es_def [symmetric] using i1 rel [of i1] m by auto
  next
    case (Cons e es')
    obtain i2 where "dict_iterate m addr0 addr1 d' i1 = Some (d', i2, es')" "it_safe i2 = it_safe i1"
      "iter_started i2" "it_fingerprint i2 = it_fingerprint i1"
      using dict_iterate_rest [OF inv' i1(2,4), of m addr0 addr1] i1(6) Cons m by auto
    then show ?thesis unfolding es_def [symmetric] using i1 rel [of i2] m Cons by auto
  qed
qed

section \<open>Random entries\<close>

text \<open>
  \<open>rnd\<close> is the sequence of results of \<open>random()\<close>; a run that needs more numbers than
  the sequence has is \<open>None\<close>, as is a read outside a table.
\<close>

definition random_pick :: "('k, 'v) dict \<Rightarrow> nat \<Rightarrow> ('k \<times> 'v) list option" where
  "random_pick d r =
     (if dictIsRehashing d then
        let h = (nat (rehashidx d) + r mod (ht_size (ht0 d) + ht_size (ht1 d) - nat (rehashidx d))) mod 2 ^ 32
        in if h \<ge> ht_size (ht0 d) then dict_bucket (ht1 d) (h - ht_size (ht0 d)) else dict_bucket (ht0 d) h
      else dict_bucket (ht0 d) (unat (of_nat r AND ht_sizemask (ht0 d)) mod 2 ^ 32))"

fun random_bucket :: "('k, 'v) dict \<Rightarrow> nat list \<Rightarrow> (('k \<times> 'v) list \<times> nat list) option" where
  "random_bucket d [] = None"
| "random_bucket d (r # rnd) = do {
     he \<leftarrow> random_pick d r;
     if he = [] then random_bucket d rnd else Some (he, rnd)
   }"

definition dictGetRandomKey :: "('k \<Rightarrow> u32) \<Rightarrow> ('k, 'v) dict \<Rightarrow> nat list \<Rightarrow>
    (('k, 'v) dict \<times> ('k \<times> 'v) option) option" where
  "dictGetRandomKey hash d rnd =
     (if dictSize d = 0 then Some (d, None)
      else do {
        d \<leftarrow> (if dictIsRehashing d then dictRehashStep hash d else Some d);
        (he, rnd) \<leftarrow> random_bucket d rnd;
        case rnd of
          [] \<Rightarrow> None
        | r # _ \<Rightarrow> map_option (\<lambda>e. (d, Some e)) (get_at he (int (r mod length he)))
      })"

lemma dict_bucket_eq: "dict_bucket ht i = (if i < length (ht_table ht) then Some (ht_table ht ! i) else None)"
  by (simp add: dict_bucket_def)

lemma dict_bucket_entries:
  assumes "dict_inv hash d" and "dict_bucket (ht0 d) i = Some b \<or> dict_bucket (ht1 d) i = Some b" and "(k, v) \<in> set b"
  shows "dict_map hash d k = Some v"
proof -
  have "(k, v) \<in> set (concat (ht_table (ht0 d)) @ concat (ht_table (ht1 d)))"
    using assms(2,3) by (auto simp: dict_bucket_eq split: if_splits)
  then show ?thesis
    using dict_entries [OF assms(1)] by (metis map_of_eq_Some_iff)
qed

lemma random_bucket_sound:
  assumes "random_bucket d rnd = Some (b, rnd')"
  shows "b \<noteq> [] \<and> (\<exists>i. dict_bucket (ht0 d) i = Some b \<or> dict_bucket (ht1 d) i = Some b)"
  using assms
  by (induction d rnd rule: random_bucket.induct)
     (auto simp: random_pick_def Let_def elim!: option_bind_SomeE split: if_splits)

lemma random_pick_some:
  assumes inv: "dict_inv hash d" and ne: "ht_table (ht0 d) \<noteq> []"
  shows "\<exists>b. random_pick d r = Some b"
proof (cases "dictIsRehashing d")
  case True
  let ?s0 = "ht_size (ht0 d)" and ?s1 = "ht_size (ht1 d)" and ?i = "nat (rehashidx d)"
  have s: "?s0 = length (ht_table (ht0 d))" "?s1 = length (ht_table (ht1 d))" "?i \<le> ?s0" "0 < ?s1"
    using True inv ht_ok_size [OF dict_inv_oks(1) [OF inv]] ht_ok_size [OF dict_inv_oks(2) [OF inv]]
    by (auto simp: dict_inv_def)
  then have "r mod (?s0 + ?s1 - ?i) < ?s0 + ?s1 - ?i" by (intro mod_less_divisor) linarith
  moreover have "(?i + r mod (?s0 + ?s1 - ?i)) mod 2 ^ 32 \<le> ?i + r mod (?s0 + ?s1 - ?i)" by (rule mod_less_eq_dividend)
  ultimately have "(?i + r mod (?s0 + ?s1 - ?i)) mod 2 ^ 32 < ?s0 + ?s1" by linarith
  then obtain h where h: "h = (?i + r mod (?s0 + ?s1 - ?i)) mod 2 ^ 32" "h < ?s0 + ?s1" by blast
  then have "random_pick d r = (if h \<ge> ?s0 then dict_bucket (ht1 d) (h - ?s0) else dict_bucket (ht0 d) h)"
    using True by (simp add: random_pick_def Let_def)
  moreover have "h - ?s0 < length (ht_table (ht1 d))" if "h \<ge> ?s0" using h(2) s(2) that by linarith
  ultimately show ?thesis using s(1) by (auto simp: dict_bucket_eq)
next
  case False
  obtain n where n: "n < 63" "ht_sizemask (ht0 d) = mask n" "length (ht_table (ht0 d)) = 2 ^ n"
    using ht_ok_cases [OF dict_inv_oks(1) [OF inv] ne] by blast
  have "unat (of_nat r AND ht_sizemask (ht0 d)) < 2 ^ n"
    using n by (simp add: take_bit_eq_mask [symmetric] unsigned_take_bit_eq)
  then have "unat (of_nat r AND ht_sizemask (ht0 d)) mod 2 ^ 32 < 2 ^ n"
    using mod_less_eq_dividend order_le_less_trans by blast
  then show ?thesis using False n by (simp add: random_pick_def dict_bucket_eq)
qed

text \<open>Every bucket can be drawn, as long as \<open>random()\<close> (31 bits) covers the tables.\<close>

lemma random_pick_reaches:
  assumes inv: "dict_inv hash d" and ne: "ht_table (ht0 d) \<noteq> []" and sz: "ht_size (ht0 d) + ht_size (ht1 d) \<le> 2 ^ 31"
    and b: "b \<in> set (ht_table (ht0 d)) \<union> set (ht_table (ht1 d))" "b \<noteq> []"
  shows "\<exists>r < 2 ^ 31. random_pick d r = Some b"
proof (cases "dictIsRehashing d")
  case True
  let ?s0 = "ht_size (ht0 d)" and ?s1 = "ht_size (ht1 d)" and ?i = "nat (rehashidx d)"
  have s: "?s0 = length (ht_table (ht0 d))" "?s1 = length (ht_table (ht1 d))" "?i \<le> ?s0"
    and emp: "\<forall>j < ?i. ht_table (ht0 d) ! j = []"
    using True inv ht_ok_size [OF dict_inv_oks(1) [OF inv]] ht_ok_size [OF dict_inv_oks(2) [OF inv]]
    by (auto simp: dict_inv_def)
  obtain h where h: "?i \<le> h" "h < ?s0 + ?s1"
    "(if h \<ge> ?s0 then ht_table (ht1 d) ! (h - ?s0) else ht_table (ht0 d) ! h) = b"
  proof (cases "b \<in> set (ht_table (ht0 d))")
    case True
    then obtain j where "j < length (ht_table (ht0 d))" "ht_table (ht0 d) ! j = b" by (auto simp: in_set_conv_nth)
    moreover from this have "?i \<le> j" using emp b(2) by (metis leI)
    ultimately show ?thesis using s by (intro that [of j]) auto
  next
    case False
    then obtain j where "j < length (ht_table (ht1 d))" "ht_table (ht1 d) ! j = b"
      using b(1) by (auto simp: in_set_conv_nth)
    then show ?thesis using s by (intro that [of "?s0 + j"]) auto
  qed
  have "(h - ?i) mod (?s0 + ?s1 - ?i) = h - ?i" using h by simp
  moreover have "h mod 2 ^ 32 = h" using h sz by simp
  ultimately have "random_pick d (h - ?i) = Some b"
    using True h s by (auto simp: random_pick_def Let_def dict_bucket_eq)
  moreover have "h - ?i < 2 ^ 31" using h sz by linarith
  ultimately show ?thesis by blast
next
  case False
  then have "b \<in> set (ht_table (ht0 d))" using b dict_not_rehashing(1) [OF inv False] by auto
  then obtain j where j: "j < length (ht_table (ht0 d))" "ht_table (ht0 d) ! j = b" by (auto simp: in_set_conv_nth)
  obtain n where n: "n < 63" "ht_sizemask (ht0 d) = mask n" "length (ht_table (ht0 d)) = 2 ^ n" "ht_size (ht0 d) = 2 ^ n"
    using ht_ok_cases [OF dict_inv_oks(1) [OF inv] ne] by blast
  have "(2::nat) ^ n \<le> 2 ^ 31" using sz n(4) by simp
  then have jl: "j < 2 ^ 31" "j < 2 ^ n" using j n by simp_all
  have "unat (of_nat j AND ht_sizemask (ht0 d)) = j"
    using jl n by (simp add: take_bit_eq_mask [symmetric] unsigned_take_bit_eq take_bit_nat_eq_self
        unsigned_of_nat)
  then have "random_pick d j = Some b" using False j jl by (simp add: random_pick_def dict_bucket_eq)
  then show ?thesis using jl by blast
qed

lemma dictGetRandomKey_sound:
  assumes inv: "dict_inv hash d" and r: "dictGetRandomKey hash d rnd = Some (d', Some (k, v))"
  shows "dict_keeps hash d d' \<and> dict_map hash d k = Some v"
proof -
  obtain d1 where d1: "(if dictIsRehashing d then dictRehashStep hash d else Some d) = Some d1" "dict_keeps hash d d1"
    using dict_step [OF inv] by blast
  then obtain b rnd' where b: "random_bucket d1 rnd = Some (b, rnd')" "(k, v) \<in> set b" "d' = d1"
    using r by (auto simp: dictGetRandomKey_def get_at_def elim!: option_bind_SomeE split: if_splits list.splits)
      (metis nth_mem)+
  obtain i where i: "dict_bucket (ht0 d1) i = Some b \<or> dict_bucket (ht1 d1) i = Some b"
    using random_bucket_sound [OF b(1)] by blast
  have "dict_map hash d1 k = Some v"
    using d1(2) by (intro dict_bucket_entries [OF _ i b(2)]) (simp add: dict_keeps_def)
  then show ?thesis using d1(2) b(3) by (simp add: dict_keeps_def)
qed

lemma dictGetRandomKey_reaches:
  assumes inv: "dict_inv hash d" and k: "dict_map hash d k = Some v"
    and sz: "ht_size (ht0 d) + ht_size (ht1 d) \<le> 2 ^ 31" "dictSize d \<le> 2 ^ 31"
  shows "\<exists>rnd d'. (\<forall>r \<in> set rnd. r < 2 ^ 31) \<and> dictGetRandomKey hash d rnd = Some (d', Some (k, v))"
proof -
  obtain d1 where d1: "(if dictIsRehashing d then dictRehashStep hash d else Some d) = Some d1" "dict_keeps hash d d1"
    "ht_size (ht0 d1) + ht_size (ht1 d1) \<le> ht_size (ht0 d) + ht_size (ht1 d)"
    using dict_step [OF inv] by blast
  have inv1: "dict_inv hash d1" and k1: "dict_map hash d1 k = Some v" and sz1: "dictSize d1 = dictSize d"
    using d1(2) k dict_keeps_size [OF inv d1(2)] by (auto simp: dict_keeps_def)
  have ne: "dictSize d \<noteq> 0" using k dict_map_empty [OF inv] by auto
  note es = dict_entries [OF inv1]
  have "(k, v) \<in> set (concat (ht_table (ht0 d1)) @ concat (ht_table (ht1 d1)))"
    using es k1 by (metis map_of_SomeD)
  then obtain b where b: "b \<in> set (ht_table (ht0 d1)) \<union> set (ht_table (ht1 d1))" "(k, v) \<in> set b" by auto
  then have "length b \<le> length (concat (ht_table (ht0 d1)) @ concat (ht_table (ht1 d1)))"
    using member_le_sum_list [of "length b" "map length (ht_table (ht0 d1))"]
      member_le_sum_list [of "length b" "map length (ht_table (ht1 d1))"]
    by (auto simp: length_concat)
  then have len: "length b \<le> 2 ^ 31" using es(3) sz1 sz(2) by simp
  obtain p where p: "p < length b" "b ! p = (k, v)" using b(2) by (auto simp: in_set_conv_nth)
  obtain r where r: "r < 2 ^ 31" "random_pick d1 r = Some b"
    using random_pick_reaches [OF inv1 dict_table0 [OF inv1] _ b(1)] ne sz1 d1(3) sz(1) b(2) by fastforce
  have "dictGetRandomKey hash d [r, p] = Some (d1, Some (k, v))"
    using ne d1(1) r p by (auto simp: dictGetRandomKey_def)
  then show ?thesis using r(1) p len by (intro exI [of _ "[r, p]"]) auto
qed

section \<open>Sampling several entries\<close>

text \<open>\<open>rnd n\<close> is the result of the \<open>n\<close>-th call of \<open>random()\<close>.\<close>

record ('k, 'v) somekeys =
  sk_i :: nat
  sk_emptylen :: nat
  sk_des :: "('k \<times> 'v) list"
  sk_rnd :: nat

text \<open>The inner \<open>while (he)\<close>; the flag tells that the function returned.\<close>

fun somekeys_collect :: "nat \<Rightarrow> ('k \<times> 'v) list \<Rightarrow> ('k \<times> 'v) list \<Rightarrow> ('k \<times> 'v) list \<times> bool" where
  "somekeys_collect count des [] = (des, False)"
| "somekeys_collect count des (he # nexts) =
     (if length des + 1 = count then (des @ [he], True) else somekeys_collect count (des @ [he]) nexts)"

definition somekeys_table :: "(nat \<Rightarrow> nat) \<Rightarrow> ('k, 'v) dict \<Rightarrow> nat \<Rightarrow> bool \<Rightarrow> u64 \<Rightarrow> bool \<Rightarrow>
    ('k, 'v) somekeys \<Rightarrow> (('k, 'v) somekeys \<times> bool) option" where
  "somekeys_table rnd d count two_tables maxsizemask second s = (
     let ht = (if second then ht1 d else ht0 d) in
     if two_tables \<and> \<not> second \<and> int (sk_i s) < rehashidx d
     then Some (if sk_i s \<ge> ht_size (ht1 d) then s\<lparr>sk_i := nat (rehashidx d)\<rparr> else s, False)
     else if sk_i s \<ge> ht_size ht then Some (s, False)
     else do {
       he \<leftarrow> dict_bucket ht (sk_i s);
       if he = [] then
         let s = s\<lparr>sk_emptylen := sk_emptylen s + 1\<rparr> in
         Some (if sk_emptylen s \<ge> 5 \<and> sk_emptylen s > count
               then s\<lparr>sk_i := unat (of_nat (rnd (sk_rnd s)) AND maxsizemask), sk_rnd := sk_rnd s + 1,
                      sk_emptylen := 0\<rparr>
               else s, False)
       else
         let (des, ret) = somekeys_collect count (sk_des s) he in
         Some (s\<lparr>sk_emptylen := 0, sk_des := des\<rparr>, ret)
     })"

fun somekeys_loop :: "(nat \<Rightarrow> nat) \<Rightarrow> ('k, 'v) dict \<Rightarrow> nat \<Rightarrow> bool \<Rightarrow> u64 \<Rightarrow> nat \<Rightarrow>
    ('k, 'v) somekeys \<Rightarrow> ('k, 'v) somekeys option" where
  "somekeys_loop rnd d count two_tables maxsizemask 0 s = Some s"
| "somekeys_loop rnd d count two_tables maxsizemask (Suc maxsteps) s =
     (if length (sk_des s) < count then do {
        (s, ret) \<leftarrow> somekeys_table rnd d count two_tables maxsizemask False s;
        if ret then Some s
        else do {
          (s, ret) \<leftarrow> (if two_tables then somekeys_table rnd d count two_tables maxsizemask True s
                      else Some (s, False));
          if ret then Some s
          else somekeys_loop rnd d count two_tables maxsizemask maxsteps
            (s\<lparr>sk_i := unat ((of_nat (sk_i s) + 1) AND maxsizemask)\<rparr>)
        }
      } else Some s)"

fun somekeys_rehash :: "('k \<Rightarrow> u32) \<Rightarrow> nat \<Rightarrow> ('k, 'v) dict \<Rightarrow> ('k, 'v) dict option" where
  "somekeys_rehash hash 0 d = Some d"
| "somekeys_rehash hash (Suc j) d =
     (if dictIsRehashing d then do { d \<leftarrow> dictRehashStep hash d; somekeys_rehash hash j d } else Some d)"

definition dictGetSomeKeys :: "('k \<Rightarrow> u32) \<Rightarrow> (nat \<Rightarrow> nat) \<Rightarrow> ('k, 'v) dict \<Rightarrow> nat \<Rightarrow>
    (('k, 'v) dict \<times> ('k \<times> 'v) list) option" where
  "dictGetSomeKeys hash rnd d count = (
     let count = (if dictSize d < count then dictSize d else count) in do {
       d \<leftarrow> somekeys_rehash hash count d;
       let two_tables = dictIsRehashing d;
       let maxsizemask = (if two_tables \<and> ht_sizemask (ht0 d) < ht_sizemask (ht1 d)
                          then ht_sizemask (ht1 d) else ht_sizemask (ht0 d));
       let i = unat (of_nat (rnd 0) AND maxsizemask);
       s \<leftarrow> somekeys_loop rnd d count two_tables maxsizemask (count * 10)
             \<lparr>sk_i = i, sk_emptylen = 0, sk_des = [], sk_rnd = 1\<rparr>;
       Some (d, sk_des s)
     })"

lemma somekeys_collect_sound:
  assumes "length des < count"
  shows "length (fst (somekeys_collect count des he)) \<le> count
    \<and> set (fst (somekeys_collect count des he)) \<subseteq> set des \<union> set he
    \<and> (\<not> snd (somekeys_collect count des he) \<longrightarrow> length (fst (somekeys_collect count des he)) < count)"
  using assms
proof (induction he arbitrary: des)
  case (Cons e he)
  show ?case
    using Cons.IH [of "des @ [e]"] Cons.prems by (cases "length des + 1 = count") auto
qed simp

definition somekeys_ok :: "('k \<Rightarrow> u32) \<Rightarrow> ('k, 'v) dict \<Rightarrow> nat \<Rightarrow> ('k, 'v) somekeys \<Rightarrow> bool" where
  "somekeys_ok hash d count s \<longleftrightarrow>
     length (sk_des s) \<le> count \<and> (\<forall>(k, v) \<in> set (sk_des s). dict_map hash d k = Some v)"

lemma somekeys_table_sound:
  assumes inv: "dict_inv hash d" and s: "somekeys_ok hash d count s" "length (sk_des s) < count"
  shows "\<exists>s' ret. somekeys_table rnd d count two m second s = Some (s', ret) \<and> somekeys_ok hash d count s'
    \<and> (\<not> ret \<longrightarrow> length (sk_des s') < count)"
proof -
  let ?ht = "if second then ht1 d else ht0 d"
  have size: "ht_size ?ht = length (ht_table ?ht)"
    using ht_ok_size [OF dict_inv_oks(1) [OF inv]] ht_ok_size [OF dict_inv_oks(2) [OF inv]] by simp
  consider (jump) "two \<and> \<not> second \<and> int (sk_i s) < rehashidx d"
    | (range) "\<not> (two \<and> \<not> second \<and> int (sk_i s) < rehashidx d)" "sk_i s \<ge> ht_size ?ht"
    | (bucket) b where "\<not> (two \<and> \<not> second \<and> int (sk_i s) < rehashidx d)" "\<not> sk_i s \<ge> ht_size ?ht"
        "dict_bucket ?ht (sk_i s) = Some b"
    using size by (auto simp: dict_bucket_eq)
  then show ?thesis
  proof cases
    case bucket
    have mem: "dict_map hash d k = Some v" if "(k, v) \<in> set b" for k v
      using dict_bucket_entries [OF inv _ that] bucket(3) by (metis (full_types))
    have "somekeys_ok hash d count (s\<lparr>sk_emptylen := 0, sk_des := fst (somekeys_collect count (sk_des s) b)\<rparr>)"
      using somekeys_collect_sound [OF s(2), of b] s(1) mem by (auto simp: somekeys_ok_def)
    then show ?thesis
      using bucket s somekeys_collect_sound [OF s(2), of b]
      by (cases "b = []") (auto simp: somekeys_table_def Let_def split_def somekeys_ok_def)
  qed (use s in \<open>auto simp: somekeys_table_def Let_def somekeys_ok_def\<close>)
qed

lemma somekeys_loop_sound:
  assumes "dict_inv hash d" and "somekeys_ok hash d count s"
  shows "\<exists>s'. somekeys_loop rnd d count two m maxsteps s = Some s' \<and> somekeys_ok hash d count s'"
  using assms(2)
proof (induction maxsteps arbitrary: s)
  case (Suc n)
  show ?case
  proof (cases "length (sk_des s) < count")
    case True
    obtain s1 r1 where 1: "somekeys_table rnd d count two m False s = Some (s1, r1)" "somekeys_ok hash d count s1"
      "\<not> r1 \<longrightarrow> length (sk_des s1) < count"
      using somekeys_table_sound [OF assms(1) Suc.prems True] by blast
    show ?thesis
    proof (cases r1)
      case False
      obtain s2 r2 where 2: "(if two then somekeys_table rnd d count two m True s1 else Some (s1, False)) = Some (s2, r2)"
        "somekeys_ok hash d count s2"
        using somekeys_table_sound [OF assms(1) 1(2)] 1(2,3) False by (cases two) fastforce+
      have "somekeys_ok hash d count (s2\<lparr>sk_i := unat ((of_nat (sk_i s2) + 1) AND m)\<rparr>)"
        using 2(2) by (simp add: somekeys_ok_def)
      from Suc.IH [OF this] show ?thesis using True False 1(1) 2 by auto
    qed (use True 1 in auto)
  qed (use Suc.prems in auto)
qed simp

lemma somekeys_rehash_keeps:
  assumes "dict_inv hash d"
  shows "\<exists>d'. somekeys_rehash hash n d = Some d' \<and> dict_keeps hash d d'"
  using assms
proof (induction n arbitrary: d)
  case (Suc n)
  obtain d1 where d1: "(if dictIsRehashing d then dictRehashStep hash d else Some d) = Some d1" "dict_keeps hash d d1"
    using dict_step [OF Suc.prems] by blast
  obtain d2 where "somekeys_rehash hash n d1 = Some d2" "dict_keeps hash d1 d2"
    using Suc.IH [of d1] d1(2) by (auto simp: dict_keeps_def)
  then show ?case using d1 dict_keeps_trans [OF d1(2)] dict_keeps_refl [OF Suc.prems] by auto
qed (auto intro: dict_keeps_refl)

section \<open>Properties\<close>

text \<open>
  C12. An iteration, safe or not, over a dictionary that is not modified meanwhile
  returns every entry exactly once (also in the middle of a rehashing), ends with NULL,
  and releasing the iterator passes the fingerprint assertion and restores the
  dictionary.
\<close>

theorem dictIterator_visits_all:
  assumes "dict_inv hash d" and "dictSize d < n"
  shows "\<exists>d' iter es. dict_iterate n addr0 addr1 d (if safe then dictGetSafeIterator else dictGetIterator)
      = Some (d', iter, es)
    \<and> distinct (map fst es) \<and> map_of es = dict_map hash d \<and> length es = dictSize d
    \<and> dictReleaseIterator addr0 addr1 d' iter = Some d"
  using dict_iterate_complete [OF assms] dict_entries [OF assms(1)] by metis

theorem dictIterator_visits_all_witness:
  "\<exists>d' iter es. dict_iterate 1 7 9 dictCreate (if True then dictGetSafeIterator else dictGetIterator)
      = Some (d', iter, es)
    \<and> distinct (map fst es) \<and> map_of es = dict_map id (dictCreate :: (u32, nat) dict)
    \<and> length es = dictSize (dictCreate :: (u32, nat) dict)
    \<and> dictReleaseIterator 7 9 d' iter = Some dictCreate"
  by (rule dictIterator_visits_all) simp_all

text \<open>
  C14. \<open>dictGetRandomKey\<close> on a non-empty dictionary returns entries of the dictionary
  only, and every entry for some results of \<open>random()\<close>, as long as the tables have at
  most $2^{31}$ buckets together; it changes nothing but the progress of a rehashing.
\<close>

theorem dictGetRandomKey_exact:
  assumes "dict_inv hash d" and "ht_size (ht0 d) + ht_size (ht1 d) \<le> 2 ^ 31" and "dictSize d \<le> 2 ^ 31"
  shows "(\<exists>rnd d'. (\<forall>r \<in> set rnd. r < 2 ^ 31) \<and> dictGetRandomKey hash d rnd = Some (d', Some (k, v))
      \<and> dict_keeps hash d d') \<longleftrightarrow> dict_map hash d k = Some v"
  using dictGetRandomKey_sound [OF assms(1)] dictGetRandomKey_reaches [OF assms(1) _ assms(2,3)] by metis

theorem dictGetRandomKey_exact_witness:
  "let d = \<lparr>ht0 = \<lparr>ht_table = [[], [(5, 20), (1, 10)]], ht_size = 2, ht_sizemask = 1, ht_used = 2\<rparr>,
      ht1 = dictReset, rehashidx = - 1, iterators = 0\<rparr> :: (u32, int) dict
   in (\<exists>rnd d'. (\<forall>r \<in> set rnd. r < 2 ^ 31) \<and> dictGetRandomKey id d rnd = Some (d', Some (1, 10))
      \<and> dict_keeps id d d') \<longleftrightarrow> dict_map id d 1 = Some 10"
proof -
  let ?d = "\<lparr>ht0 = \<lparr>ht_table = [[], [(5, 20), (1, 10)]], ht_size = 2, ht_sizemask = 1, ht_used = 2\<rparr>,
      ht1 = dictReset, rehashidx = - 1, iterators = 0\<rparr> :: (u32, int) dict"
  have idx: "dict_idx id (ht0 ?d) 5 = 1" "dict_idx id (ht0 ?d) 1 = 1" by (simp_all add: dict_idx_def)
  have "ht_ok id (ht0 ?d)" unfolding ht_ok_def ht_placed_def using idx
    by (intro disjI2 exI [of _ 1]) (auto simp: less_Suc_eq)
  then have "dict_inv id ?d" by (simp add: dict_inv_def dictIsRehashing_def)
  then show ?thesis
    unfolding Let_def by (rule dictGetRandomKey_exact) (simp_all add: dictSize_def)
qed



end
