(* ===== verification/DictScan.thy ===== *)
theory DictScan
  imports DictMap
begin

text \<open>
  \<open>dictScan\<close>: a scan of the dictionary that keeps no state but a cursor, which the
  client hands back on the next call, while the dictionary may grow, shrink and be
  rehashed between the calls. The cursor counts in the order of the reversed bits.
\<close>

unbundle bit_operations_syntax

section \<open>Operations\<close>

fun rev_loop :: "nat \<Rightarrow> u64 \<Rightarrow> u64 \<Rightarrow> u64" where
  "rev_loop s m v = (
     let s = s div 2 in
     if s > 0 then
       let m = m XOR push_bit s m;
           v = (drop_bit s v AND m) OR (push_bit s v AND NOT m)
       in rev_loop s m v
     else v)"

declare rev_loop.simps [simp del]

definition rev_cursor :: "u64 \<Rightarrow> u64" where
  "rev_cursor v = rev_loop 64 (NOT 0) v"

text \<open>The expansions of the cursor in the larger table; \<open>None\<close> also if the loop did not end.\<close>

partial_function (option) scan_expansions ::
  "('k, 'v) dictht \<Rightarrow> u64 \<Rightarrow> u64 \<Rightarrow> u64 \<Rightarrow> (('k \<times> 'v) list \<times> u64) option" where
  "scan_expansions t1 m0 m1 v = do {
     de \<leftarrow> dict_bucket t1 (unat (v AND m1));
     let v = (((v OR m0) + 1) AND NOT m0) OR (v AND m0);
     if v AND (m0 XOR m1) \<noteq> 0 then do {
       (es, v) \<leftarrow> scan_expansions t1 m0 m1 v;
       Some (de @ es, v)
     } else Some (de, v)
   }"

text \<open>The entries handed to the callback, in order, and the next cursor.\<close>

definition dictScan :: "('k, 'v) dict \<Rightarrow> u64 \<Rightarrow> (('k \<times> 'v) list \<times> u64) option" where
  "dictScan d v =
     (if dictSize d = 0 then Some ([], 0)
      else do {
        (es, v, m0) \<leftarrow>
          (if \<not> dictIsRehashing d then do {
             let t0 = ht0 d;
             let m0 = ht_sizemask t0;
             de \<leftarrow> dict_bucket t0 (unat (v AND m0));
             Some (de, v, m0)
           } else do {
             let (t0, t1) = (if ht_size (ht0 d) > ht_size (ht1 d) then (ht1 d, ht0 d) else (ht0 d, ht1 d));
             let m0 = ht_sizemask t0;
             let m1 = ht_sizemask t1;
             de \<leftarrow> dict_bucket t0 (unat (v AND m0));
             (es, v) \<leftarrow> scan_expansions t1 m0 m1 v;
             Some (de @ es, v, m0)
           });
        let v = v OR NOT m0;
        let v = rev_cursor v;
        let v = v + 1;
        let v = rev_cursor v;
        Some (es, v)
      })"

text \<open>
  A whole scan: the client starts with cursor 0 and goes on until it gets cursor 0
  back; the \<open>i\<close>-th call finds the dictionary in the \<open>i\<close>-th state of the list.
\<close>

fun scan_run :: "('k, 'v) dict list \<Rightarrow> u64 \<Rightarrow> (('k \<times> 'v) list \<times> u64) option" where
  "scan_run [] v = Some ([], v)"
| "scan_run (d # ds) v = do {
     (es, v) \<leftarrow> dictScan d v;
     if v = 0 then Some (es, 0)
     else do { (es', v) \<leftarrow> scan_run ds v; Some (es @ es', v) }
   }"

section \<open>Reversing bits\<close>

lemma rev_mask_step:
  assumes m: "\<And>i. bit m i \<longleftrightarrow> i < 64 \<and> even (i div (2 * s))" and "0 < s"
  shows "bit (m XOR push_bit s m :: u64) i \<longleftrightarrow> i < 64 \<and> even (i div s)"
proof (cases "i < 64")
  case True
  obtain q r where i: "i = r + s * (2 * q)" and r: "r < 2 * s"
    using assms(2) by (intro that [of "i mod (2 * s)" "i div (2 * s)"]) (simp_all add: mult.assoc [symmetric] mult.commute)
  have i': "i = r + 2 * s * q" by (simp add: i)
  have q: "i div (2 * s) = q" using r assms(2) unfolding i' by (subst div_mult_self2) auto
  have "r div s = (if r < s then 0 else 1)" using r by (auto intro: div_nat_eqI)
  then have div: "even (i div s) \<longleftrightarrow> r < s"
    using assms(2) unfolding i by (subst div_mult_self2) auto
  have "(s \<le> i \<and> even ((i - s) div (2 * s))) \<longleftrightarrow> (if r < s then q \<noteq> 0 \<and> odd q else even q)"
  proof (cases "r < s")
    case True
    show ?thesis
    proof (cases q)
      case (Suc p)
      have "i - s = (r + s) + 2 * s * p" "s \<le> i" using i' Suc by simp_all
      then have "(i - s) div (2 * s) = p" using True assms(2) by (simp add: div_mult_self2)
      then show ?thesis using True Suc \<open>s \<le> i\<close> by simp
    qed (use True i in simp)
  next
    case False
    then have "i - s = (r - s) + 2 * s * q" "s \<le> i" using i' by simp_all
    then have "(i - s) div (2 * s) = q" using r assms(2) by (simp add: div_mult_self2)
    then show ?thesis using False \<open>s \<le> i\<close> by simp
  qed
  then show ?thesis
    using True div q by (auto simp: bit_xor_iff bit_push_bit_iff m)
next
  case False
  then show ?thesis by (auto dest: bit_imp_le_length)
qed

text \<open>One round swaps neighbouring blocks of \<open>s\<close> bits.\<close>

definition rev_swap :: "nat \<Rightarrow> nat \<Rightarrow> nat" where
  "rev_swap s i = (if even (i div s) then i + s else i - s)"

lemma rev_round:
  assumes m: "\<And>i. bit m i \<longleftrightarrow> i < 64 \<and> even (i div s)" and i: "i < 64" "rev_swap s i < 64"
  shows "bit ((drop_bit s v AND m) OR (push_bit s v AND NOT m) :: u64) i \<longleftrightarrow> bit v (rev_swap s i)"
proof (cases "even (i div s)")
  case False
  then have "s \<le> i" by (metis div_less even_zero leI)
  then show ?thesis using False i m
    by (auto simp: bit_simps rev_swap_def)
qed (use i m in \<open>auto simp: bit_simps rev_swap_def add.commute\<close>)

lemma rev_loop_step:
  assumes "\<And>i. bit m i \<longleftrightarrow> i < 64 \<and> even (i div (2 * s))" and "0 < s"
  obtains m' v' where "\<And>i. bit m' i \<longleftrightarrow> i < 64 \<and> even (i div s)" "rev_loop (2 * s) m v = rev_loop s m' v'"
    "\<And>i. i < 64 \<Longrightarrow> rev_swap s i < 64 \<Longrightarrow> bit v' i \<longleftrightarrow> bit v (rev_swap s i)"
proof
  let ?m = "m XOR push_bit s m"
  show m: "bit ?m i \<longleftrightarrow> i < 64 \<and> even (i div s)" for i by (rule rev_mask_step [OF assms])
  show "rev_loop (2 * s) m v = rev_loop s ?m ((drop_bit s v AND ?m) OR (push_bit s v AND NOT ?m))"
    using assms(2) by (subst rev_loop.simps) (simp add: Let_def)
  show "bit ((drop_bit s v AND ?m) OR (push_bit s v AND NOT ?m)) i \<longleftrightarrow> bit v (rev_swap s i)"
    if "i < 64" "rev_swap s i < 64" for i by (rule rev_round [OF m that])
qed

text \<open>After the rounds of 1 to \<open>s / 2\<close> every aligned block of \<open>s\<close> bits is mirrored.\<close>

definition mirror :: "nat \<Rightarrow> nat \<Rightarrow> nat" where
  "mirror s i = s * (i div s) + (s - 1 - i mod s)"

lemma rev_swap_mirror:
  assumes "0 < s"
  shows "rev_swap s (mirror s i) = mirror (2 * s) i"
proof -
  obtain q r where i: "i = r + s * (2 * q)" and r: "r < 2 * s"
    using assms by (intro that [of "i mod (2 * s)" "i div (2 * s)"]) (simp_all add: mult.assoc [symmetric] mult.commute)
  have i': "i = r + 2 * s * q" by (simp add: i)
  have m2: "mirror (2 * s) i = 2 * s * q + (2 * s - 1 - r)"
    unfolding mirror_def i' using r assms by (simp add: div_mult_self2)
  show ?thesis
  proof (cases "r < s")
    case True
    have m1: "mirror s i = s - 1 - r + s * (2 * q)"
      unfolding mirror_def i using True assms by (simp add: div_mult_self2)
    have "mirror s i div s = 2 * q" unfolding m1 using assms by (subst div_mult_self2) auto
    then show ?thesis using m1 m2 True by (simp add: rev_swap_def)
  next
    case False
    then obtain r' where r': "r = r' + s" "r' < s" using r by (metis add.commute le_add_diff_inverse leI mult_2 nat_add_left_cancel_less)
    have "i = r' + s * (2 * q + 1)" using i r' by simp
    then have m1: "mirror s i = s - 1 - r' + s * (2 * q + 1)"
      unfolding mirror_def using r'(2) assms by (simp only: div_mult_self2 mod_mult_self2) simp
    have "mirror s i div s = 2 * q + 1" unfolding m1 using assms by (subst div_mult_self2) auto
    then show ?thesis using m1 m2 r' by (simp add: rev_swap_def)
  qed
qed

lemma mirror_less:
  assumes "i < 64" and "64 = s * c" and "0 < s"
  shows "mirror s i < 64"
proof -
  have "i div s < c" using assms by (simp add: div_less_iff_less_mult mult.commute)
  then have "s * (i div s) + s \<le> s * c" using mult_le_mono2 [of "i div s + 1" c s] by simp
  moreover have "s - 1 - i mod s < s" using assms(3) by linarith
  ultimately show ?thesis unfolding mirror_def using assms(2) by linarith
qed

lemma rev_cursor_reverse: "rev_cursor v = word_reverse v"
proof (rule bit_eqI)
  fix i assume "possible_bit TYPE(64 word) i"
  then have i: "i < 64" by simp
  have "bit (NOT 0 :: u64) i \<longleftrightarrow> i < 64 \<and> even (i div (2 * 32))" for i by (auto simp: bit_simps)
  then obtain m1 v1 where 1: "\<And>i. bit m1 i \<longleftrightarrow> i < 64 \<and> even (i div (2 * 16))"
    "rev_loop 64 (NOT 0) v = rev_loop 32 m1 v1" "\<And>i. i < 64 \<Longrightarrow> rev_swap 32 i < 64 \<Longrightarrow> bit v1 i \<longleftrightarrow> bit v (rev_swap 32 i)"
    by (rule rev_loop_step [where v = v]) auto
  obtain m2 v2 where 2: "\<And>i. bit m2 i \<longleftrightarrow> i < 64 \<and> even (i div (2 * 8))"
    "rev_loop 32 m1 v1 = rev_loop 16 m2 v2" "\<And>i. i < 64 \<Longrightarrow> rev_swap 16 i < 64 \<Longrightarrow> bit v2 i \<longleftrightarrow> bit v1 (rev_swap 16 i)"
    using 1(1) by (rule rev_loop_step [where v = v1]) auto
  obtain m3 v3 where 3: "\<And>i. bit m3 i \<longleftrightarrow> i < 64 \<and> even (i div (2 * 4))"
    "rev_loop 16 m2 v2 = rev_loop 8 m3 v3" "\<And>i. i < 64 \<Longrightarrow> rev_swap 8 i < 64 \<Longrightarrow> bit v3 i \<longleftrightarrow> bit v2 (rev_swap 8 i)"
    using 2(1) by (rule rev_loop_step [where v = v2]) auto
  obtain m4 v4 where 4: "\<And>i. bit m4 i \<longleftrightarrow> i < 64 \<and> even (i div (2 * 2))"
    "rev_loop 8 m3 v3 = rev_loop 4 m4 v4" "\<And>i. i < 64 \<Longrightarrow> rev_swap 4 i < 64 \<Longrightarrow> bit v4 i \<longleftrightarrow> bit v3 (rev_swap 4 i)"
    using 3(1) by (rule rev_loop_step [where v = v3]) auto
  obtain m5 v5 where 5: "\<And>i. bit m5 i \<longleftrightarrow> i < 64 \<and> even (i div (2 * 1))"
    "rev_loop 4 m4 v4 = rev_loop 2 m5 v5" "\<And>i. i < 64 \<Longrightarrow> rev_swap 2 i < 64 \<Longrightarrow> bit v5 i \<longleftrightarrow> bit v4 (rev_swap 2 i)"
    using 4(1) by (rule rev_loop_step [where v = v4]) auto
  obtain m6 v6 where 6: "rev_loop 2 m5 v5 = rev_loop 1 m6 v6"
    "\<And>i. i < 64 \<Longrightarrow> rev_swap 1 i < 64 \<Longrightarrow> bit v6 i \<longleftrightarrow> bit v5 (rev_swap 1 i)"
    using 5(1) by (rule rev_loop_step [where v = v5]) auto
  have "rev_loop 1 m6 v6 = v6" by (subst rev_loop.simps) simp
  then have v6: "rev_cursor v = v6"
    using 1(2) 2(2) 3(2) 4(2) 5(2) 6(1) by (simp only: rev_cursor_def)
  have l: "mirror 1 i = i" "mirror 2 i < 64" "mirror 4 i < 64" "mirror 8 i < 64" "mirror 16 i < 64"
    "mirror 32 i < 64" "mirror 64 i = 63 - i"
    using mirror_less [OF i, of 2 32] mirror_less [OF i, of 4 16] mirror_less [OF i, of 8 8]
      mirror_less [OF i, of 16 4] mirror_less [OF i, of 32 2] i
    by (simp_all add: mirror_def [of "Suc 0"] mirror_def [of 64])
  note sw = rev_swap_mirror [of 1 i] rev_swap_mirror [of 2 i] rev_swap_mirror [of 4 i]
    rev_swap_mirror [of 8 i] rev_swap_mirror [of 16 i] rev_swap_mirror [of 32 i]
  have "bit v6 i \<longleftrightarrow> bit v5 (mirror 2 i)" using 6(2) [OF i] l sw(1) by simp
  also have "\<dots> \<longleftrightarrow> bit v4 (mirror 4 i)" using 5(3) [OF l(2)] l sw(2) by simp
  also have "\<dots> \<longleftrightarrow> bit v3 (mirror 8 i)" using 4(3) [OF l(3)] l sw(3) by simp
  also have "\<dots> \<longleftrightarrow> bit v2 (mirror 16 i)" using 3(3) [OF l(4)] l sw(4) by simp
  also have "\<dots> \<longleftrightarrow> bit v1 (mirror 32 i)" using 2(3) [OF l(5)] l sw(5) by simp
  also have "\<dots> \<longleftrightarrow> bit v (63 - i)" using 1(3) [OF l(6)] l sw(6) i by simp
  also have "bit v (63 - i) \<longleftrightarrow> bit (word_reverse v) i" using i by (simp add: bit_word_reverse_iff)
  finally show "bit (rev_cursor v) i \<longleftrightarrow> bit (word_reverse v) i" unfolding v6 .
qed

section \<open>Cursor arithmetic\<close>

text \<open>The position of a cursor, or of a hash, in the order of the scan.\<close>

definition scan_pos :: "u64 \<Rightarrow> nat" where
  "scan_pos v = unat (word_reverse v)"

lemma scan_pos_less: "scan_pos v < 2 ^ 64"
  using unsigned_less [of "word_reverse v"] by (simp add: scan_pos_def)

lemma word_reverse_0: "word_reverse (0 :: u64) = 0"
  by (rule bit_eqI) (simp add: bit_word_reverse_iff)

lemma scan_pos_0 [simp]: "scan_pos 0 = 0"
  by (simp add: scan_pos_def word_reverse_0)

lemma scan_pos_same_bucket:
  assumes "n \<le> 64"
  shows "take_bit n h = take_bit n v \<longleftrightarrow> scan_pos h div 2 ^ (64 - n) = scan_pos v div 2 ^ (64 - n)"
proof -
  have "take_bit n h = take_bit n v \<longleftrightarrow> drop_bit (64 - n) (word_reverse h) = drop_bit (64 - n) (word_reverse v)"
  proof
    assume t: "take_bit n h = take_bit n v"
    show "drop_bit (64 - n) (word_reverse h) = drop_bit (64 - n) (word_reverse v)"
    proof (rule bit_eqI)
      fix i assume "possible_bit TYPE(64 word) i"
      have "i < n \<Longrightarrow> bit h (n - Suc i) \<longleftrightarrow> bit v (n - Suc i)"
        using arg_cong [OF t, of "\<lambda>x. bit x (n - Suc i)"] by (simp add: bit_take_bit_iff)
      then show "bit (drop_bit (64 - n) (word_reverse h)) i \<longleftrightarrow> bit (drop_bit (64 - n) (word_reverse v)) i"
        using assms by (auto simp: bit_simps bit_word_reverse_iff)
    qed
  next
    assume d: "drop_bit (64 - n) (word_reverse h) = drop_bit (64 - n) (word_reverse v)"
    show "take_bit n h = take_bit n v"
    proof (rule bit_eqI)
      fix i assume "possible_bit TYPE(64 word) i"
      have "i < n \<Longrightarrow> bit h i \<longleftrightarrow> bit v i"
        using arg_cong [OF d, of "\<lambda>x. bit x (n - Suc i)"] assms diff_le_self [of 63 i]
        by (simp add: bit_simps bit_word_reverse_iff less_Suc_eq_le)
      then show "bit (take_bit n h) i \<longleftrightarrow> bit (take_bit n v) i" by (auto simp: bit_take_bit_iff)
    qed
  qed
  also have "\<dots> \<longleftrightarrow> scan_pos h div 2 ^ (64 - n) = scan_pos v div 2 ^ (64 - n)"
    by (simp only: scan_pos_def word_unat_eq_iff unat_drop_div)
  finally show ?thesis .
qed

text \<open>The increment of the reversed cursor moves to the next bucket of the smaller table.\<close>

lemma word_reverse_fill:
  fixes v :: u64
  assumes "n \<le> 64"
  shows "word_reverse (v OR NOT (mask n)) = push_bit (64 - n) (drop_bit (64 - n) (word_reverse v)) OR mask (64 - n)"
proof (rule bit_eqI)
  fix i assume "possible_bit TYPE(64 word) i"
  then show "bit (word_reverse (v OR NOT (mask n))) i
      \<longleftrightarrow> bit (push_bit (64 - n) (drop_bit (64 - n) (word_reverse v)) OR mask (64 - n)) i"
    using assms by (auto simp: bit_simps bit_word_reverse_iff)
qed

lemma scan_pos_next:
  fixes v :: u64
  assumes n: "n \<le> 64"
  defines "v' \<equiv> rev_cursor (rev_cursor (v OR NOT (mask n)) + 1)"
  shows "scan_pos v' = (scan_pos v div 2 ^ (64 - n) + 1) * 2 ^ (64 - n) mod 2 ^ 64"
    and "take_bit n v' = v'"
proof -
  define m where "m = 64 - n"
  define x where "x = rev_cursor (v OR NOT (mask n))"
  have x: "x = push_bit m (drop_bit m (word_reverse v)) OR mask m"
    using word_reverse_fill [OF n] by (simp add: x_def m_def rev_cursor_reverse)
  have "drop_bit m x = drop_bit m (word_reverse v)"
    by (rule bit_eqI) (auto simp: x bit_simps m_def)
  then have q: "unat x div 2 ^ m = scan_pos v div 2 ^ m"
    by (simp only: scan_pos_def flip: unat_drop_div)
  have "take_bit m x = mask m" by (rule bit_eqI) (auto simp: x bit_simps m_def)
  then have "unat x mod 2 ^ m = unat (mask m :: u64)" by (simp only: flip: unat_take_mod)
  also have "\<dots> = 2 ^ m - 1" by (rule unat_mask) (simp add: m_def)
  finally have "unat x = scan_pos v div 2 ^ m * 2 ^ m + (2 ^ m - 1)" using q by (metis div_mult_mod_eq)
  then have "unat x + 1 = (scan_pos v div 2 ^ m + 1) * 2 ^ m" by simp
  moreover have "unat (x + 1) = (unat x + 1) mod 2 ^ 64" by (simp add: unat_word_ariths)
  ultimately have u: "unat (x + 1) = (scan_pos v div 2 ^ m + 1) * 2 ^ m mod 2 ^ 64" by metis
  then show "scan_pos v' = (scan_pos v div 2 ^ (64 - n) + 1) * 2 ^ (64 - n) mod 2 ^ 64"
    by (simp add: scan_pos_def v'_def rev_cursor_reverse x_def m_def)
  have "(2::nat) ^ m dvd 2 ^ 64" by (rule le_imp_power_dvd) (simp add: m_def)
  then have "unat (x + 1) mod 2 ^ m = 0" unfolding u by (subst mod_mod_cancel) auto
  then have z: "take_bit m (x + 1) = 0" by (simp only: word_unat_eq_iff unat_take_mod unsigned_0)
  have v': "v' = word_reverse (x + 1)" by (simp add: v'_def x_def rev_cursor_reverse)
  show "take_bit n v' = v'"
  proof (rule bit_eqI)
    fix i assume "possible_bit TYPE(64 word) i"
    moreover have "bit (x + 1) (63 - i) \<Longrightarrow> 63 - i \<ge> m"
      using arg_cong [OF z, of "\<lambda>y. bit y (63 - i)"] by (auto simp: bit_take_bit_iff)
    ultimately show "bit (take_bit n v') i \<longleftrightarrow> bit v' i"
      using n by (auto simp: bit_take_bit_iff v' bit_word_reverse_iff m_def)
  qed
qed

section \<open>Expansions in the larger table\<close>

lemma scan_increment: "(((v OR mask n) + 1) AND NOT (mask n)) OR (v AND mask n) = v + (2 ^ n :: u64)"
proof -
  let ?P = "push_bit n (drop_bit n v)" and ?Q = "push_bit n (drop_bit n v + 1)"
  have "v OR mask n = ?P OR mask n" by (rule bit_eqI) (auto simp: bit_simps)
  also have "\<dots> = ?P + mask n" by (rule disjunctive_add [symmetric]) (auto simp: bit_simps)
  finally have "(v OR mask n) + 1 = ?Q" by (simp add: mask_eq_exp_minus_1 push_bit_eq_mult distrib_right)
  moreover have "?Q AND NOT (mask n) = ?Q" by (rule bit_eqI) (auto simp: bit_simps)
  moreover have "?Q OR take_bit n v = ?Q + take_bit n v"
    by (rule disjunctive_add [symmetric]) (auto simp: bit_simps)
  moreover have "?Q + take_bit n v = v + 2 ^ n"
    using bits_ident [of n v] by (simp add: push_bit_eq_mult distrib_right ac_simps)
  ultimately show ?thesis by (simp add: take_bit_eq_mask)
qed

lemma scan_next_idx:
  assumes "n1 < 64" and "n0 \<le> n1"
  shows "unat (v + 2 ^ n0 :: u64) mod 2 ^ n1 = (unat v mod 2 ^ n1 + 2 ^ n0) mod 2 ^ n1"
proof -
  have d: "(2::nat) ^ n1 dvd 2 ^ 64" using assms(1) by (intro le_imp_power_dvd) simp
  have "(2 ^ n0 :: u64) = of_nat (2 ^ n0)" by simp
  then have "unat (2 ^ n0 :: u64) = 2 ^ n0 mod 2 ^ 64" by (simp only: unat_of_nat) simp
  then have "unat (v + 2 ^ n0) = (unat v + 2 ^ n0) mod 2 ^ 64" by (simp add: unat_word_ariths mod_add_right_eq)
  then have "unat (v + 2 ^ n0) mod 2 ^ n1 = (unat v + 2 ^ n0) mod 2 ^ n1"
    using d by (simp only: mod_mod_cancel)
  then show ?thesis by (simp only: mod_add_left_eq)
qed

lemma scan_stop_iff:
  assumes "n0 \<le> n1"
  shows "v AND (mask n0 XOR mask n1) = (0 :: u64) \<longleftrightarrow> unat v mod 2 ^ n1 < 2 ^ n0"
proof -
  have "v AND (mask n0 XOR mask n1) = 0 \<longleftrightarrow> take_bit n1 v = take_bit n0 v"
  proof
    assume z: "v AND (mask n0 XOR mask n1) = 0"
    show "take_bit n1 v = take_bit n0 v"
    proof (rule bit_eqI)
      fix i assume "possible_bit TYPE(64 word) i"
      then show "bit (take_bit n1 v) i \<longleftrightarrow> bit (take_bit n0 v) i"
        using arg_cong [OF z, of "\<lambda>x. bit x i"] assms(1) by (auto simp: bit_simps)
    qed
  next
    assume t: "take_bit n1 v = take_bit n0 v"
    show "v AND (mask n0 XOR mask n1) = 0"
    proof (rule bit_eqI)
      fix i
      show "bit (v AND (mask n0 XOR mask n1)) i \<longleftrightarrow> bit 0 i"
        using arg_cong [OF t, of "\<lambda>x. bit x i"] by (auto simp: bit_simps)
    qed
  qed
  also have "\<dots> \<longleftrightarrow> unat v mod 2 ^ n1 = unat v mod 2 ^ n0"
    by (simp only: word_unat_eq_iff unat_take_mod)
  also have "\<dots> \<longleftrightarrow> unat v mod 2 ^ n1 < 2 ^ n0"
  proof
    assume "unat v mod 2 ^ n1 < 2 ^ n0"
    then have "unat v mod 2 ^ n1 = unat v mod 2 ^ n1 mod 2 ^ n0" by simp
    then show "unat v mod 2 ^ n1 = unat v mod 2 ^ n0"
      using mod_mod_cancel [OF le_imp_power_dvd [OF assms(1)], of "unat v" 2] by simp
  qed simp
  finally show ?thesis .
qed

lemma scan_expansions_correct:
  fixes t1 :: "('k, 'v) dictht"
  assumes len: "length (ht_table t1) = 2 ^ n1" and n: "n0 \<le> n1" "n1 < 64"
  shows "\<exists>es v'. scan_expansions t1 (mask n0) (mask n1) v = Some (es, v')
    \<and> take_bit n0 v' = take_bit n0 v \<and> set es \<subseteq> set (concat (ht_table t1))
    \<and> (\<forall>j < 2 ^ n1. unat v mod 2 ^ n1 \<le> j \<and> j mod 2 ^ n0 = unat v mod 2 ^ n0 \<longrightarrow> set (ht_table t1 ! j) \<subseteq> set es)"
proof (induction "2 ^ n1 - unat v mod 2 ^ n1" arbitrary: v rule: less_induct)
  case less
  let ?i = "unat v mod 2 ^ n1" and ?v = "v + 2 ^ n0"
  have i: "unat (v AND mask n1) = ?i" "?i < 2 ^ n1" by (simp_all flip: take_bit_eq_mask add: unat_take_mod)
  then have b: "dict_bucket t1 (unat (v AND mask n1)) = Some (ht_table t1 ! ?i)"
    using len by (simp add: dict_bucket_def)
  have "ht_table t1 ! ?i \<in> set (ht_table t1)" using i(2) len by (intro nth_mem) simp
  then have sub: "set (ht_table t1 ! ?i) \<subseteq> set (concat (ht_table t1))" by auto
  have "unat ?v mod 2 ^ n0 = unat v mod 2 ^ n0" using scan_next_idx [of n0 n0 v] n by simp
  then have low: "take_bit n0 ?v = take_bit n0 v" "unat ?v mod 2 ^ n0 = unat v mod 2 ^ n0"
    by (simp_all only: word_unat_eq_iff unat_take_mod)
  have idx: "unat ?v mod 2 ^ n1 = (?i + 2 ^ n0) mod 2 ^ n1" using n by (intro scan_next_idx) auto
  have imod: "?i mod 2 ^ n0 = unat v mod 2 ^ n0" by (rule mod_mod_cancel [OF le_imp_power_dvd [OF n(1)]])
  have gap: "j = ?i \<or> ?i + 2 ^ n0 \<le> j" if "?i \<le> j" "j mod 2 ^ n0 = unat v mod 2 ^ n0" for j
  proof -
    have "2 ^ n0 dvd j - ?i" using that imod by (metis mod_eq_dvd_iff_nat)
    then show ?thesis using that(1) by (metis dvd_imp_le le_add_diff_inverse nat_add_left_cancel_le
      not_gr_zero add.right_neutral)
  qed
  note unf = scan_expansions.simps [of t1 "mask n0" "mask n1" v] scan_increment scan_stop_iff [OF n(1)]
  show ?case
  proof (cases "?i + 2 ^ n0 < 2 ^ n1")
    case True
    then have i': "unat ?v mod 2 ^ n1 = ?i + 2 ^ n0" using idx by simp
    have "0 < (2::nat) ^ n0" by simp
    then have dec: "2 ^ n1 - unat ?v mod 2 ^ n1 < 2 ^ n1 - ?i" using i' True by linarith
    obtain es v' where es: "scan_expansions t1 (mask n0) (mask n1) ?v = Some (es, v')"
      "take_bit n0 v' = take_bit n0 ?v" "set es \<subseteq> set (concat (ht_table t1))"
      "\<forall>j < 2 ^ n1. unat ?v mod 2 ^ n1 \<le> j \<and> j mod 2 ^ n0 = unat ?v mod 2 ^ n0 \<longrightarrow> set (ht_table t1 ! j) \<subseteq> set es"
      using less [OF dec] by blast
    have "scan_expansions t1 (mask n0) (mask n1) v = Some (ht_table t1 ! ?i @ es, v')"
      using b es(1) i' by (subst unf(1)) (simp add: unf(2,3) Let_def)
    moreover have "set (ht_table t1 ! j) \<subseteq> set (ht_table t1 ! ?i @ es)"
      if "j < 2 ^ n1" "?i \<le> j" "j mod 2 ^ n0 = unat v mod 2 ^ n0" for j
      using gap [OF that(2,3)] es(4) that i' low(2) by auto
    ultimately show ?thesis using es(2,3) sub low(1) by auto
  next
    case False
    have "(2::nat) ^ n0 \<le> 2 ^ n1" using n(1) by simp
    then have "?i + 2 ^ n0 - 2 ^ n1 < 2 ^ n1" using i(2) by linarith
    then have "(?i + 2 ^ n0) mod 2 ^ n1 = ?i + 2 ^ n0 - 2 ^ n1"
      using False by (simp add: le_mod_geq)
    then have "unat ?v mod 2 ^ n1 < 2 ^ n0" using idx i(2) False by linarith
    then have "scan_expansions t1 (mask n0) (mask n1) v = Some (ht_table t1 ! ?i, ?v)"
      using b by (subst unf(1)) (simp add: unf(2,3) Let_def)
    moreover have "j = ?i" if "j < 2 ^ n1" "?i \<le> j" "j mod 2 ^ n0 = unat v mod 2 ^ n0" for j
      using gap [OF that(2,3)] that(1) False by linarith
    ultimately show ?thesis using sub low(1) by auto
  qed
qed

section \<open>One call\<close>

definition small_size :: "('k, 'v) dict \<Rightarrow> nat" where
  "small_size d = (if dictIsRehashing d then min (ht_size (ht0 d)) (ht_size (ht1 d)) else ht_size (ht0 d))"

lemma ht_key_bucket:
  assumes "ht_ok hash ht" and "ht_sizemask ht = mask n" and "ht_lookup hash ht k = Some x"
  shows "(k, x) \<in> set (ht_table ht ! (unat (ucast (hash k) :: u64) mod 2 ^ n))"
  using assms map_of_SomeD [of "ht_table ht ! dict_idx hash ht k" k x]
  by (auto simp: ht_lookup_def dict_idx_mask unat_take_mod split: if_splits)

lemma scan_small_table:
  assumes ok: "ht_ok hash ht" and ne: "ht_table ht \<noteq> []"
  obtains n where "n < 63" "ht_size ht = 2 ^ n" "ht_sizemask ht = mask n" "length (ht_table ht) = 2 ^ n"
    "dict_bucket ht (unat (v AND ht_sizemask ht)) = Some (ht_table ht ! (unat v mod 2 ^ n))"
    "set (ht_table ht ! (unat v mod 2 ^ n)) \<subseteq> set (concat (ht_table ht))"
proof -
  obtain n where n: "n < 63" "ht_size ht = 2 ^ n" "ht_sizemask ht = mask n" "length (ht_table ht) = 2 ^ n"
    using ht_ok_cases [OF ok ne] by blast
  have "unat (v AND ht_sizemask ht) = unat v mod 2 ^ n" by (simp only: n(3) unat_take_mod flip: take_bit_eq_mask)
  moreover have "ht_table ht ! (unat v mod 2 ^ n) \<in> set (ht_table ht)" using n(4) by (intro nth_mem) simp
  then have "set (ht_table ht ! (unat v mod 2 ^ n)) \<subseteq> set (concat (ht_table ht))"
    unfolding set_concat by (rule UN_upper)
  ultimately show ?thesis using n by (intro that [of n]) (auto simp: dict_bucket_def)
qed

lemma ht_entry: "ht_ok hash ht \<Longrightarrow> (k, x) \<in> set (concat (ht_table ht)) \<Longrightarrow> ht_lookup hash ht k = Some x"
  using ht_lookup_concat [of hash ht] by (metis map_of_eq_Some_iff)

lemma dict_map_iff:
  "dict_inv hash d \<Longrightarrow>
    dict_map hash d k = Some x \<longleftrightarrow> ht_lookup hash (ht0 d) k = Some x \<or> ht_lookup hash (ht1 d) k = Some x"
  by (auto simp: dict_inv_def dict_map_def map_add_def dom_def split: option.split)

text \<open>What one call promises: where the cursor goes and which entries are emitted.\<close>

definition scan_call_ok :: "('k \<Rightarrow> u32) \<Rightarrow> ('k, 'v) dict \<Rightarrow> u64 \<Rightarrow> nat \<Rightarrow> ('k \<times> 'v) list \<Rightarrow> u64 \<Rightarrow> bool" where
  "scan_call_ok hash d v n es v' \<longleftrightarrow>
     n < 63 \<and> small_size d = 2 ^ n \<and> take_bit n v' = v'
     \<and> scan_pos v' = (scan_pos v div 2 ^ (64 - n) + 1) * 2 ^ (64 - n) mod 2 ^ 64
     \<and> (\<forall>k x. (k, x) \<in> set es \<longrightarrow> dict_map hash d k = Some x)
     \<and> ((dictIsRehashing d \<longrightarrow> unat v < small_size d) \<longrightarrow>
         (\<forall>k x. dict_map hash d k = Some x \<and> take_bit n (ucast (hash k)) = take_bit n v \<longrightarrow> (k, x) \<in> set es))"

lemma dictScan_step_stable:
  fixes d :: "('k, 'v) dict"
  assumes inv: "dict_inv hash d" and sz: "dictSize d \<noteq> 0" and re: "\<not> dictIsRehashing d"
  shows "\<exists>es v' n. dictScan d v = Some (es, v') \<and> scan_call_ok hash d v n es v'"
proof -
  obtain n where n: "n < 63" "ht_size (ht0 d) = 2 ^ n" "ht_sizemask (ht0 d) = mask n"
    "dict_bucket (ht0 d) (unat (v AND ht_sizemask (ht0 d))) = Some (ht_table (ht0 d) ! (unat v mod 2 ^ n))"
    "set (ht_table (ht0 d) ! (unat v mod 2 ^ n)) \<subseteq> set (concat (ht_table (ht0 d)))"
    using scan_small_table [OF dict_inv_oks(1) [OF inv] dict_table0 [OF inv], of v] sz by blast
  let ?v = "rev_cursor (rev_cursor (v OR NOT (mask n)) + 1)" and ?es = "ht_table (ht0 d) ! (unat v mod 2 ^ n)"
  have "dictScan d v = Some (?es, ?v)" using re sz n by (simp add: dictScan_def Let_def)
  moreover have "n \<le> 64" using n(1) by simp
  note scan_pos_next [OF this, of v]
  moreover have "dict_map hash d k = Some x" if "(k, x) \<in> set ?es" for k x
    using that n(5) ht_entry [OF dict_inv_oks(1) [OF inv], of k x] dict_map_iff [OF inv] by blast
  moreover have "(k, x) \<in> set ?es" if "dict_map hash d k = Some x" "take_bit n (ucast (hash k)) = take_bit n v" for k x
  proof -
    have "unat (ucast (hash k) :: u64) mod 2 ^ n = unat v mod 2 ^ n"
      using that(2) by (metis unat_take_mod)
    then show ?thesis
      using ht_key_bucket [OF dict_inv_oks(1) [OF inv] n(3)] that(1) dict_not_rehashing(2) [OF inv re] by metis
  qed
  moreover have "small_size d = 2 ^ n" using re n(2) by (simp add: small_size_def)
  ultimately show ?thesis unfolding scan_call_ok_def using n(1) by (intro exI conjI impI allI) (assumption | blast)+
qed

lemma dictScan_step_rehashing:
  fixes d :: "('k, 'v) dict"
  assumes inv: "dict_inv hash d" and sz: "dictSize d \<noteq> 0" and re: "dictIsRehashing d"
  shows "\<exists>es v' n. dictScan d v = Some (es, v') \<and> scan_call_ok hash d v n es v'"
proof -
  obtain t0 t1 where t: "(t0, t1) = (if ht_size (ht0 d) > ht_size (ht1 d) then (ht1 d, ht0 d) else (ht0 d, ht1 d))"
    by (metis surj_pair)
  have ok: "ht_ok hash t0" "ht_ok hash t1" "ht_table t0 \<noteq> []" "ht_table t1 \<noteq> []"
    and le: "ht_size t0 \<le> ht_size t1" and small: "small_size d = ht_size t0"
    and map: "\<And>k x. dict_map hash d k = Some x \<longleftrightarrow> ht_lookup hash t0 k = Some x \<or> ht_lookup hash t1 k = Some x"
    using t inv re dict_map_iff [OF inv] by (auto simp: dict_inv_def small_size_def split: if_splits)
  obtain n where n: "n < 63" "ht_size t0 = 2 ^ n" "ht_sizemask t0 = mask n"
    "dict_bucket t0 (unat (v AND ht_sizemask t0)) = Some (ht_table t0 ! (unat v mod 2 ^ n))"
    "set (ht_table t0 ! (unat v mod 2 ^ n)) \<subseteq> set (concat (ht_table t0))"
    using scan_small_table [OF ok(1,3), of v] by blast
  obtain n1 where n1: "n1 < 63" "ht_size t1 = 2 ^ n1" "ht_sizemask t1 = mask n1" "length (ht_table t1) = 2 ^ n1"
    using ht_ok_cases [OF ok(2,4)] by blast
  have nn: "n \<le> n1" using le n(2) n1(2) by simp
  obtain es1 v1 where e: "scan_expansions t1 (mask n) (mask n1) v = Some (es1, v1)"
    "take_bit n v1 = take_bit n v" "set es1 \<subseteq> set (concat (ht_table t1))"
    "\<forall>j < 2 ^ n1. unat v mod 2 ^ n1 \<le> j \<and> j mod 2 ^ n = unat v mod 2 ^ n \<longrightarrow> set (ht_table t1 ! j) \<subseteq> set es1"
    using scan_expansions_correct [OF n1(4) nn, of v] n1(1) by auto
  let ?v = "rev_cursor (rev_cursor (v1 OR NOT (mask n)) + 1)" and ?es = "ht_table t0 ! (unat v mod 2 ^ n) @ es1"
  have "dictScan d v = Some (?es, ?v)"
    using re sz n(3,4) n1(3) e(1) by (simp add: dictScan_def Let_def flip: t)
  moreover have n64: "n \<le> 64" using n(1) by simp
  have "scan_pos v1 div 2 ^ (64 - n) = scan_pos v div 2 ^ (64 - n)"
    using e(2) scan_pos_same_bucket [OF n64] by blast
  note scan_pos_next [OF n64, of v1, unfolded this]
  moreover have "dict_map hash d k = Some x" if "(k, x) \<in> set ?es" for k x
    using that n(5) e(3) ht_entry [OF ok(1), of k x] ht_entry [OF ok(2), of k x] map
    unfolding set_append by blast
  moreover have "(k, x) \<in> set ?es" if v: "unat v < small_size d" and k: "dict_map hash d k = Some x"
      "take_bit n (ucast (hash k)) = take_bit n v" for k x
  proof -
    let ?h = "unat (ucast (hash k) :: u64)"
    have h: "?h mod 2 ^ n = unat v mod 2 ^ n" using k(2) by (metis unat_take_mod)
    have "unat v < 2 ^ n" using v small n(2) by simp
    then have "unat v mod 2 ^ n1 = unat v" "unat v mod 2 ^ n = unat v"
      using nn by (auto intro!: mod_less elim: order_less_le_trans)
    moreover have "?h mod 2 ^ n1 mod 2 ^ n = ?h mod 2 ^ n" by (rule mod_mod_cancel [OF le_imp_power_dvd [OF nn]])
    moreover have "?h mod 2 ^ n \<le> ?h mod 2 ^ n1" using calculation(3) by (metis mod_less_eq_dividend)
    ultimately have "set (ht_table t1 ! (?h mod 2 ^ n1)) \<subseteq> set es1" using e(4) h by simp
    then show ?thesis
      using k(1) map ht_key_bucket [OF ok(1) n(3), of k x] ht_key_bucket [OF ok(2) n1(3), of k x] h by auto
  qed
  moreover have "small_size d = 2 ^ n" using small n(2) by simp
  ultimately show ?thesis unfolding scan_call_ok_def using n(1) re by (intro exI conjI impI allI) (assumption | blast)+
qed

lemma dictScan_step:
  assumes "dict_inv hash d" and "dictSize d \<noteq> 0"
  shows "\<exists>es v' n. dictScan d v = Some (es, v') \<and> scan_call_ok hash d v n es v'"
  using dictScan_step_stable [OF assms] dictScan_step_rehashing [OF assms] by (cases "dictIsRehashing d")

section \<open>Whole scans\<close>

text \<open>
  The cursor stays inside the smaller table of the call that returned it, so the next
  call finds it there as well unless the dictionary has shrunk and is still rehashing.
\<close>

definition scan_grows :: "('k, 'v) dict list \<Rightarrow> bool" where
  "scan_grows ds \<longleftrightarrow> successively (\<lambda>d d'. dictIsRehashing d' \<longrightarrow> small_size d \<le> small_size d') ds"

lemma dictScan_total:
  assumes "dict_inv hash d"
  shows "\<exists>es v'. dictScan d v = Some (es, v') \<and> (\<forall>k x. (k, x) \<in> set es \<longrightarrow> dict_map hash d k = Some x)"
proof (cases "dictSize d = 0")
  case False
  then show ?thesis using dictScan_step [OF assms False, of v] unfolding scan_call_ok_def by metis
qed (simp add: dictScan_def)

lemma scan_run_total:
  assumes "\<forall>d \<in> set ds. dict_inv hash d"
  shows "\<exists>es v'. scan_run ds v = Some (es, v') \<and> (\<forall>k x. (k, x) \<in> set es \<longrightarrow> (\<exists>d \<in> set ds. dict_map hash d k = Some x))"
  using assms
proof (induction ds arbitrary: v)
  case (Cons d ds)
  obtain es v1 where d: "dictScan d v = Some (es, v1)" "\<forall>k x. (k, x) \<in> set es \<longrightarrow> dict_map hash d k = Some x"
    using dictScan_total [of hash d v] Cons.prems by auto
  obtain es' v2 where "scan_run ds v1 = Some (es', v2)"
    "\<forall>k x. (k, x) \<in> set es' \<longrightarrow> (\<exists>d \<in> set ds. dict_map hash d k = Some x)"
    using Cons.IH [of v1] Cons.prems by auto
  then show ?case using d by auto
qed simp

lemma scan_call_covers:
  assumes c: "scan_call_ok hash d v n es v'" and al: "dictIsRehashing d \<longrightarrow> unat v < small_size d"
    and k: "dict_map hash d k = Some x" and pos: "scan_pos v \<le> scan_pos (ucast (hash k))"
  shows "(k, x) \<in> set es \<or> v' \<noteq> 0 \<and> scan_pos v' \<le> scan_pos (ucast (hash k)) \<and> unat v' < small_size d"
proof (cases "take_bit n (ucast (hash k)) = take_bit n v")
  case True
  then show ?thesis using c al k unfolding scan_call_ok_def by blast
next
  case False
  let ?h = "scan_pos (ucast (hash k))" and ?m = "2 ^ (64 - n) :: nat"
  have n: "n \<le> 64" "small_size d = 2 ^ n" "take_bit n v' = v'"
    and v': "scan_pos v' = (scan_pos v div ?m + 1) * ?m mod 2 ^ 64"
    using c unfolding scan_call_ok_def by auto
  have "?h div ?m \<noteq> scan_pos v div ?m" using False scan_pos_same_bucket [OF n(1)] by blast
  moreover have "scan_pos v div ?m \<le> ?h div ?m" using pos by (rule div_le_mono)
  ultimately have "scan_pos v div ?m + 1 \<le> ?h div ?m" by simp
  then have le: "(scan_pos v div ?m + 1) * ?m \<le> ?h"
    by (meson div_times_less_eq_dividend le_trans mult_le_mono1)
  then have "scan_pos v' = (scan_pos v div ?m + 1) * ?m"
    using v' scan_pos_less [of "ucast (hash k)"] by simp
  moreover have "0 < (scan_pos v div ?m + 1) * ?m" by simp
  moreover have "unat v' < 2 ^ n" using n(3) by (metis mod_less_divisor unat_take_mod zero_less_numeral zero_less_power)
  ultimately show ?thesis using le n(2) by (metis less_numeral_extra(3) scan_pos_0)
qed

lemma scan_run_covers:
  assumes "\<forall>d \<in> set ds. dict_inv hash d \<and> dict_map hash d k \<noteq> None" and "scan_grows ds"
    and "ds \<noteq> [] \<Longrightarrow> dictIsRehashing (hd ds) \<longrightarrow> unat v < small_size (hd ds)"
    and "scan_pos v \<le> scan_pos (ucast (hash k))" and "ds = [] \<Longrightarrow> v \<noteq> 0" and "scan_run ds v = Some (es, 0)"
  shows "k \<in> fst ` set es"
  using assms
proof (induction ds arbitrary: v es)
  case (Cons d ds)
  obtain x where x: "dict_inv hash d" "dict_map hash d k = Some x" using Cons.prems(1) by auto
  then have "dictSize d \<noteq> 0" using dict_map_empty [OF x(1)] by auto
  then obtain es1 v1 n where c: "dictScan d v = Some (es1, v1)" "scan_call_ok hash d v n es1 v1"
    using dictScan_step [OF x(1)] by blast
  consider (here) "(k, x) \<in> set es1"
    | (later) "v1 \<noteq> 0" "scan_pos v1 \<le> scan_pos (ucast (hash k))" "unat v1 < small_size d"
    using scan_call_covers [OF c(2) _ x(2) Cons.prems(4)] Cons.prems(3) by auto
  then show ?case
  proof cases
    case here
    have "set es1 \<subseteq> set es"
      using Cons.prems(6) c(1) by (auto elim!: option_bind_SomeE split: if_splits)
    then show ?thesis using here by force
  next
    case later
    then obtain es2 where es2: "scan_run ds v1 = Some (es2, 0)" "es = es1 @ es2"
      using Cons.prems(6) c(1) by (auto elim!: option_bind_SomeE)
    have "k \<in> fst ` set es2"
    proof (rule Cons.IH [OF _ _ _ later(2) _ es2(1)])
      show "dictIsRehashing (hd ds) \<longrightarrow> unat v1 < small_size (hd ds)" if "ds \<noteq> []"
        using Cons.prems(2) that later(3) by (cases ds) (auto simp: scan_grows_def)
      show "scan_grows ds" using Cons.prems(2) by (cases ds) (auto simp: scan_grows_def)
    qed (use Cons.prems(1) later(1) in auto)
    then show ?thesis using es2(2) by auto
  qed
qed simp

lemma scan_pos_eq_0: "scan_pos v = 0 \<longleftrightarrow> v = 0"
  by (metis scan_pos_def unsigned_0 unsigned_word_eqI word_rev_rev word_reverse_0)

lemma scan_run_ends:
  assumes inv: "dict_inv hash d" and sz: "dictSize d \<noteq> 0" and n: "small_size d = 2 ^ n" "n < 63"
    and j: "0 < j" "j \<le> 2 ^ n" and v: "scan_pos v = (2 ^ n - j) * 2 ^ (64 - n)"
  shows "\<exists>es. scan_run (replicate j d) v = Some (es, 0)"
  using j v
proof (induction j arbitrary: v)
  case (Suc j)
  obtain es v1 n' where c: "dictScan d v = Some (es, v1)" "scan_call_ok hash d v n' es v1"
    using dictScan_step [OF inv sz] by blast
  have "n' = n" using c(2) n(1) unfolding scan_call_ok_def by auto
  then have pos: "scan_pos v1 = (2 ^ n - Suc j + 1) * 2 ^ (64 - n) mod 2 ^ 64"
    using c(2) Suc.prems(3) unfolding scan_call_ok_def by simp
  have eq: "2 ^ n - Suc j + 1 = 2 ^ n - j" using Suc.prems(2) by linarith
  have full: "(2::nat) ^ n * 2 ^ (64 - n) = 2 ^ 64" using n(2) by (simp flip: power_add)
  show ?case
  proof (cases "j = 0")
    case True
    then have "v1 = 0" using pos eq full by (simp add: scan_pos_eq_0)
    then show ?thesis using c(1) True by simp
  next
    case False
    then have "(2 ^ n - j) * 2 ^ (64 - n) < (2::nat) ^ n * 2 ^ (64 - n)" by simp
    then have pos': "scan_pos v1 = (2 ^ n - j) * 2 ^ (64 - n)"
      using pos [unfolded eq] full by (metis mod_less)
    then have "v1 \<noteq> 0" using Suc.prems(2) scan_pos_eq_0 [of v1] by auto
    moreover obtain es2 where "scan_run (replicate j d) v1 = Some (es2, 0)"
      using Suc.IH [OF _ _ pos'] False Suc.prems(2) by auto
    ultimately show ?thesis using c(1) by simp
  qed
qed simp

lemma scan_grows_replicate: "scan_grows (replicate j d)"
  unfolding scan_grows_def
proof (induction j)
  case (Suc j)
  then show ?case by (cases j) auto
qed simp

lemma scan_run_full:
  assumes inv: "dict_inv hash d"
  shows "\<exists>es. scan_run (replicate (small_size d) d) 0 = Some (es, 0)
    \<and> (\<forall>k x. (k, x) \<in> set es \<longleftrightarrow> dict_map hash d k = Some x)"
proof (cases "dictSize d = 0")
  case True
  then have "dict_map hash d = Map.empty" using dict_map_empty [OF inv] by simp
  then show ?thesis using True by (cases "small_size d") (auto simp: dictScan_def)
next
  case False
  obtain es0 v0 n where c: "scan_call_ok hash d 0 n es0 v0" using dictScan_step [OF inv False] by blast
  then have n: "small_size d = 2 ^ n" "n < 63" unfolding scan_call_ok_def by auto
  obtain es where es: "scan_run (replicate (small_size d) d) 0 = Some (es, 0)"
    using scan_run_ends [OF inv False n, of "2 ^ n" 0] n by auto
  have "dict_map hash d k = Some x" if "(k, x) \<in> set es" for k x
    using scan_run_total [of "replicate (small_size d) d" hash 0] inv es that by auto
  moreover have "(k, x) \<in> set es" if "dict_map hash d k = Some x" for k x
  proof -
    have "k \<in> fst ` set es"
      using scan_run_covers [of "replicate (small_size d) d" hash k 0 es] inv that es n scan_grows_replicate
      by auto
    then obtain y where "(k, y) \<in> set es" by auto
    then show ?thesis using calculation [of k y] that by simp
  qed
  ultimately show ?thesis using es by blast
qed

section \<open>A scan across a shrinking table\<close>

text \<open>
  A table of 16 buckets that holds the single key 4; \<open>dictResize\<close> starts to shrink it to
  4 buckets.
\<close>

definition scan_example :: "(u32, nat) dict" where
  "scan_example = \<lparr>ht0 = \<lparr>ht_table = (replicate 16 [])[4 := [(4, 7)]], ht_size = 16, ht_sizemask = 15, ht_used = 1\<rparr>,
     ht1 = dictReset, rehashidx = - 1, iterators = 0\<rparr>"

definition scan_example_shrinking :: "(u32, nat) dict" where
  "scan_example_shrinking = scan_example\<lparr>ht1 := \<lparr>ht_table = replicate 4 [], ht_size = 4, ht_sizemask = 3, ht_used = 0\<rparr>,
     rehashidx := 0\<rparr>"

lemma dictNextPower_4: "dictNextPower 4 = 4"
  unfolding dictNextPower_def by (subst dictNextPower_loop.simps) simp

lemma scan_example_resize: "dictResize True scan_example = (scan_example_shrinking, True)"
  by (simp add: dictResize_def dictExpand_def scan_example_def scan_example_shrinking_def dictIsRehashing_def
      dictNextPower_4 Let_def)

lemma scan_example_inv: "dict_inv id scan_example" "dict_map id scan_example 4 = Some 7"
proof -
  define t :: "(u32, nat) dictht" where
    "t = \<lparr>ht_table = replicate (2 ^ 4) [], ht_size = 2 ^ 4, ht_sizemask = of_nat (2 ^ 4) - 1, ht_used = 0\<rparr>"
  have f: "ht_ok id t" "ht_table t \<noteq> []" "ht_lookup id t 4 = None"
    using fresh_table [OF t_def] by simp_all
  have idx: "dict_idx id t 4 = 4" by (simp add: dict_idx_def t_def)
  have "ht0 scan_example = t\<lparr>ht_table := (ht_table t)[4 := (4, 7) # ht_table t ! 4], ht_used := ht_used t + 1\<rparr>"
    by (simp add: scan_example_def t_def)
  then have "ht_ok id (ht0 scan_example)" "ht_lookup id (ht0 scan_example) 4 = Some 7"
    using ht_push(1,2) [OF f, of 7] idx by simp_all
  then show "dict_inv id scan_example" "dict_map id scan_example 4 = Some 7"
    by (auto simp: dict_inv_def dict_map_def scan_example_def dictIsRehashing_def)
qed

lemma scan_example_shrinking_inv: "dict_inv id scan_example_shrinking" "dict_map id scan_example_shrinking 4 = Some 7"
  using dictResize_correct [OF scan_example_inv(1) _ scan_example_resize] scan_example_inv(2)
  by (simp_all add: dictSize_def scan_example_def)

text \<open>Positions of small cursors.\<close>

lemma unat_power2: "i < 64 \<Longrightarrow> unat (2 ^ i :: u64) = 2 ^ i"
proof -
  assume "i < 64"
  then have "(2::nat) ^ i < 2 ^ LENGTH(64)" by (intro power_strict_increasing) auto
  moreover have "unat (of_nat (2 ^ i) :: u64) = 2 ^ i mod 2 ^ LENGTH(64)" by (rule unat_of_nat)
  ultimately show ?thesis by (simp only: mod_less of_nat_power of_nat_numeral)
qed

lemma word_reverse_power: "i < 64 \<Longrightarrow> word_reverse (2 ^ i :: u64) = 2 ^ (63 - i)"
  by (rule bit_eqI) (auto simp: bit_word_reverse_iff bit_exp_iff)

lemma scan_pos_power: "i < 64 \<Longrightarrow> scan_pos (2 ^ i) = 2 ^ (63 - i)"
  unfolding scan_pos_def by (subst word_reverse_power) (auto intro: unat_power2)

lemma scan_pos_inj: "scan_pos a = scan_pos b \<Longrightarrow> a = b"
  unfolding scan_pos_def by (metis unsigned_word_eqI word_rev_rev)

lemma word_reverse_or: "word_reverse (a OR b :: u64) = word_reverse a OR word_reverse b"
  by (rule bit_eqI) (auto simp: bit_or_iff bit_word_reverse_iff)

lemma scan_pos_values: "scan_pos 1 = 2 ^ 63" "scan_pos 2 = 2 ^ 62" "scan_pos 3 = 3 * 2 ^ 62" "scan_pos 8 = 2 ^ 60"
proof -
  show p: "scan_pos 1 = 2 ^ 63" "scan_pos 2 = 2 ^ 62" "scan_pos 8 = 2 ^ 60"
    using scan_pos_power [of 0] scan_pos_power [of 1] scan_pos_power [of 3] by simp_all
  have "word_reverse (3 :: u64) = 2 ^ 63 OR 2 ^ 62"
    using word_reverse_or [of 1 2] word_reverse_power [of 0] word_reverse_power [of 1] by simp
  then show "scan_pos 3 = 3 * 2 ^ 62" unfolding scan_pos_def by simp
qed

lemma scan_cursor_next:
  assumes "n \<le> 64" and "take_bit n v1 = take_bit n v"
    and "scan_pos w = (scan_pos v div 2 ^ (64 - n) + 1) * 2 ^ (64 - n) mod 2 ^ 64"
  shows "rev_cursor (rev_cursor (v1 OR NOT (mask n)) + 1) = w"
  using scan_pos_next(1) [OF assms(1), of v1] scan_pos_same_bucket [OF assms(1), of v1 v] assms(2,3)
  by (intro scan_pos_inj) simp

lemma scan_cursor_0: "rev_cursor (rev_cursor (NOT (mask 4)) + 1) = 8"
  using scan_cursor_next [of 4 0 0 8] by (simp add: scan_pos_values)

lemma scan_cursor_16: "rev_cursor (rev_cursor (16 OR NOT (mask 2)) + 1) = 2"
  using scan_cursor_next [of 2 16 8 2] by (simp add: scan_pos_values)

lemma scan_cursor_18: "rev_cursor (rev_cursor (18 OR NOT (mask 2)) + 1) = 1"
  using scan_cursor_next [of 2 18 2 1] by (simp add: scan_pos_values)

lemma scan_cursor_17: "rev_cursor (rev_cursor (17 OR NOT (mask 2)) + 1) = 3"
  using scan_cursor_next [of 2 17 1 3] by (simp add: scan_pos_values)

lemma scan_cursor_19: "rev_cursor (rev_cursor (19 OR NOT (mask 2)) + 1) = 0"
  using scan_cursor_next [of 2 19 3 0] by (simp add: scan_pos_values)

lemma scan_example_buckets:
  "i < 16 \<Longrightarrow> i \<noteq> 4 \<Longrightarrow> dict_bucket (ht0 scan_example) i = Some []"
  "ht0 scan_example_shrinking = ht0 scan_example"
  "i < 4 \<Longrightarrow> dict_bucket (ht1 scan_example_shrinking) i = Some []"
  by (auto simp: dict_bucket_def scan_example_def scan_example_shrinking_def)

lemma scan_example_call: "dictScan scan_example 0 = Some ([], 8)"
proof -
  have "dict_bucket (ht0 scan_example) 0 = Some []" by (rule scan_example_buckets) simp_all
  then show ?thesis
    using scan_cursor_0
    by (simp add: dictScan_def scan_example_def dictSize_def dictIsRehashing_def mask_numeral)
qed

lemma scan_example_shrinking_call:
  assumes "dict_bucket (ht1 scan_example_shrinking) (unat (v AND 3)) = Some []"
    and "scan_expansions (ht0 scan_example) 3 15 v = Some ([], w)"
  shows "dictScan scan_example_shrinking v = Some ([], rev_cursor (rev_cursor (w OR NOT 3) + 1))"
proof -
  have "dictSize scan_example_shrinking \<noteq> 0" "dictIsRehashing scan_example_shrinking"
    "ht_size (ht0 scan_example_shrinking) = 16" "ht_size (ht1 scan_example_shrinking) = 4"
    "ht_sizemask (ht0 scan_example_shrinking) = 15" "ht_sizemask (ht1 scan_example_shrinking) = 3"
    by (simp_all add: scan_example_def scan_example_shrinking_def dictSize_def dictIsRehashing_def)
  then show ?thesis using assms by (simp add: dictScan_def scan_example_buckets(2))
qed

lemma scan_example_expansions:
  "scan_expansions (ht0 scan_example) 3 15 8 = Some ([], 16)"
  "scan_expansions (ht0 scan_example) 3 15 2 = Some ([], 18)"
  "scan_expansions (ht0 scan_example) 3 15 1 = Some ([], 17)"
  "scan_expansions (ht0 scan_example) 3 15 3 = Some ([], 19)"
  by (simp_all add: scan_expansions.simps [of _ _ _ "numeral n" for n] scan_expansions.simps [of _ _ _ 1]
      scan_example_buckets(1))

lemma scan_example_shrinking_calls:
  "dictScan scan_example_shrinking 8 = Some ([], 2)" "dictScan scan_example_shrinking 2 = Some ([], 1)"
  "dictScan scan_example_shrinking 1 = Some ([], 3)" "dictScan scan_example_shrinking 3 = Some ([], 0)"
  using scan_example_shrinking_call [OF _ scan_example_expansions(1)] scan_cursor_16
    scan_example_shrinking_call [OF _ scan_example_expansions(2)] scan_cursor_18
    scan_example_shrinking_call [OF _ scan_example_expansions(3)] scan_cursor_17
    scan_example_shrinking_call [OF _ scan_example_expansions(4)] scan_cursor_19
  by (simp_all add: scan_example_buckets(3) mask_numeral)

section \<open>Properties\<close>

text \<open>
  C2. The guarantee of \<open>SCAN\<close>. Over any sequence of states that a dictionary goes
  through between the calls (insertions, deletions, growth, rehashing steps), as long
  as it is not being rehashed into a table smaller than the one the cursor comes from:
  the calls are memory safe, only entries of the dictionary are returned, and when the
  cursor is back at 0, every key that was there all the time has been returned.
\<close>

theorem dictScan_complete:
  assumes "ds \<noteq> []" and "\<forall>d \<in> set ds. dict_inv hash d" and "scan_grows ds"
  shows "\<exists>es v. scan_run ds 0 = Some (es, v)
    \<and> (\<forall>k x. (k, x) \<in> set es \<longrightarrow> (\<exists>d \<in> set ds. dict_map hash d k = Some x))
    \<and> (v = 0 \<longrightarrow> (\<forall>k. (\<forall>d \<in> set ds. dict_map hash d k \<noteq> None) \<longrightarrow> k \<in> fst ` set es))"
proof -
  obtain es v where es: "scan_run ds 0 = Some (es, v)"
    "\<forall>k x. (k, x) \<in> set es \<longrightarrow> (\<exists>d \<in> set ds. dict_map hash d k = Some x)"
    using scan_run_total [OF assms(2)] by blast
  moreover have "k \<in> fst ` set es" if "v = 0" and k: "\<forall>d \<in> set ds. dict_map hash d k \<noteq> None" for k
  proof -
    have "unat (0 :: u64) < small_size (hd ds)"
    proof -
      have h: "dict_inv hash (hd ds)" "dict_map hash (hd ds) k \<noteq> None" using assms(1,2) k by auto
      then have "dictSize (hd ds) \<noteq> 0" using dict_map_empty [OF h(1)] by auto
      then show ?thesis using dictScan_step [OF h(1), of 0] unfolding scan_call_ok_def by auto
    qed
    then show ?thesis
      using scan_run_covers [of ds hash k 0 es] assms k es(1) that(1) by auto
  qed
  ultimately show ?thesis by blast
qed

theorem dictScan_complete_witness:
  "\<exists>es v. scan_run (replicate 16 scan_example) 0 = Some (es, v)
    \<and> (\<forall>k x. (k, x) \<in> set es \<longrightarrow> (\<exists>d \<in> set (replicate 16 scan_example). dict_map id d k = Some x))
    \<and> (v = 0 \<longrightarrow> (\<forall>k. (\<forall>d \<in> set (replicate 16 scan_example). dict_map id d k \<noteq> None) \<longrightarrow> k \<in> fst ` set es))"
  by (rule dictScan_complete) (simp_all add: scan_example_inv scan_grows_replicate)

text \<open>
  C11. On a dictionary that does not change, also in the middle of a rehashing, a scan
  ends after as many calls as the smaller table has buckets and has returned exactly
  the entries of the dictionary.
\<close>

theorem dictScan_terminates:
  assumes "dict_inv hash d"
  shows "\<exists>es. scan_run (replicate (small_size d) d) 0 = Some (es, 0)
    \<and> (\<forall>k x. (k, x) \<in> set es \<longleftrightarrow> dict_map hash d k = Some x)"
  using scan_run_full [OF assms] .

theorem dictScan_terminates_witness:
  "\<exists>es. scan_run (replicate (small_size scan_example_shrinking) scan_example_shrinking) 0 = Some (es, 0)
    \<and> (\<forall>k x. (k, x) \<in> set es \<longleftrightarrow> dict_map id scan_example_shrinking k = Some x)"
  by (rule dictScan_terminates) (rule scan_example_shrinking_inv)

text \<open>
  C13. The guarantee fails while the table shrinks: the key 4 is in the dictionary from
  the first call to the last, \<open>dictResize\<close> runs once after the first call, and the scan
  ends without returning the key. The loop over the expansions starts at the cursor
  and counts upwards, and so skips expansions that the order of the reversed bits
  visits later.
\<close>

theorem dictScan_misses_key:
  "dictResize True scan_example = (scan_example_shrinking, True)
   \<and> dict_inv id scan_example \<and> dict_inv id scan_example_shrinking
   \<and> dict_map id scan_example 4 = Some 7 \<and> dict_map id scan_example_shrinking 4 = Some 7
   \<and> scan_run (scan_example # replicate 4 scan_example_shrinking) 0 = Some ([], 0)"
  by (simp add: scan_example_resize scan_example_inv scan_example_shrinking_inv scan_example_call
      scan_example_shrinking_calls numeral_eq_Suc)

end
