(* ===== verification/Spec2Isabelle.thy ===== *)
theory Spec2Isabelle
  imports Adlist Backlog Rand Notify Slowlog Multi KeyspaceProps Crc Util Intset DictHash DictIter DictScan
begin

text \<open>
  A verification development for the Redis 3.2 server under \<open>src/redis-stable/src\<close>, the key-value
  store that the application of this repository runs its background jobs on.

  \<^bold>\<open>The program.\<close> Redis keeps databases, each a hash table from keys to objects with a second
  table of expire times. Clients send commands, which look keys up, change objects, reply,
  and announce every change to transactions (WATCH), to subscribers and to replicas. The
  development models the containers the server is built on, bottom up, and then the command
  layers that use them.

  \<^bold>\<open>Conventions.\<close> A C function is a HOL function of the same name. A structure is a record, a
  fixed-width integer that may wrap a word, and one that is only compared an integer with its
  range written out. Code that can go wrong returns an option: \<open>None\<close> stands for undefined
  behaviour (a read or write outside a buffer, a NULL dereference, signed overflow) and for
  a failed assertion; a theorem that a function returns \<open>Some\<close> is thus a safety theorem. A
  loop is a recursive function with a termination proof; a loop that the source bounds by a
  number of steps has this number as its argument, and one that waits for a random number or
  the clock recurses over the list of the numbers it is given.
  Memory allocation succeeds; the contents of fresh memory are an argument (\<open>junk\<close>). Random
  numbers, the clock, the order of dictionary iterators and \<open>call\<close>, which runs a command of
  a transaction, are arguments as well.

  \<^bold>\<open>Theories.\<close>
  \<^item> Prelude: buffers with bounds checks, cells of equal size, option and word lemmas.
    Bytes: little-endian encodings and the reversals of \<open>endianconv.c\<close>.
  \<^item> Crc: \<open>crc16.c\<close>, \<open>crc64.c\<close>. The tables and loops equal bit-serial division; burst errors
    of eight bytes are detected; check values.
  \<^item> Util: the number conversions of \<open>util.c\<close>. Round trip and exact domain of \<open>string2ll\<close>.
  \<^item> Interfaces: the locales \<open>set_store\<close>, \<open>map_store\<close> and \<open>key_table\<close>, contracts of the
    containers, with the facts clients rely on proved once. Intset and DictMap interpret them.
  \<^item> Intset: \<open>intset.c\<close> on its byte representation. Every history refines a set.
  \<^item> Dict, DictMap, DictIter, DictScan, DictHash: \<open>dict.c\<close>. The two tables with incremental
    rehashing refine a map; rehashing ends; iterators return every entry once; random and
    sampled keys are members; a scan returns every key that stays, while the table grows or
    is rehashed, and can miss one when it shrinks; the integer hash is injective.
  \<^item> Adlist: \<open>adlist.c\<close> on an explicit heap of nodes. Every history refines a list, with no
    access to freed nodes and no leak.
  \<^item> Glob: \<open>stringmatchlen\<close> of \<open>util.c\<close> with its pointers as offsets. Plain patterns match
    exactly themselves; a character class runs over the end of the string.
  \<^item> Multi: \<open>multi.c\<close>. WATCH bookkeeping is consistent after every history; a touched key makes
    EXEC fail; a clean EXEC runs the queue in order.
  \<^item> Keyspace, TString, KeyspaceProps: \<open>db.c\<close> with expiry, and the commands of \<open>t_string.c\<close>.
    Every command returns and keeps the key space consistent; a volatile key lives exactly
    until its deadline; INCRBY is exact; SETRANGE can pass its length limit; MOVE is not
    signalled to WATCH.
  \<^item> Pubsub, Notify: \<open>pubsub.c\<close> and \<open>notify.c\<close>. Subscriptions refine sets per client, a message
    reaches exactly its subscribers, event flags survive printing and parsing.
  \<^item> Slowlog: \<open>slowlog.c\<close>. The log is exactly the newest slow queries up to its length.
  \<^item> Rand: \<open>rand.c\<close>. The generator on digits of 16 bits is the 48-bit congruential generator.
  \<^item> Backlog: the replication backlog of \<open>replication.c\<close>. A replica that reconnects within the
    backlog is sent exactly the bytes of the stream it missed; resizing drops the content.

  \<^bold>\<open>How the layers meet.\<close> The key space of Keyspace is a map; that the hash tables of \<open>dict.c\<close>
  behave as maps is the refinement of DictMap. The lists of clients and patterns in Multi,
  Pubsub and Slowlog are HOL lists; that \<open>adlist.c\<close> implements lists is the refinement of
  Adlist. Keyspace uses the number conversions of Util, Pubsub the matcher of Glob, and Notify
  both Pubsub and Util. The calls of \<open>signalModifiedKey\<close> and \<open>notifyKeyspaceEvent\<close> that
  Keyspace records are the inputs of \<open>touchWatchedKey\<close> in Multi and of the function of
  Notify.

  \<^bold>\<open>Not modelled.\<close> Networking and the event loop (system calls); persistence and replication
  (\<open>rdb.c\<close>, \<open>aof.c\<close>, \<open>replication.c\<close> except for the backlog: files, sockets and forked processes); cluster and sentinel
  (message exchange over sockets); scripting (the Lua interpreter under \<open>deps\<close>); the commands
  on lists, sets, hashes and sorted sets with their encodings (\<open>ziplist.c\<close>, \<open>quicklist.c\<close>, skip
  lists), bit operations, HyperLogLog and geo commands; floating point (INCRBYFLOAT,
  \<open>d2string\<close>); reference counts, access times and the memory allocator; the command line tools;
  and the Rails application under \<open>src/app\<close>, whose classes are declarations for a framework
  and a database that are not part of the repository.
\<close>

end
